(* ===== verification/Golem_Prelude.thy ===== *)
theory Golem_Prelude
  imports Main "HOL-Library.Word" "HOL-Library.Multiset"
begin

text \<open>
  Shared vocabulary of the development: machine-integer widths with their wrap-around,
  index loops over fixed arrays and vectors, the errors that the C++ code throws, and the
  generic list lemmas that the component theories use.

  Conventions. A C++ \<open>uint32_t\<close>/\<open>uint64_t\<close>/\<open>size_t\<close> is a \<^typ>\<open>nat\<close>; where the source
  computes with it in a way that can leave the type's range, the wrap-around is written out
  with \<open>u32\<close>, \<open>u64\<close>, \<open>sub32\<close>, \<open>sub64\<close>. Bit masks, hashes and floating-point encodings
  are machine words. Cycle counters and monotone statistics are plain naturals. A mutating
  member function returns its C++ result paired with the new object.
\<close>

named_theorems golem_inv \<open>preservation lemmas of component invariants\<close>
named_theorems golem_defs \<open>definitions that component proofs unfold together\<close>

type_synonym cycle = nat
type_synonym addr = nat
type_synonym byte = "8 word"

text \<open>What the code throws, and undefined behaviour of C++: a read outside an array, a division by zero.\<close>

datatype golem_error =
    InvalidArgument string
  | LogicError string
  | RuntimeError string
  | OutOfBounds
  | DivisionByZero

subsection \<open>Machine integers\<close>

definition u32 :: "nat \<Rightarrow> nat" where
  "u32 n = n mod 2 ^ 32"

definition u64 :: "nat \<Rightarrow> nat" where
  "u64 n = n mod 2 ^ 64"

definition sub32 :: "nat \<Rightarrow> nat \<Rightarrow> nat" where
  "sub32 a b = (a + 2 ^ 32 - b mod 2 ^ 32) mod 2 ^ 32"

definition sub64 :: "nat \<Rightarrow> nat \<Rightarrow> nat" where
  "sub64 a b = (a + 2 ^ 64 - b mod 2 ^ 64) mod 2 ^ 64"

lemma u32_id [simp]: "n < 2 ^ 32 \<Longrightarrow> u32 n = n"
  by (simp add: u32_def)

lemma u64_id [simp]: "n < 2 ^ 64 \<Longrightarrow> u64 n = n"
  by (simp add: u64_def)

lemma u32_less [simp]: "u32 n < 2 ^ 32"
  by (simp add: u32_def)

lemma u64_less [simp]: "u64 n < 2 ^ 64"
  by (simp add: u64_def)

lemma sub64_id: "b \<le> a \<Longrightarrow> a < 2 ^ 64 \<Longrightarrow> sub64 a b = a - b"
  by (simp add: sub64_def mod_if)

lemma sub32_id: "b \<le> a \<Longrightarrow> a < 2 ^ 32 \<Longrightarrow> sub32 a b = a - b"
  by (simp add: sub32_def mod_if)

subsection \<open>Ranges of a vector\<close>

text \<open>
  \<open>range_of xs off n\<close> is the iterator range \<open>[xs.begin()+off, xs.begin()+off+n)\<close>;
  \<open>put_range\<close> is the index loop \<open>for i: xs[off+i] = vs[i]\<close>, \<open>fill_range\<close> is
  \<open>std::fill\<close> on such a range.
\<close>

definition range_of :: "'a list \<Rightarrow> nat \<Rightarrow> nat \<Rightarrow> 'a list" where
  "range_of xs off n = take n (drop off xs)"

fun put_range :: "nat \<Rightarrow> 'a list \<Rightarrow> 'a list \<Rightarrow> 'a list" where
  "put_range off [] xs = xs"
| "put_range off (v # vs) xs = put_range (Suc off) vs (xs[off := v])"

definition fill_range :: "nat \<Rightarrow> nat \<Rightarrow> 'a \<Rightarrow> 'a list \<Rightarrow> 'a list" where
  "fill_range off n v xs = put_range off (replicate n v) xs"

lemma length_put_range [simp]: "length (put_range off vs xs) = length xs"
  by (induction vs arbitrary: off xs) auto

lemma length_fill_range [simp]: "length (fill_range off n v xs) = length xs"
  by (simp add: fill_range_def)

lemma nth_put_range:
  assumes "i < length xs"
  shows "put_range off vs xs ! i =
    (if off \<le> i \<and> i < off + length vs then vs ! (i - off) else xs ! i)"
  using assms
proof (induction vs arbitrary: off xs)
  case Nil
  then show ?case by auto
next
  case (Cons v vs)
  then have IH: "put_range (Suc off) vs (xs[off := v]) ! i =
    (if Suc off \<le> i \<and> i < Suc off + length vs then vs ! (i - Suc off) else xs[off := v] ! i)"
    by simp
  show ?case
  proof (cases "i = off")
    case True
    with IH Cons.prems show ?thesis by simp
  next
    case False
    with IH show ?thesis by (auto simp: nth_Cons')
  qed
qed

lemma nth_fill_range:
  "i < length xs \<Longrightarrow>
    fill_range off n v xs ! i = (if off \<le> i \<and> i < off + n then v else xs ! i)"
  by (auto simp: fill_range_def nth_put_range)

lemma length_range_of [simp]: "length (range_of xs off n) = min n (length xs - off)"
  by (simp add: range_of_def)

lemma nth_range_of:
  "i < n \<Longrightarrow> off + i < length xs \<Longrightarrow> range_of xs off n ! i = xs ! (off + i)"
  by (simp add: range_of_def)

lemma set_range_of:
  "off + n \<le> length xs \<Longrightarrow> set (range_of xs off n) = {xs ! i | i. off \<le> i \<and> i < off + n}"
proof -
  assume a: "off + n \<le> length xs"
  have "set (range_of xs off n) = {range_of xs off n ! i | i. i < n}"
    using a by (auto simp: set_conv_nth)
  also have "\<dots> = {xs ! (off + i) | i. i < n}"
    using a by (force simp: nth_range_of)
  also have "\<dots> = {xs ! i | i. off \<le> i \<and> i < off + n}"
    by auto (metis le_Suc_ex nat_add_left_cancel_less)
  finally show ?thesis .
qed

lemma range_of_put_range:
  "off + length vs \<le> length xs \<Longrightarrow> range_of (put_range off vs xs) off (length vs) = vs"
  by (rule nth_equalityI) (auto simp: nth_range_of nth_put_range)

lemma put_range_id:
  "off + n \<le> length xs \<Longrightarrow> put_range off (range_of xs off n) xs = xs"
  by (rule nth_equalityI) (auto simp: nth_put_range nth_range_of)

subsection \<open>Counting\<close>

definition count_if :: "('a \<Rightarrow> bool) \<Rightarrow> 'a list \<Rightarrow> nat" where
  "count_if P xs = length (filter P xs)"

lemma count_if_simps [simp]:
  "count_if P [] = 0"
  "count_if P (x # xs) = (if P x then 1 else 0) + count_if P xs"
  by (simp_all add: count_if_def)

lemma count_if_le: "count_if P xs \<le> length xs"
  by (simp add: count_if_def)

lemma count_if_card: "count_if P xs = card {i. i < length xs \<and> P (xs ! i)}"
  by (simp add: count_if_def length_filter_conv_card)

lemma count_if_replicate [simp]: "count_if P (replicate n x) = (if P x then n else 0)"
  by (induction n) auto

lemma count_if_full: "count_if P xs = length xs \<longleftrightarrow> (\<forall>x \<in> set xs. P x)"
  by (metis count_if_def filter_id_conv filter_True length_filter_less nat_neq_iff)

lemma count_if_update:
  assumes "i < length xs" "\<not> P (xs ! i)" "P v"
  shows "count_if P (xs[i := v]) = Suc (count_if P xs)"
  using assms
proof (induction xs arbitrary: i)
  case Nil
  then show ?case by simp
next
  case (Cons x xs)
  then show ?case by (cases i) auto
qed

lemma count_if_update_same:
  assumes "i < length xs" "P v = P (xs ! i)"
  shows "count_if P (xs[i := v]) = count_if P xs"
  using assms
proof (induction xs arbitrary: i)
  case Nil
  then show ?case by simp
next
  case (Cons x xs)
  then show ?case by (cases i) auto
qed

lemma count_if_update_less:
  assumes "i < length xs" "P (xs ! i)" "\<not> P v"
  shows "Suc (count_if P (xs[i := v])) = count_if P xs"
  using assms
proof (induction xs arbitrary: i)
  case Nil
  then show ?case by simp
next
  case (Cons x xs)
  then show ?case by (cases i) auto
qed

lemma count_if_put_range:
  assumes "off + length vs \<le> length xs"
    and "\<And>i. off \<le> i \<Longrightarrow> i < off + length vs \<Longrightarrow> \<not> P (xs ! i)"
    and "\<And>v. v \<in> set vs \<Longrightarrow> P v"
  shows "count_if P (put_range off vs xs) = count_if P xs + length vs"
  using assms
proof (induction vs arbitrary: off xs)
  case Nil
  then show ?case by simp
next
  case (Cons v vs)
  have "count_if P (put_range (Suc off) vs (xs[off := v])) = count_if P (xs[off := v]) + length vs"
    by (rule Cons.IH) (use Cons.prems in auto)
  moreover have "count_if P (xs[off := v]) = Suc (count_if P xs)"
    by (rule count_if_update) (use Cons.prems in auto)
  ultimately show ?case by simp
qed

lemma count_if_fill_range:
  assumes "off + n \<le> length xs"
    and "\<And>i. off \<le> i \<Longrightarrow> i < off + n \<Longrightarrow> \<not> P (xs ! i)" and "P v"
  shows "count_if P (fill_range off n v xs) = count_if P xs + n"
  unfolding fill_range_def using assms by (subst count_if_put_range) auto

subsection \<open>Association lists\<close>

definition remove_key :: "'k \<Rightarrow> ('k \<times> 'v) list \<Rightarrow> ('k \<times> 'v) list" where
  "remove_key k xs = filter (\<lambda>x. fst x \<noteq> k) xs"

definition put_key :: "'k \<Rightarrow> 'v \<Rightarrow> ('k \<times> 'v) list \<Rightarrow> ('k \<times> 'v) list" where
  "put_key k v xs = map (\<lambda>x. if fst x = k then (k, v) else x) xs"

definition keys :: "('k \<times> 'v) list \<Rightarrow> 'k set" where
  "keys xs = fst ` set xs"

lemma keys_remove [simp]: "keys (remove_key k xs) = keys xs - {k}"
  by (auto simp: keys_def remove_key_def)

lemma map_fst_put [simp]: "map fst (put_key k v xs) = map fst xs"
  by (auto simp: put_key_def comp_def)

lemma keys_map: "keys xs = set (map fst xs)"
  by (simp add: keys_def)

lemma keys_put [simp]: "keys (put_key k v xs) = keys xs"
  by (simp only: keys_map map_fst_put)

lemma distinct_remove: "distinct (map fst xs) \<Longrightarrow> distinct (map fst (remove_key k xs))"
  by (simp add: remove_key_def distinct_map_filter)

lemma set_remove: "set (remove_key k xs) = {x \<in> set xs. fst x \<noteq> k}"
  by (auto simp: remove_key_def)

lemma set_put: "x \<in> set (put_key k v xs) \<Longrightarrow> x = (k, v) \<or> (x \<in> set xs \<and> fst x \<noteq> k)"
  by (auto simp: put_key_def split: if_splits)

lemma map_of_keys: "map_of xs k = Some v \<Longrightarrow> k \<in> keys xs" "map_of xs k = None \<Longrightarrow> k \<notin> keys xs"
  by (auto simp: keys_def map_of_eq_None_iff dest: map_of_SomeD intro: rev_image_eqI)

lemma filter_keys:
  assumes "distinct (map fst xs)"
  shows "keys (filter (\<lambda>x. P (snd x)) xs) = keys xs - set (map fst (filter (\<lambda>x. \<not> P (snd x)) xs))"
  using assms by (induction xs) (auto simp: keys_def rev_image_eqI)

subsection \<open>Writes to memory\<close>

text \<open>A log of acknowledged memory writes, each with the request it belongs to: the bytes that the writes
  of a request have put into memory, in order.\<close>

definition placed_at :: "nat \<Rightarrow> byte list \<Rightarrow> (nat \<times> byte) list" where
  "placed_at a bs = zip [a..<a + length bs] bs"

definition written :: "(nat \<times> nat \<times> byte list) list \<Rightarrow> nat \<Rightarrow> (nat \<times> byte) list" where
  "written ws i = concat (map (\<lambda>(j, a, bs). if j = i then placed_at a bs else []) ws)"

lemma placed_at_append: "placed_at a (xs @ ys) = placed_at a xs @ placed_at (a + length xs) ys"
proof -
  have "[a..<a + (length xs + length ys)] = [a..<a + length xs] @ [a + length xs..<a + length xs + length ys]"
    using upt_add_eq_append [of a "a + length xs" "length ys"] by (simp add: add.assoc)
  then show ?thesis unfolding placed_at_def by simp
qed

lemma written_append: "written (ws @ [(i, a, bs)]) j = written ws j @ (if i = j then placed_at a bs else [])"
  by (simp add: written_def)

end
