(* ===== verification/Cluster_Base.thy ===== *)
theory Cluster_Base
  imports Golem_Prelude "HOL-Library.Char_ord"
begin

text \<open>
  The vocabulary of \<^verbatim>\<open>golem/attention/attentionCluster.h\<close> that the cluster's stateful parts
  share: cancellation tokens, traffic classes, the cluster configuration with its validation
  and fingerprint, operation tags and the generation fence; and the interface \<open>tag_slots\<close>:
  a fixed set of slots, each owned by the tag that reserved it.
\<close>

unbundle bit_operations_syntax

section \<open>AttentionGenerationCancelRegistry\<close>

type_synonym cancel_registry = "64 word \<rightharpoonup> nat"

definition cancel_token :: "64 word \<Rightarrow> 64 word \<Rightarrow> 64 word" where
  "cancel_token owner generation = push_bit 32 owner XOR generation"

definition registry_cancel ::
  "64 word \<Rightarrow> 64 word \<Rightarrow> nat \<Rightarrow> cancel_registry \<Rightarrow> cancel_registry" where
  "registry_cancel owner generation pendingWrites r =
    (if pendingWrites \<noteq> 0 then
       (let t = cancel_token owner generation
        in r(t \<mapsto> (case r t of None \<Rightarrow> 0 | Some n \<Rightarrow> n) + pendingWrites))
     else r)"

definition registry_consume :: "64 word \<Rightarrow> cancel_registry \<Rightarrow> bool \<times> cancel_registry" where
  "registry_consume t r =
    (case r t of
       None \<Rightarrow> (False, r)
     | Some n \<Rightarrow> if t = 0 then (False, r)
                 else (True, if n \<le> 1 then r(t := None) else r(t \<mapsto> n - 1)))"

definition cancelledToken :: "64 word \<Rightarrow> cancel_registry \<Rightarrow> bool \<times> cancel_registry" where
  "cancelledToken t r = registry_consume t r"

definition discardToken :: "64 word \<Rightarrow> cancel_registry \<Rightarrow> bool \<times> cancel_registry" where
  "discardToken t r = registry_consume t r"

fun consume_times :: "nat \<Rightarrow> 64 word \<Rightarrow> cancel_registry \<Rightarrow> bool list \<times> cancel_registry" where
  "consume_times 0 t r = ([], r)"
| "consume_times (Suc k) t r =
     (case registry_consume t r of (ok, r') \<Rightarrow>
        (case consume_times k t r' of (oks, r'') \<Rightarrow> (ok # oks, r'')))"

lemma consume_times_count:
  assumes "r t = Some n" "t \<noteq> 0" "0 < n"
  shows "consume_times (Suc n) t r = (replicate n True @ [False], r(t := None))"
  using assms
proof (induction n arbitrary: r)
  case 0
  then show ?case by simp
next
  case (Suc n)
  show ?case
  proof (cases "n = 0")
    case True
    with Suc.prems show ?thesis by (auto simp: registry_consume_def)
  next
    case False
    then have "consume_times (Suc n) t (r(t \<mapsto> n)) =
        (replicate n True @ [False], (r(t \<mapsto> n))(t := None))"
      using Suc.prems by (intro Suc.IH) auto
    moreover have "registry_consume t r = (True, r(t \<mapsto> n))"
      using Suc.prems False by (simp add: registry_consume_def)
    ultimately show ?thesis
      by (subst consume_times.simps(2)) (simp del: consume_times.simps)
  qed
qed



text \<open>Tokens of 32-bit owners and generations do not collide.\<close>

lemma cancel_token_inj:
  assumes "unat o1 < 2 ^ 32" "unat o2 < 2 ^ 32" "unat g1 < 2 ^ 32" "unat g2 < 2 ^ 32"
    and "cancel_token o1 g1 = cancel_token o2 g2"
  shows "o1 = o2 \<and> g1 = g2"
proof -
  have hi: "\<not> bit g (n + 32)" if "unat g < 2 ^ 32" for g :: "64 word" and n
  proof -
    have "take_bit 32 g = g"
      using that by (simp add: word_unat_eq_iff unsigned_take_bit_eq take_bit_nat_eq_self)
    then show ?thesis by (metis bit_take_bit_iff not_add_less2)
  qed
  have lo: "bit (cancel_token x g) n = bit g n" if "n < 32" for x g n
    using that by (simp add: cancel_token_def bit_simps)
  have up: "bit (cancel_token x g) (n + 32) = bit x n"
    if "n < 32" "unat g < 2 ^ 32" for x g n
    using that hi by (simp add: cancel_token_def bit_simps)
  have "bit g1 n = bit g2 n" for n
    using lo [of n] assms(5) hi [OF assms(3), of "n - 32"] hi [OF assms(4), of "n - 32"]
    by (cases "n < 32") (simp, metis, simp)
  moreover have "bit o1 n = bit o2 n" for n
    using up [of n] assms(3-5) hi [OF assms(1), of "n - 32"] hi [OF assms(2), of "n - 32"]
    by (cases "n < 32") (metis, simp)
  ultimately show ?thesis by (auto intro: bit_eqI)
qed

section \<open>AttentionClusterTrafficClass\<close>

datatype traffic_class =
    Legacy | QkKMatrix | QkQPair | QkScoreOut | SequentialQkScoreOut | SequentialQkInputScatter
  | PvVMatrix | PvPInput | SequentialPvInput | SequentialPvInputScatter | SequentialPvORestore
  | SequentialPvOOutput | PvOFinalDrain | ScoreSfuRead | SfuPWrite | OScale | OAccumulate
  | ProjectionWeights | ProjectionInputScatter | ProjectionOutput | TrafficCount

primrec attentionClusterTrafficClassName :: "traffic_class \<Rightarrow> string" where
  "attentionClusterTrafficClassName Legacy = ''legacy''"
| "attentionClusterTrafficClassName QkKMatrix = ''qk_k_matrix''"
| "attentionClusterTrafficClassName QkQPair = ''qk_q_pair''"
| "attentionClusterTrafficClassName QkScoreOut = ''qk_score_out''"
| "attentionClusterTrafficClassName SequentialQkScoreOut = ''sequential_qk_score_out''"
| "attentionClusterTrafficClassName SequentialQkInputScatter = ''sequential_qk_input_scatter''"
| "attentionClusterTrafficClassName PvVMatrix = ''pv_v_matrix''"
| "attentionClusterTrafficClassName PvPInput = ''pv_p_input''"
| "attentionClusterTrafficClassName SequentialPvInput = ''sequential_pv_input''"
| "attentionClusterTrafficClassName SequentialPvInputScatter = ''sequential_pv_input_scatter''"
| "attentionClusterTrafficClassName SequentialPvORestore = ''sequential_pv_o_restore''"
| "attentionClusterTrafficClassName SequentialPvOOutput = ''sequential_pv_o_output''"
| "attentionClusterTrafficClassName PvOFinalDrain = ''pv_o_final_drain''"
| "attentionClusterTrafficClassName ScoreSfuRead = ''score_sfu_read''"
| "attentionClusterTrafficClassName SfuPWrite = ''sfu_p_write''"
| "attentionClusterTrafficClassName OScale = ''o_scale''"
| "attentionClusterTrafficClassName OAccumulate = ''o_accumulate''"
| "attentionClusterTrafficClassName ProjectionWeights = ''projection_weights''"
| "attentionClusterTrafficClassName ProjectionInputScatter = ''projection_input_scatter''"
| "attentionClusterTrafficClassName ProjectionOutput = ''projection_output''"
| "attentionClusterTrafficClassName TrafficCount = ''invalid''"

lemma trafficClassName_inj:
  "attentionClusterTrafficClassName a = attentionClusterTrafficClassName b \<Longrightarrow> a = b"
  by (cases a; cases b; simp)

section \<open>AttentionClusterConfig\<close>

type_synonym u32w = "32 word"

record cluster_config =
  cc_arrays :: u32w
  cc_qkArrays :: u32w
  cc_pvArrays :: u32w
  cc_arrayInputs :: u32w
  cc_arrayOutputs :: u32w
  cc_operandBanks :: u32w
  cc_scoreSlots :: u32w
  cc_pSlots :: u32w
  cc_oContexts :: u32w
  cc_headDim :: u32w
  cc_queryTileRows :: u32w
  cc_kvTileRows :: u32w
  cc_groupSize :: u32w
  cc_elemBytes :: u32w
  cc_oFmaLanes :: u32w
  cc_oFmaLatencyCycles :: u32w
  cc_oFp32Fused :: bool
  cc_causal :: bool

definition default_config :: cluster_config where
  "default_config = \<lparr>cc_arrays = 64, cc_qkArrays = 16, cc_pvArrays = 48, cc_arrayInputs = 64,
     cc_arrayOutputs = 64, cc_operandBanks = 1, cc_scoreSlots = 4, cc_pSlots = 4,
     cc_oContexts = 4, cc_headDim = 128, cc_queryTileRows = 16, cc_kvTileRows = 64,
     cc_groupSize = 4, cc_elemBytes = 4, cc_oFmaLanes = 16, cc_oFmaLatencyCycles = 2,
     cc_oFp32Fused = True, cc_causal = False\<rparr>"

text \<open>The empty string means valid.\<close>

definition config_validate :: "cluster_config \<Rightarrow> string" where
  "config_validate c =
    (if cc_arrays c \<noteq> 64 \<or> cc_qkArrays c + cc_pvArrays c \<noteq> cc_arrays c \<or>
        (cc_qkArrays c \<noteq> 16 \<and> cc_qkArrays c \<noteq> 24 \<and> cc_qkArrays c \<noteq> 32 \<and> cc_qkArrays c \<noteq> 40)
     then ''cluster requires 64 arrays with QK ownership 16, 24, 32, or 40''
     else if cc_qkArrays c mod 2 \<noteq> 0 \<or> cc_pvArrays c mod 2 \<noteq> 0
     then ''cluster D128 ownership must contain complete D64 array pairs''
     else if cc_arrayInputs c \<noteq> 64 \<or> cc_arrayOutputs c \<noteq> 64
     then ''cluster requires 64x64 arrays''
     else if cc_operandBanks c \<noteq> 1 then ''cluster requires one operand context per array''
     else if cc_scoreSlots c \<noteq> 4 \<or> cc_pSlots c \<noteq> 4 \<or> cc_oContexts c \<noteq> 4
     then ''cluster requires four score/P/O contexts''
     else if cc_headDim c \<noteq> 128 \<or> cc_queryTileRows c \<noteq> 16 \<or>
        (cc_kvTileRows c \<noteq> 32 \<and> cc_kvTileRows c \<noteq> 64)
     then ''cluster requires D128 Br16 and Bc32 or Bc64''
     else if cc_groupSize c \<noteq> 4 then ''cluster requires query group size four''
     else if cc_elemBytes c \<noteq> 4 then ''cluster requires FP32 operands''
     else if cc_oFmaLanes c \<noteq> 16 \<or> cc_oFmaLatencyCycles c \<noteq> 2 \<or> \<not> cc_oFp32Fused c
     then ''cluster requires a 16-lane two-cycle fused FP32 O engine''
     else if cc_causal c then ''cluster phase L2-L4 supports non-causal attention only''
     else '''')"

definition config_values :: "cluster_config \<Rightarrow> 64 word list" where
  "config_values c = map ucast [cc_arrays c, cc_qkArrays c, cc_pvArrays c, cc_arrayInputs c,
     cc_arrayOutputs c, cc_operandBanks c, cc_scoreSlots c, cc_pSlots c, cc_oContexts c,
     cc_headDim c, cc_queryTileRows c, cc_kvTileRows c, cc_groupSize c, cc_elemBytes c,
     cc_oFmaLanes c, cc_oFmaLatencyCycles c]
   @ [if cc_oFp32Fused c then 1 else 0, if cc_causal c then 1 else 0]"

definition fnv_byte :: "64 word \<Rightarrow> 64 word \<Rightarrow> 64 word" where
  "fnv_byte hash b = (hash XOR b) * 1099511628211"

definition fnv_value :: "64 word \<Rightarrow> 64 word \<Rightarrow> 64 word" where
  "fnv_value hash value =
    foldl (\<lambda>h byte. fnv_byte h (drop_bit (byte * 8) value AND 0xff)) hash [0..<8]"

definition config_fingerprint :: "cluster_config \<Rightarrow> 64 word" where
  "config_fingerprint c = foldl fnv_value 1469598103934665603 (config_values c)"

lemma if_error_Nil: "(if b then e # es else y) = [] \<longleftrightarrow> \<not> b \<and> y = []"
  by simp

lemma config_validate_iff:
  "config_validate c = '''' \<longleftrightarrow>
     cc_arrays c = 64 \<and> cc_qkArrays c + cc_pvArrays c = 64 \<and>
     cc_qkArrays c \<in> {16, 24, 32, 40} \<and> cc_arrayInputs c = 64 \<and> cc_arrayOutputs c = 64 \<and>
     cc_operandBanks c = 1 \<and> cc_scoreSlots c = 4 \<and> cc_pSlots c = 4 \<and> cc_oContexts c = 4 \<and>
     cc_headDim c = 128 \<and> cc_queryTileRows c = 16 \<and> cc_kvTileRows c \<in> {32, 64} \<and>
     cc_groupSize c = 4 \<and> cc_elemBytes c = 4 \<and> cc_oFmaLanes c = 16 \<and>
     cc_oFmaLatencyCycles c = 2 \<and> cc_oFp32Fused c \<and> \<not> cc_causal c"
proof -
  have even: "cc_qkArrays c mod 2 = 0 \<and> cc_pvArrays c mod 2 = 0"
    if "cc_qkArrays c + cc_pvArrays c = 64" "cc_qkArrays c \<in> {16, 24, 32, 40}"
  proof -
    from that(1) have "cc_pvArrays c = 64 - cc_qkArrays c"
      by (simp add: eq_diff_eq add.commute)
    with that(2) show ?thesis by auto
  qed
  show ?thesis
    unfolding config_validate_def if_error_Nil using even by auto
qed

lemma config_validate_split:
  "config_validate c = '''' \<longleftrightarrow>
   (\<exists>qk \<in> {16, 24, 32, 40}. \<exists>kv \<in> {32, 64}.
      c = default_config\<lparr>cc_qkArrays := qk, cc_pvArrays := 64 - qk, cc_kvTileRows := kv\<rparr>)"
proof
  assume ok: "config_validate c = ''''"
  then have pv: "cc_pvArrays c = 64 - cc_qkArrays c"
    by (simp add: config_validate_iff eq_diff_eq add.commute)
  have "c = default_config\<lparr>cc_qkArrays := cc_qkArrays c, cc_pvArrays := 64 - cc_qkArrays c,
      cc_kvTileRows := cc_kvTileRows c\<rparr>"
    using ok pv unfolding config_validate_iff default_config_def by (cases c) simp
  moreover have "cc_qkArrays c \<in> {16, 24, 32, 40}" "cc_kvTileRows c \<in> {32, 64}"
    using ok unfolding config_validate_iff by blast+
  ultimately show "\<exists>qk \<in> {16, 24, 32, 40}. \<exists>kv \<in> {32, 64}.
      c = default_config\<lparr>cc_qkArrays := qk, cc_pvArrays := 64 - qk, cc_kvTileRows := kv\<rparr>"
    by blast
next
  assume "\<exists>qk \<in> {16, 24, 32, 40}. \<exists>kv \<in> {32, 64}.
      c = default_config\<lparr>cc_qkArrays := qk, cc_pvArrays := 64 - qk, cc_kvTileRows := kv\<rparr>"
  then show "config_validate c = ''''"
    unfolding config_validate_iff default_config_def by auto
qed

text \<open>C17: \<open>validate\<close> accepts exactly the eight configurations that differ from the default
  one only in the QK/PV split (16, 24, 32 or 40 QK arrays out of 64) and the key tile height
  (32 or 64 rows), also when the 32-bit sum of the two array counts wraps around.\<close>

theorem config_validate_accepts:
  "config_validate c = '''' \<longleftrightarrow>
   (\<exists>qk \<in> {16, 24, 32, 40}. \<exists>kv \<in> {32, 64}.
      c = default_config\<lparr>cc_qkArrays := qk, cc_pvArrays := 64 - qk, cc_kvTileRows := kv\<rparr>)"
  by (rule config_validate_split)

theorem config_validate_accepts_witness:
  "config_validate default_config = '''' \<and>
   config_validate (default_config\<lparr>cc_qkArrays := 8, cc_pvArrays := 56\<rparr>) \<noteq> ''''"
proof -
  have "default_config = default_config\<lparr>cc_qkArrays := 16, cc_pvArrays := 64 - 16, cc_kvTileRows := 64\<rparr>"
    by (simp add: default_config_def)
  then have "config_validate default_config = ''''"
    using config_validate_accepts [of default_config] by blast
  then show ?thesis by (simp add: config_validate_def default_config_def)
qed

definition valid_configs :: "cluster_config list" where
  "valid_configs = concat (map (\<lambda>qk. map (\<lambda>kv.
     default_config\<lparr>cc_qkArrays := qk, cc_pvArrays := 64 - qk, cc_kvTileRows := kv\<rparr>)
     [32, 64]) [16, 24, 32, 40])"

lemma valid_configs_complete: "config_validate c = '''' \<longleftrightarrow> c \<in> set valid_configs"
proof -
  have "c \<in> set valid_configs \<longleftrightarrow> (\<exists>qk \<in> {16, 24, 32, 40}. \<exists>kv \<in> {32, 64}.
      c = default_config\<lparr>cc_qkArrays := qk, cc_pvArrays := 64 - qk, cc_kvTileRows := kv\<rparr>)"
    by (simp add: valid_configs_def)
  then show ?thesis by (simp only: config_validate_split)
qed

lemma distinct_fingerprints: "distinct (map config_fingerprint valid_configs)"
  by code_simp

text \<open>The 64-bit FNV fingerprint identifies a valid configuration: two configurations
  that both pass \<open>validate\<close> and have the same fingerprint are equal, so a manager and a
  worker that agree on the fingerprint run the same cluster geometry.\<close>

theorem config_fingerprint_identifies:
  assumes "config_validate a = ''''" "config_validate b = ''''"
    and "config_fingerprint a = config_fingerprint b"
  shows "a = b"
  using distinct_fingerprints assms
  by (auto simp: valid_configs_complete distinct_map dest: inj_onD)

theorem config_fingerprint_identifies_witness:
  "config_validate default_config = '''' \<and> default_config = default_config\<lparr>cc_pSlots := 4\<rparr>"
proof -
  have v: "config_validate default_config = ''''"
    by (simp add: config_validate_iff default_config_def)
  have "config_validate (default_config\<lparr>cc_pSlots := 4\<rparr>) = ''''"
    by (simp add: config_validate_iff default_config_def)
  moreover have "config_fingerprint default_config = config_fingerprint (default_config\<lparr>cc_pSlots := 4\<rparr>)"
    by (simp add: config_fingerprint_def config_values_def default_config_def)
  ultimately show ?thesis using v config_fingerprint_identifies [OF v] by blast
qed

section \<open>AttentionClusterTag\<close>

record cluster_tag =
  tag_generation :: nat
  tag_jobId :: nat
  tag_group :: nat
  tag_queryContext :: nat
  tag_queryTileIndex :: nat
  tag_kvTileIndex :: nat
  tag_sequence :: nat

definition default_tag :: cluster_tag where
  "default_tag = \<lparr>tag_generation = 0, tag_jobId = 0, tag_group = 0, tag_queryContext = 0,
     tag_queryTileIndex = 0, tag_kvTileIndex = 0, tag_sequence = 0\<rparr>"

text \<open>\<open>operator==\<close> compares every field.\<close>

definition tag_eq :: "cluster_tag \<Rightarrow> cluster_tag \<Rightarrow> bool" where
  "tag_eq a b \<longleftrightarrow>
     tag_generation a = tag_generation b \<and> tag_jobId a = tag_jobId b \<and>
     tag_group a = tag_group b \<and> tag_queryContext a = tag_queryContext b \<and>
     tag_queryTileIndex a = tag_queryTileIndex b \<and> tag_kvTileIndex a = tag_kvTileIndex b \<and>
     tag_sequence a = tag_sequence b"

lemma tag_eq_iff [simp]: "tag_eq a b \<longleftrightarrow> a = b"
  by (auto simp: tag_eq_def)

section \<open>AttentionGenerationFence\<close>

record generation_fence =
  activeGeneration :: nat

definition fence_begin :: "nat \<Rightarrow> generation_fence \<Rightarrow> bool \<times> generation_fence" where
  "fence_begin g f =
    (if g = 0 \<or> activeGeneration f \<noteq> 0 then (False, f) else (True, f\<lparr>activeGeneration := g\<rparr>))"

definition fence_matches :: "nat \<Rightarrow> generation_fence \<Rightarrow> bool" where
  "fence_matches g f \<longleftrightarrow> g \<noteq> 0 \<and> g = activeGeneration f"

definition fence_retire :: "nat \<Rightarrow> generation_fence \<Rightarrow> bool \<times> generation_fence" where
  "fence_retire g f =
    (if \<not> fence_matches g f then (False, f) else (True, f\<lparr>activeGeneration := 0\<rparr>))"

definition fence_cancel :: "nat \<Rightarrow> generation_fence \<Rightarrow> bool \<times> generation_fence" where
  "fence_cancel g f = fence_retire g f"

datatype fence_op = FBegin nat | FRetire nat | FCancel nat

primrec fence_step :: "fence_op \<Rightarrow> generation_fence \<Rightarrow> bool \<times> generation_fence" where
  "fence_step (FBegin g) f = fence_begin g f"
| "fence_step (FRetire g) f = fence_retire g f"
| "fence_step (FCancel g) f = fence_cancel g f"

primrec fence_run :: "fence_op list \<Rightarrow> generation_fence \<Rightarrow> generation_fence" where
  "fence_run [] f = f"
| "fence_run (x # xs) f = fence_run xs (snd (fence_step x f))"

text \<open>Once a generation has begun, no sequence of fence operations changes the active
  generation unless it retires or cancels exactly that generation: late callbacks of other
  generations are refused.\<close>

theorem fence_holds_generation:
  assumes "fence_begin g f = (True, f')"
    and "\<forall>x \<in> set ops. x \<noteq> FRetire g \<and> x \<noteq> FCancel g"
  shows "fence_matches g (fence_run ops f') \<and>
    (\<forall>h. h \<noteq> g \<longrightarrow> fst (fence_retire h (fence_run ops f')) = False)"
proof -
  have g: "g \<noteq> 0" "fence_matches g f'"
    using assms(1) by (auto simp: fence_begin_def fence_matches_def split: if_splits)
  have "fence_matches g (fence_run ops f')"
    using g assms(2)
  proof (induction ops arbitrary: f')
    case Nil
    then show ?case by simp
  next
    case (Cons x xs)
    have "fence_matches g (snd (fence_step x f'))"
      using Cons.prems
      by (cases x) (auto simp: fence_begin_def fence_retire_def fence_cancel_def fence_matches_def)
    with Cons show ?case by simp
  qed
  then show ?thesis by (auto simp: fence_retire_def fence_matches_def)
qed

theorem fence_holds_generation_witness:
  "fence_begin 7 \<lparr>activeGeneration = 0\<rparr> = (True, \<lparr>activeGeneration = 7\<rparr>) \<and>
   fence_matches 7 (fence_run [FRetire 3, FBegin 9, FCancel 9] \<lparr>activeGeneration = 7\<rparr>)"
proof -
  have b: "fence_begin 7 \<lparr>activeGeneration = 0\<rparr> = (True, \<lparr>activeGeneration = 7\<rparr>)"
    by (simp add: fence_begin_def)
  show ?thesis
    using b fence_holds_generation [OF b, of "[FRetire 3, FBegin 9, FCancel 9]"] by simp
qed

section \<open>Slots owned by tags\<close>

text \<open>
  The contract that the score FIFO and the O accumulator give their clients: \<open>owner s i\<close> is
  the tag that holds slot \<open>i\<close>; a slot is acquired only when free, released only under its own
  tag, and a generation is cancelled as a whole. A refused call changes nothing.
\<close>

locale tag_slots =
  fixes owner :: "'s \<Rightarrow> nat \<Rightarrow> cluster_tag option"
    and acquire :: "nat \<Rightarrow> cluster_tag \<Rightarrow> 'a \<Rightarrow> 's \<Rightarrow> bool \<times> 's"
    and release :: "nat \<Rightarrow> cluster_tag \<Rightarrow> 's \<Rightarrow> bool \<times> 's"
    and cancel :: "nat \<Rightarrow> 's \<Rightarrow> nat \<times> 's"
    and inv :: "'s \<Rightarrow> bool"
  assumes acquire_inv: "inv s \<Longrightarrow> inv (snd (acquire i t a s))"
    and release_inv: "inv s \<Longrightarrow> inv (snd (release i t s))"
    and cancel_inv: "inv s \<Longrightarrow> inv (snd (cancel g s))"
    and acquire_ok: "inv s \<Longrightarrow> acquire i t a s = (True, s') \<Longrightarrow>
          owner s i = None \<and> owner s' = (owner s)(i \<mapsto> t)"
    and acquire_refused: "acquire i t a s = (False, s') \<Longrightarrow> s' = s"
    and release_ok: "inv s \<Longrightarrow> release i t s = (True, s') \<Longrightarrow>
          owner s i = Some t \<and> owner s' = (owner s)(i := None)"
    and release_refused: "release i t s = (False, s') \<Longrightarrow> s' = s"
    and cancel_owner: "inv s \<Longrightarrow> owner (snd (cancel g s)) i =
          (case owner s i of None \<Rightarrow> None
           | Some t \<Rightarrow> if tag_generation t = g then None else Some t)"

datatype 'a slot_op = Acquire nat cluster_tag 'a | Release nat cluster_tag | CancelGen nat

context tag_slots
begin

primrec step :: "'a slot_op \<Rightarrow> 's \<Rightarrow> 's" where
  "step (Acquire i t a) s = snd (acquire i t a s)"
| "step (Release i t) s = snd (release i t s)"
| "step (CancelGen g) s = snd (cancel g s)"

lemma step_inv: "inv s \<Longrightarrow> inv (step x s)"
  by (cases x) (simp_all add: acquire_inv release_inv cancel_inv)

lemma acquire_owner:
  assumes "inv s" "owner s i = Some t"
  shows "owner (snd (acquire j u a s)) i = Some t"
proof (cases "acquire j u a s")
  case (Pair ok s')
  with assms acquire_ok [of s j u a s'] acquire_refused [of j u a s s'] show ?thesis
    by (cases ok) auto
qed

lemma release_owner:
  assumes "inv s" "owner s i = Some t" "j \<noteq> i \<or> u \<noteq> t"
  shows "owner (snd (release j u s)) i = Some t"
proof (cases "release j u s")
  case (Pair ok s')
  with assms release_ok [of s j u s'] release_refused [of j u s s'] show ?thesis
    by (cases ok) auto
qed

text \<open>Nobody but the holder of a tag, or a cancellation of its generation, can evict it.\<close>

lemma ownership_stable:
  assumes "inv s" "owner s i = Some t"
    and "\<forall>x \<in> set ops. x \<noteq> Release i t \<and> x \<noteq> CancelGen (tag_generation t)"
  shows "owner (fold step ops s) i = Some t"
  using assms
proof (induction ops arbitrary: s)
  case Nil
  then show ?case by simp
next
  case (Cons x xs)
  have "owner (step x s) i = Some t"
    using Cons.prems acquire_owner release_owner cancel_owner by (cases x) auto
  with Cons step_inv show ?case by simp
qed

lemma cancelled_tag_refused:
  assumes "inv s" "tag_generation t = g"
  shows "fst (release i t (snd (cancel g s))) = False"
proof (cases "release i t (snd (cancel g s))")
  case (Pair ok s')
  show ?thesis
  proof (cases ok)
    case True
    with Pair release_ok [OF cancel_inv [OF assms(1)]]
    have "owner (snd (cancel g s)) i = Some t" by simp
    with assms(2) cancel_owner [OF assms(1), of g i] show ?thesis
      by (auto split: option.splits if_splits)
  qed (simp add: Pair)
qed

lemma acquire_release_roundtrip:
  assumes "inv s" "acquire i t a s = (True, s')" "release i t s' = (True, s'')"
  shows "owner s'' = owner s"
proof -
  from acquire_ok [OF assms(1,2)] have o: "owner s i = None" "owner s' = (owner s)(i \<mapsto> t)" by auto
  have "inv s'" using acquire_inv [OF assms(1), of i t a] assms(2) by simp
  from release_ok [OF this assms(3)] o show ?thesis by (auto simp: fun_upd_idem)
qed

end

end
