(* ===== verification/Busy_Intervals.thy ===== *)
theory Busy_Intervals
  imports Golem_Prelude
begin

text \<open>
  The busy-time accounting of \<^verbatim>\<open>golem/attention/attentionCluster.h\<close>: \<open>BusyIntervalUnion\<close>
  (intervals handed over in order of their start) and \<open>BusyActivityTracker\<close> (enter/leave
  events). Both are related to what they measure: the union of the accepted intervals, and
  the set of cycles with positive depth.
\<close>

section \<open>BusyIntervalUnion\<close>

text \<open>The min-heap \<open>activeEnds_\<close> is a sorted list: \<open>top\<close> is its head, \<open>push\<close> inserts.\<close>

record busy_union =
  bu_hasInterval :: bool
  bu_firstStart :: cycle
  bu_lastStart :: cycle
  bu_mergedEnd :: cycle
  bu_lastEnd :: cycle
  bu_unionCycles :: nat
  bu_idleCycles :: nat
  bu_maxConcurrency :: nat
  bu_operations :: nat
  bu_activeEnds :: "cycle list"

definition bu_reset :: busy_union where
  "bu_reset = \<lparr>bu_hasInterval = False, bu_firstStart = 0, bu_lastStart = 0, bu_mergedEnd = 0,
     bu_lastEnd = 0, bu_unionCycles = 0, bu_idleCycles = 0, bu_maxConcurrency = 0,
     bu_operations = 0, bu_activeEnds = []\<rparr>"

definition bu_add :: "cycle \<Rightarrow> cycle \<Rightarrow> busy_union \<Rightarrow> bool \<times> busy_union" where
  "bu_add start end b =
    (if end \<le> start \<or> (bu_hasInterval b \<and> start < bu_lastStart b) then (False, b)
     else
       let active = insort end (dropWhile (\<lambda>t. t \<le> start) (bu_activeEnds b));
           b1 = b\<lparr>bu_activeEnds := active,
                  bu_maxConcurrency := max (bu_maxConcurrency b) (length active)\<rparr>;
           b2 = (if \<not> bu_hasInterval b then
                   b1\<lparr>bu_firstStart := start, bu_mergedEnd := end,
                      bu_unionCycles := end - start, bu_hasInterval := True\<rparr>
                 else if start \<le> bu_mergedEnd b then
                   (if end > bu_mergedEnd b then
                      b1\<lparr>bu_unionCycles := bu_unionCycles b + (end - bu_mergedEnd b),
                         bu_mergedEnd := end\<rparr>
                    else b1)
                 else
                   b1\<lparr>bu_idleCycles := bu_idleCycles b + (start - bu_mergedEnd b),
                      bu_unionCycles := bu_unionCycles b + (end - start),
                      bu_mergedEnd := end\<rparr>)
       in (True, b2\<lparr>bu_lastStart := start, bu_lastEnd := max (bu_lastEnd b) end,
                    bu_operations := bu_operations b + 1\<rparr>))"

definition bu_empty :: "busy_union \<Rightarrow> bool" where
  "bu_empty b \<longleftrightarrow> \<not> bu_hasInterval b"

definition bu_spanCycles :: "busy_union \<Rightarrow> nat" where
  "bu_spanCycles b = (if bu_hasInterval b then bu_lastEnd b - bu_firstStart b else 0)"

text \<open>A sequence of \<open>add\<close> calls, results ignored as the callers' statistics do.\<close>

definition bu_adds :: "(cycle \<times> cycle) list \<Rightarrow> busy_union \<Rightarrow> busy_union" where
  "bu_adds ivs b = fold (\<lambda>(s, e) c. snd (bu_add s e c)) ivs b"

subsection \<open>What it measures\<close>

text \<open>The intervals \<open>add\<close> accepts, the cycles they cover and the overlap at a cycle.\<close>

definition bu_accept :: "(cycle \<times> cycle) \<Rightarrow> (cycle \<times> cycle) list \<Rightarrow> (cycle \<times> cycle) list" where
  "bu_accept iv h =
    (if snd iv \<le> fst iv \<or> (h \<noteq> [] \<and> fst iv < fst (last h)) then h else h @ [iv])"

definition accepted :: "(cycle \<times> cycle) list \<Rightarrow> (cycle \<times> cycle) list" where
  "accepted ivs = fold bu_accept ivs []"

definition covered :: "(cycle \<times> cycle) list \<Rightarrow> cycle set" where
  "covered h = (\<Union>(s, e) \<in> set h. {s..<e})"

definition overlap :: "(cycle \<times> cycle) list \<Rightarrow> cycle \<Rightarrow> nat" where
  "overlap h t = count_if (\<lambda>(s, e). s \<le> t \<and> t < e) h"

lemma overlap_snoc: "overlap (h @ [(s, e)]) t = overlap h t + (if s \<le> t \<and> t < e then 1 else 0)"
  by (simp add: overlap_def count_if_def)

lemma covered_simps [simp]:
  "covered [] = {}" "covered (h @ [(s, e)]) = covered h \<union> {s..<e}"
  by (auto simp: covered_def)

lemma finite_covered [simp]: "finite (covered h)"
  by (auto simp: covered_def)

definition bu_inv :: "(cycle \<times> cycle) list \<Rightarrow> busy_union \<Rightarrow> bool" where
  "bu_inv h b \<longleftrightarrow>
     (h = [] \<longrightarrow> b = bu_reset) \<and>
     (h \<noteq> [] \<longrightarrow>
        bu_hasInterval b \<and> bu_firstStart b = fst (hd h) \<and> bu_lastStart b = fst (last h) \<and>
        (\<forall>(s, e) \<in> set h. fst (hd h) \<le> s \<and> s \<le> fst (last h) \<and> s < e \<and> e \<le> bu_mergedEnd b) \<and>
        bu_mergedEnd b \<in> snd ` set h \<and> bu_lastEnd b = bu_mergedEnd b \<and>
        bu_unionCycles b = card (covered h) \<and>
        bu_unionCycles b + bu_idleCycles b = bu_mergedEnd b - bu_firstStart b \<and>
        sorted (bu_activeEnds b) \<and>
        mset (bu_activeEnds b) = filter_mset (\<lambda>e. fst (last h) < e) (mset (map snd h)) \<and>
        (\<forall>t. overlap h t \<le> bu_maxConcurrency b) \<and> (\<exists>t. overlap h t = bu_maxConcurrency b) \<and>
        bu_operations b = length h)"

lemma bu_inv_reset: "bu_inv [] bu_reset"
  by (simp add: bu_inv_def)

lemma mset_dropWhile_sorted:
  "sorted xs \<Longrightarrow> mset (dropWhile (\<lambda>t. t \<le> (a::nat)) xs) = filter_mset (\<lambda>t. a < t) (mset xs)"
proof (induction xs)
  case Nil
  then show ?case by simp
next
  case (Cons x xs)
  show ?case
  proof (cases "x \<le> a")
    case True
    with Cons show ?thesis by simp
  next
    case False
    with Cons.prems have "\<forall>t \<in> set (x # xs). a < t" by auto
    then have "filter_mset (\<lambda>t. a < t) (mset (x # xs)) = mset (x # xs)"
      by (subst filter_mset_eq_conv) auto
    with False show ?thesis by simp
  qed
qed

lemma sorted_dropWhile: "sorted xs \<Longrightarrow> sorted (dropWhile P xs)"
  by (induction xs) auto

lemma overlap_at_last:
  assumes "\<forall>(s, e) \<in> set h. s \<le> t"
  shows "overlap h t = size (filter_mset (\<lambda>e. t < e) (mset (map snd h)))"
  using assms by (induction h) (auto simp: overlap_def)

lemma overlap_mono:
  assumes "\<forall>(s, e) \<in> set h. s \<le> a" "a \<le> t"
  shows "overlap h t \<le> overlap h a"
  using assms by (induction h) (auto simp: overlap_def)

lemma covered_tail:
  assumes "(s, e) \<in> set h" "s \<le> a"
  shows "{a..<e} \<subseteq> covered h"
  using assms by (auto simp: covered_def intro!: bexI [of _ "(s, e)"])

lemma card_covered_merge:
  assumes h: "\<forall>(s, e) \<in> set h. s \<le> a \<and> e \<le> m" and m: "m \<in> snd ` set h"
    and "a \<le> m" "m < e"
  shows "card (covered h \<union> {a..<e}) = card (covered h) + (e - m)"
proof -
  from m obtain s where "(s, m) \<in> set h" by auto
  with h have "{a..<m} \<subseteq> covered h" by (intro covered_tail) auto
  moreover have "{a..<e} = {a..<m} \<union> {m..<e}"
    using assms(3,4) by (intro ivl_disj_un(17) [symmetric]) auto
  ultimately have "covered h \<union> {a..<e} = covered h \<union> {m..<e}" by blast
  moreover have "covered h \<inter> {m..<e} = {}"
    using h by (fastforce simp: covered_def)
  ultimately show ?thesis by (simp add: card_Un_disjoint)
qed

lemma card_covered_inside:
  assumes h: "\<forall>(s, e) \<in> set h. s \<le> a \<and> e \<le> m" and m: "m \<in> snd ` set h" and "e \<le> m"
  shows "covered h \<union> {a..<e} = covered h"
proof -
  from m obtain s where "(s, m) \<in> set h" by auto
  with h have "{a..<m} \<subseteq> covered h" by (intro covered_tail) auto
  moreover have "{a..<e} \<subseteq> {a..<m}" using assms(3) by auto
  ultimately show ?thesis by blast
qed

lemma card_covered_gap:
  assumes h: "\<forall>(s, e) \<in> set h. e \<le> m" and "m \<le> a"
  shows "card (covered h \<union> {a..<e}) = card (covered h) + (e - a)"
proof -
  have "covered h \<inter> {a..<e} = {}"
    using assms by (fastforce simp: covered_def)
  then show ?thesis by (simp add: card_Un_disjoint)
qed

subsection \<open>Every \<open>add\<close> keeps the measurement exact\<close>

lemma bu_inv_first:
  assumes "s < e"
  shows "bu_inv [(s, e)] (snd (bu_add s e bu_reset))"
proof -
  have "overlap [(s, e)] s = 1" using assms by (simp add: overlap_def)
  moreover have "overlap [(s, e)] t \<le> 1" for t by (simp add: overlap_def)
  ultimately show ?thesis
    using assms by (auto simp: bu_inv_def bu_add_def bu_reset_def covered_def)
qed

lemma bu_add_active:
  assumes inv: "bu_inv h b" and ne: "h \<noteq> []" and s: "fst (last h) \<le> s" "s < e"
  defines "active \<equiv> insort e (dropWhile (\<lambda>t. t \<le> s) (bu_activeEnds b))"
  shows "sorted active"
    and "mset active = filter_mset (\<lambda>t. s < t) (mset (map snd (h @ [(s, e)])))"
    and "length active = overlap (h @ [(s, e)]) s"
proof -
  from inv ne have sorted: "sorted (bu_activeEnds b)"
    and ms: "mset (bu_activeEnds b) = filter_mset (\<lambda>e. fst (last h) < e) (mset (map snd h))"
    and starts: "\<forall>(x, y) \<in> set h. x \<le> fst (last h)"
    by (auto simp: bu_inv_def)
  show "sorted active"
    using sorted by (simp add: active_def sorted_insort sorted_dropWhile)
  have "filter_mset (\<lambda>t. s < t) (filter_mset (\<lambda>e. fst (last h) < e) (mset (map snd h)))
      = filter_mset (\<lambda>t. s < t) (mset (map snd h))"
    using s(1) by (auto simp: filter_filter_mset intro: filter_mset_cong)
  then show ms': "mset active = filter_mset (\<lambda>t. s < t) (mset (map snd (h @ [(s, e)])))"
    using s(2) sorted by (simp add: active_def mset_dropWhile_sorted ms)
  have "\<forall>(x, y) \<in> set (h @ [(s, e)]). x \<le> s"
    using starts s(1) by auto
  then show "length active = overlap (h @ [(s, e)]) s"
    by (simp only: overlap_at_last ms' [symmetric] size_mset)
qed

lemma overlap_max_snoc:
  assumes starts: "\<forall>(x, y) \<in> set h. x \<le> s" and "s < e"
    and le: "\<forall>t. overlap h t \<le> m" and ex: "\<exists>t. overlap h t = m"
  shows "(\<forall>t. overlap (h @ [(s, e)]) t \<le> max m (overlap (h @ [(s, e)]) s)) \<and>
    (\<exists>t. overlap (h @ [(s, e)]) t = max m (overlap (h @ [(s, e)]) s))"
proof
  have here: "overlap (h @ [(s, e)]) s = Suc (overlap h s)"
    using assms(2) by (simp add: overlap_snoc)
  show "\<forall>t. overlap (h @ [(s, e)]) t \<le> max m (overlap (h @ [(s, e)]) s)"
    using le overlap_mono [OF starts] by (auto simp: overlap_snoc here le_max_iff_disj)
  show "\<exists>t. overlap (h @ [(s, e)]) t = max m (overlap (h @ [(s, e)]) s)"
  proof (cases "m \<le> overlap (h @ [(s, e)]) s")
    case True
    then show ?thesis by (auto simp: max_def)
  next
    case False
    from ex obtain t where t: "overlap h t = m" by blast
    have "\<not> (s \<le> t \<and> t < e)"
      using False t here overlap_mono [OF starts, of t] by auto
    with t False show ?thesis by (auto simp: overlap_snoc max_def intro!: exI [of _ t])
  qed
qed

lemma bu_inv_next:
  assumes inv: "bu_inv h b" and ne: "h \<noteq> []" and s: "fst (last h) \<le> s" "s < e"
  shows "bu_inv (h @ [(s, e)]) (snd (bu_add s e b))"
proof -
  note active = bu_add_active [OF inv ne s]
  let ?m = "bu_mergedEnd b"
  from inv ne have has: "bu_hasInterval b" and last: "bu_lastStart b = fst (last h)"
    and first: "bu_firstStart b = fst (hd h)"
    and starts: "\<forall>(x, y) \<in> set h. fst (hd h) \<le> x \<and> x \<le> fst (last h) \<and> x < y \<and> y \<le> ?m"
    and m: "?m \<in> snd ` set h" and lastEnd: "bu_lastEnd b = ?m"
    and un: "bu_unionCycles b = card (covered h)"
    and idle: "bu_unionCycles b + bu_idleCycles b = ?m - bu_firstStart b"
    and ops: "bu_operations b = length h"
    and conc: "\<forall>t. overlap h t \<le> bu_maxConcurrency b" "\<exists>t. overlap h t = bu_maxConcurrency b"
    by (auto simp: bu_inv_def)
  have fm: "fst (hd h) \<le> ?m" "fst (hd h) \<le> s"
    using starts ne s(1) by (cases h; fastforce)+
  have starts_s: "\<forall>(x, y) \<in> set h. x \<le> s \<and> y \<le> ?m" "\<forall>(x, y) \<in> set h. y \<le> ?m"
    "\<forall>(x, y) \<in> set h. x \<le> s"
    using starts s(1) by fastforce+
  note maxc = overlap_max_snoc [OF starts_s(3) s(2) conc]
  have go: "\<not> (e \<le> s \<or> (bu_hasInterval b \<and> s < bu_lastStart b))"
    using s last by auto
  consider "s \<le> ?m" "?m < e" | "e \<le> ?m" | "?m < s" using s(2) by linarith
  then show ?thesis
  proof cases
    case 1
    with card_covered_merge [OF starts_s(1) m] s starts m un idle first fm maxc active lastEnd has ops ne go
    show ?thesis by (auto simp: bu_inv_def bu_add_def Let_def image_iff)
  next
    case 2
    with card_covered_inside [OF starts_s(1) m] s starts m un idle first fm maxc active lastEnd has ops ne go
    show ?thesis by (auto simp: bu_inv_def bu_add_def Let_def image_iff)
  next
    case 3
    with card_covered_gap [OF starts_s(2), of s e] s starts m un idle first fm maxc active lastEnd has ops ne go
    show ?thesis by (auto simp: bu_inv_def bu_add_def Let_def image_iff)
  qed
qed

lemma bu_add_inv [golem_inv]:
  assumes "bu_inv h b"
  shows "bu_inv (bu_accept (s, e) h) (snd (bu_add s e b))"
proof (cases "snd (s, e) \<le> fst (s, e) \<or> (h \<noteq> [] \<and> fst (s, e) < fst (last h))")
  case True
  with assms have "bu_add s e b = (False, b)"
    by (auto simp: bu_add_def bu_inv_def)
  with True assms show ?thesis by (simp add: bu_accept_def)
next
  case False
  then have "bu_accept (s, e) h = h @ [(s, e)]" by (simp add: bu_accept_def)
  moreover have "bu_inv (h @ [(s, e)]) (snd (bu_add s e b))"
    using False assms bu_inv_first [of s e] bu_inv_next [of h b s e]
    by (cases "h = []") (auto simp: bu_inv_def)
  ultimately show ?thesis by simp
qed

lemma bu_adds_inv_from:
  "bu_inv h b \<Longrightarrow> bu_inv (fold bu_accept ivs h) (bu_adds ivs b)"
proof (induction ivs arbitrary: h b)
  case Nil
  then show ?case by (simp add: bu_adds_def)
next
  case (Cons iv ivs)
  then show ?case
    by (cases iv) (auto simp: bu_adds_def dest: bu_add_inv)
qed

lemma bu_adds_inv: "bu_inv (accepted ivs) (bu_adds ivs bu_reset)"
  unfolding accepted_def by (rule bu_adds_inv_from) (rule bu_inv_reset)

text \<open>After any sequence of \<open>add\<close> calls, whatever their arguments, \<open>unionCycles\<close> is the
  number of cycles covered by the accepted intervals, busy and idle cycles add up to the
  span, and \<open>maxConcurrency\<close> is the largest number of accepted intervals that share a cycle.\<close>

theorem bu_adds_measure:
  "bu_unionCycles (bu_adds ivs bu_reset) = card (covered (accepted ivs)) \<and>
   bu_unionCycles (bu_adds ivs bu_reset) + bu_idleCycles (bu_adds ivs bu_reset)
     = bu_spanCycles (bu_adds ivs bu_reset) \<and>
   (\<forall>t. overlap (accepted ivs) t \<le> bu_maxConcurrency (bu_adds ivs bu_reset)) \<and>
   (\<exists>t. overlap (accepted ivs) t = bu_maxConcurrency (bu_adds ivs bu_reset))"
proof (cases "accepted ivs = []")
  case True
  with bu_adds_inv [of ivs] show ?thesis
    by (simp add: bu_inv_def bu_reset_def bu_spanCycles_def overlap_def)
next
  case False
  with bu_adds_inv [of ivs] show ?thesis
    unfolding bu_inv_def bu_spanCycles_def by metis
qed

text \<open>The cycle counters never exceed the largest interval end handed over, so 64-bit
  end points give 64-bit counters: no addition or subtraction in \<open>add\<close> and \<open>spanCycles\<close>
  wraps around.\<close>

theorem bu_counters_bounded:
  assumes "\<forall>(s, e) \<in> set ivs. e < 2 ^ 64"
  shows "bu_unionCycles (bu_adds ivs bu_reset) < 2 ^ 64 \<and>
    bu_idleCycles (bu_adds ivs bu_reset) < 2 ^ 64 \<and>
    bu_firstStart (bu_adds ivs bu_reset) \<le> bu_lastEnd (bu_adds ivs bu_reset) \<and>
    bu_lastEnd (bu_adds ivs bu_reset) < 2 ^ 64"
proof -
  let ?h = "accepted ivs" and ?b = "bu_adds ivs bu_reset"
  have sub: "set (fold bu_accept ivs h) \<subseteq> set h \<union> set ivs" for h
    by (induction ivs arbitrary: h) (fastforce simp: bu_accept_def split: if_splits)+
  show ?thesis
  proof (cases "?h = []")
    case True
    with bu_adds_inv [of ivs] show ?thesis by (simp add: bu_inv_def bu_reset_def)
  next
    case False
    with bu_adds_inv [of ivs] have inv: "bu_inv ?h ?b" and m: "bu_mergedEnd ?b \<in> snd ` set ?h"
      and len: "bu_unionCycles ?b + bu_idleCycles ?b = bu_mergedEnd ?b - bu_firstStart ?b"
      and le: "bu_lastEnd ?b = bu_mergedEnd ?b"
      and all: "\<forall>(s, e) \<in> set ?h. fst (hd ?h) \<le> s \<and> s < e \<and> e \<le> bu_mergedEnd ?b"
      and first: "bu_firstStart ?b = fst (hd ?h)"
      by (auto simp: bu_inv_def)
    have "bu_mergedEnd ?b < 2 ^ 64"
      using m sub [of "[]"] assms by (fastforce simp: accepted_def)
    moreover have "fst (hd ?h) \<le> bu_mergedEnd ?b"
      using all m by fastforce
    ultimately show ?thesis using len le first by linarith
  qed
qed

theorem bu_counters_bounded_witness:
  "bu_lastEnd (bu_adds [(3, 7), (5, 9), (20, 2 ^ 64 - 1)] bu_reset) < 2 ^ 64 \<and>
   bu_unionCycles (bu_adds [(3, 7), (5, 9), (20, 2 ^ 64 - 1)] bu_reset) < 2 ^ 64"
proof -
  have h: "\<forall>(s, e) \<in> set [(3, 7), (5, 9), (20, 2 ^ 64 - 1)]. e < (2 ^ 64 :: nat)" by simp
  show ?thesis using h bu_counters_bounded [OF h] by blast
qed

section \<open>BusyActivityTracker\<close>

record activity =
  ba_hasEvent :: bool
  ba_hasSpan :: bool
  ba_active :: nat
  ba_maxConcurrency :: nat
  ba_firstCycle :: cycle
  ba_openCycle :: cycle
  ba_lastCloseCycle :: cycle
  ba_lastEventCycle :: cycle
  ba_unionCycles :: nat

definition ba_init :: activity where
  "ba_init = \<lparr>ba_hasEvent = False, ba_hasSpan = False, ba_active = 0, ba_maxConcurrency = 0,
     ba_firstCycle = 0, ba_openCycle = 0, ba_lastCloseCycle = 0, ba_lastEventCycle = 0,
     ba_unionCycles = 0\<rparr>"

definition ba_enter :: "cycle \<Rightarrow> activity \<Rightarrow> bool \<times> activity" where
  "ba_enter cyc a =
    (if ba_hasEvent a \<and> cyc < ba_lastEventCycle a then (False, a)
     else
       let a1 = a\<lparr>ba_hasEvent := True, ba_lastEventCycle := cyc\<rparr>;
           a2 = (if ba_active a = 0 then
                   (if \<not> ba_hasSpan a
                    then a1\<lparr>ba_openCycle := cyc, ba_firstCycle := cyc, ba_hasSpan := True\<rparr>
                    else a1\<lparr>ba_openCycle := cyc\<rparr>)
                 else a1)
       in (True, a2\<lparr>ba_active := ba_active a + 1,
                    ba_maxConcurrency := max (ba_maxConcurrency a) (ba_active a + 1)\<rparr>))"

definition ba_leave :: "cycle \<Rightarrow> activity \<Rightarrow> bool \<times> activity" where
  "ba_leave cyc a =
    (if ba_active a = 0 \<or> (ba_hasEvent a \<and> cyc < ba_lastEventCycle a) then (False, a)
     else
       let a1 = a\<lparr>ba_lastEventCycle := cyc, ba_active := ba_active a - 1\<rparr>
       in (True, if ba_active a1 = 0
                 then a1\<lparr>ba_unionCycles := ba_unionCycles a + (cyc - ba_openCycle a),
                         ba_lastCloseCycle := cyc\<rparr>
                 else a1))"

definition ba_union :: "cycle \<Rightarrow> activity \<Rightarrow> nat" where
  "ba_union now a =
    (if ba_active a = 0 then ba_unionCycles a
     else ba_unionCycles a + max now (ba_lastEventCycle a) - ba_openCycle a)"

definition ba_span :: "cycle \<Rightarrow> activity \<Rightarrow> nat" where
  "ba_span now a =
    (if \<not> ba_hasSpan a then 0
     else (if ba_active a = 0 then ba_lastCloseCycle a else max now (ba_lastEventCycle a))
          - ba_firstCycle a)"

definition ba_idle :: "cycle \<Rightarrow> activity \<Rightarrow> nat" where
  "ba_idle now a = sub64 (ba_span now a) (ba_union now a)"

datatype activity_event = Enter cycle | Leave cycle

primrec ba_step :: "activity_event \<Rightarrow> activity \<Rightarrow> bool \<times> activity" where
  "ba_step (Enter c) a = ba_enter c a"
| "ba_step (Leave c) a = ba_leave c a"

text \<open>The run, with the accepted events as a ghost.\<close>

fun ba_run :: "activity_event list \<Rightarrow> activity \<Rightarrow> activity_event list \<Rightarrow> activity_event list \<times> activity"
where
  "ba_run [] a acc = (acc, a)"
| "ba_run (ev # evs) a acc =
     (case ba_step ev a of (ok, a') \<Rightarrow> ba_run evs a' (if ok then acc @ [ev] else acc))"

primrec event_cycle :: "activity_event \<Rightarrow> cycle" where
  "event_cycle (Enter c) = c"
| "event_cycle (Leave c) = c"

text \<open>Number of clients inside at cycle \<open>c\<close>: enters minus leaves up to and including it.\<close>

definition depth :: "activity_event list \<Rightarrow> cycle \<Rightarrow> int" where
  "depth evs c = (\<Sum>ev \<leftarrow> evs. case ev of
     Enter d \<Rightarrow> if d \<le> c then 1 else 0 | Leave d \<Rightarrow> if d \<le> c then - 1 else 0)"

definition busy_before :: "activity_event list \<Rightarrow> cycle \<Rightarrow> cycle set" where
  "busy_before evs t = {c. c < t \<and> 0 < depth evs c}"

lemma depth_snoc:
  "depth (evs @ [Enter d]) c = depth evs c + (if d \<le> c then 1 else 0)"
  "depth (evs @ [Leave d]) c = depth evs c - (if d \<le> c then 1 else 0)"
  by (simp_all add: depth_def)

lemma depth_simps [simp]:
  "depth [] c = 0"
  "depth [Enter d] c = (if d \<le> c then 1 else 0)"
  "depth [Leave d] c = (if d \<le> c then - 1 else 0)"
  by (simp_all add: depth_def)

lemma finite_busy [simp]: "finite (busy_before evs t)"
  by (simp add: busy_before_def)

definition ba_inv :: "activity_event list \<Rightarrow> activity \<Rightarrow> bool" where
  "ba_inv evs a \<longleftrightarrow>
     (ba_hasEvent a \<longleftrightarrow> evs \<noteq> []) \<and> (\<not> ba_hasEvent a \<longrightarrow> a = ba_init) \<and>
     (ba_hasEvent a \<longrightarrow> ba_hasSpan a \<and> ba_firstCycle a \<le> ba_lastEventCycle a) \<and>
     (\<forall>c \<ge> ba_lastEventCycle a. depth evs c = int (ba_active a)) \<and>
     (\<forall>c. 0 < depth evs c \<longrightarrow> ba_hasSpan a \<and> ba_firstCycle a \<le> c) \<and>
     (0 < ba_active a \<longrightarrow> ba_openCycle a \<le> ba_lastEventCycle a \<and>
        ba_unionCycles a + (ba_lastEventCycle a - ba_openCycle a)
          = card (busy_before evs (ba_lastEventCycle a))) \<and>
     (ba_active a = 0 \<longrightarrow>
        ba_unionCycles a = card (busy_before evs (ba_lastEventCycle a)) \<and>
        ba_lastCloseCycle a = ba_lastEventCycle a)"

lemma busy_before_extend:
  assumes "\<forall>c \<ge> l. depth evs c = int n" "l \<le> t"
  shows "busy_before evs t = busy_before evs l \<union> (if 0 < n then {l..<t} else {})"
proof (rule set_eqI)
  fix c
  show "c \<in> busy_before evs t \<longleftrightarrow> c \<in> busy_before evs l \<union> (if 0 < n then {l..<t} else {})"
    using assms by (cases "c < l") (auto simp: busy_before_def not_less)
qed

lemma card_busy_extend:
  assumes "\<forall>c \<ge> l. depth evs c = int n" "l \<le> t"
  shows "card (busy_before evs t) = card (busy_before evs l) + (if 0 < n then t - l else 0)"
proof -
  have "busy_before evs l \<inter> {l..<t} = {}" by (auto simp: busy_before_def)
  with busy_before_extend [OF assms] show ?thesis
    by (simp add: card_Un_disjoint)
qed

lemma busy_before_snoc:
  "t \<le> event_cycle ev \<Longrightarrow> busy_before (evs @ [ev]) t = busy_before evs t"
  by (cases ev) (auto simp: busy_before_def depth_snoc)

lemma ba_enter_inv:
  assumes inv: "ba_inv evs a" and ok: "\<not> (ba_hasEvent a \<and> c < ba_lastEventCycle a)"
  shows "ba_inv (evs @ [Enter c]) (snd (ba_enter c a))"
proof -
  let ?l = "ba_lastEventCycle a"
  have lc: "?l \<le> c" using ok inv by (auto simp: ba_inv_def ba_init_def)
  have d: "\<forall>c \<ge> ?l. depth evs c = int (ba_active a)" using inv by (simp add: ba_inv_def)
  note card_busy_extend [OF d lc] busy_before_snoc [of c "Enter c" evs]
  moreover have "\<not> ba_hasEvent a \<Longrightarrow> a = ba_init" using inv by (simp add: ba_inv_def)
  ultimately show ?thesis
    using inv ok lc
    by (cases "ba_active a = 0"; cases "ba_hasEvent a")
       (auto simp: ba_inv_def ba_enter_def depth_snoc Let_def ba_init_def split: if_splits)
qed

lemma ba_leave_inv:
  assumes inv: "ba_inv evs a" and ok: "\<not> (ba_active a = 0 \<or> (ba_hasEvent a \<and> c < ba_lastEventCycle a))"
  shows "ba_inv (evs @ [Leave c]) (snd (ba_leave c a))"
proof -
  let ?l = "ba_lastEventCycle a"
  have lc: "?l \<le> c" using ok inv by (auto simp: ba_inv_def ba_init_def)
  have d: "\<forall>c \<ge> ?l. depth evs c = int (ba_active a)" using inv by (simp add: ba_inv_def)
  note card_busy_extend [OF d lc] busy_before_snoc [of c "Leave c" evs]
  moreover have "ba_hasEvent a" using inv ok by (auto simp: ba_inv_def ba_init_def)
  ultimately show ?thesis
    using inv ok lc
    by (cases "ba_active a = 1")
       (auto simp: ba_inv_def ba_leave_def depth_snoc Let_def split: if_splits)
qed

lemma ba_step_inv [golem_inv]:
  assumes "ba_inv evs a"
  shows "ba_inv (if fst (ba_step ev a) then evs @ [ev] else evs) (snd (ba_step ev a))"
proof (cases ev)
  case (Enter c)
  then show ?thesis
    using assms ba_enter_inv [OF assms, of c] by (auto simp: ba_enter_def Let_def split: if_splits)
next
  case (Leave c)
  then show ?thesis
    using assms ba_leave_inv [OF assms, of c] by (auto simp: ba_leave_def Let_def split: if_splits)
qed

lemma ba_run_inv: "ba_inv acc a \<Longrightarrow> ba_inv (fst (ba_run evs a acc)) (snd (ba_run evs a acc))"
proof (induction evs arbitrary: a acc)
  case Nil
  then show ?case by simp
next
  case (Cons ev evs)
  then show ?case
    using ba_step_inv [OF Cons.prems, of ev] by (auto split: prod.splits)
qed

lemma ba_inv_init: "ba_inv [] ba_init"
  by (simp add: ba_inv_def ba_init_def depth_def busy_before_def)

lemma ba_union_exact:
  assumes inv: "ba_inv evs a"
  shows "ba_union now a = card (busy_before evs (max now (ba_lastEventCycle a)))"
proof -
  have d: "\<forall>c \<ge> ba_lastEventCycle a. depth evs c = int (ba_active a)"
    using inv by (simp add: ba_inv_def)
  show ?thesis
    using card_busy_extend [OF d, of "max now (ba_lastEventCycle a)"] inv
    by (cases "ba_active a = 0") (auto simp: ba_union_def ba_inv_def)
qed

lemma ba_union_le_span:
  assumes inv: "ba_inv evs a"
  shows "ba_union now a \<le> ba_span now a"
proof (cases "ba_hasEvent a")
  case False
  with inv show ?thesis by (simp add: ba_inv_def ba_init_def ba_union_def ba_span_def)
next
  case True
  define t where "t = (if ba_active a = 0 then ba_lastCloseCycle a else max now (ba_lastEventCycle a))"
  have "ba_union now a = card (busy_before evs t)"
  proof (cases "ba_active a = 0")
    case True
    with inv show ?thesis by (simp add: t_def ba_union_def ba_inv_def)
  next
    case False
    with ba_union_exact [OF inv] show ?thesis by (simp add: t_def)
  qed
  also have "busy_before evs t \<subseteq> {ba_firstCycle a..<t}"
    using inv by (auto simp: busy_before_def ba_inv_def)
  then have "card (busy_before evs t) \<le> t - ba_firstCycle a"
    using card_mono [of "{ba_firstCycle a..<t}"] by fastforce
  also have "\<dots> = ba_span now a"
    using True inv by (simp add: t_def ba_span_def ba_inv_def)
  finally show ?thesis .
qed

text \<open>C16: for every sequence of \<open>enter\<close>/\<open>leave\<close> calls (accepted or refused), \<open>unionCycles(now)\<close>
  is the number of cycles before \<open>now\<close> (or the last event) at which some client was inside,
  the number of clients inside is \<open>active\<close>, and \<open>unionCycles(now)\<close> never exceeds
  \<open>spanCycles(now)\<close>, so the unsigned subtraction in \<open>idleCycles(now)\<close> does not wrap.\<close>

theorem ba_run_measure:
  assumes "ba_run evs ba_init [] = (acc, a)"
  shows "ba_union now a = card (busy_before acc (max now (ba_lastEventCycle a))) \<and>
    depth acc (max now (ba_lastEventCycle a)) = int (ba_active a) \<and>
    ba_union now a \<le> ba_span now a \<and>
    (ba_span now a < 2 ^ 64 \<longrightarrow> ba_idle now a + ba_union now a = ba_span now a)"
proof -
  have inv: "ba_inv acc a"
    using ba_run_inv [OF ba_inv_init, of evs] assms by simp
  moreover have "depth acc (max now (ba_lastEventCycle a)) = int (ba_active a)"
    using inv by (simp add: ba_inv_def)
  ultimately show ?thesis
    using ba_union_exact [OF inv, of now] ba_union_le_span [OF inv, of now]
    by (simp add: ba_idle_def sub64_id)
qed

definition activity_demo :: "activity_event list" where
  "activity_demo = [Enter 3, Enter 5, Leave 4, Leave 9, Leave 10, Enter 20]"

theorem ba_run_measure_witness:
  "ba_run activity_demo ba_init [] =
     ([Enter 3, Enter 5, Leave 9, Leave 10, Enter 20], snd (ba_run activity_demo ba_init [])) \<and>
   ba_union 25 (snd (ba_run activity_demo ba_init [])) = 12 \<and>
   ba_span 25 (snd (ba_run activity_demo ba_init [])) = 22 \<and>
   ba_idle 25 (snd (ba_run activity_demo ba_init [])) = 10"
proof -
  have run: "ba_run activity_demo ba_init [] =
     ([Enter 3, Enter 5, Leave 9, Leave 10, Enter 20], snd (ba_run activity_demo ba_init []))"
    by (simp add: activity_demo_def ba_init_def ba_enter_def ba_leave_def Let_def)
  have u: "ba_union 25 (snd (ba_run activity_demo ba_init [])) = 12"
    and s: "ba_span 25 (snd (ba_run activity_demo ba_init [])) = 22"
    by (simp_all add: activity_demo_def ba_init_def ba_enter_def ba_leave_def Let_def
        ba_union_def ba_span_def)
  show ?thesis using run u s ba_run_measure [OF run, of 25] by simp
qed

end
