(* ===== verification/Soft_Float.thy ===== *)
theory Soft_Float
  imports Golem_Prelude
begin

text \<open>
  IEEE-754 binary arithmetic of the C++ types \<open>float\<close> and \<open>double\<close> (and of the binary16
  storage format), executable and at the level of encodings. A value is decoded to an exact
  dyadic number \<open>(-1)^s * m * 2^e\<close>; an operation computes exactly and rounds once, to nearest,
  ties to even. Payloads of NaN results are implementation-defined in C++; the model returns
  the default quiet NaN.
\<close>

section \<open>Formats, decoding and rounding\<close>

text \<open>\<open>prec\<close> significant bits (the hidden one included), \<open>ew\<close> exponent bits.\<close>

record fformat =
  prec :: nat
  ew :: nat

definition binary16 :: fformat where
  "binary16 = \<lparr>prec = 11, ew = 5\<rparr>"

definition binary32 :: fformat where
  "binary32 = \<lparr>prec = 24, ew = 8\<rparr>"

definition binary64 :: fformat where
  "binary64 = \<lparr>prec = 53, ew = 11\<rparr>"

datatype fvalue = FNaN | FInf bool | FNum bool nat int

definition fbias :: "fformat \<Rightarrow> int" where
  "fbias f = 2 ^ (ew f - 1) - 1"

text \<open>Exponent of the last place of subnormal numbers.\<close>

definition fmin_exp :: "fformat \<Rightarrow> int" where
  "fmin_exp f = 1 - fbias f - int (prec f - 1)"

definition fdecode :: "fformat \<Rightarrow> nat \<Rightarrow> fvalue" where
  "fdecode f n =
    (let frac = n mod 2 ^ (prec f - 1);
         ex = (n div 2 ^ (prec f - 1)) mod 2 ^ ew f;
         s = odd (n div 2 ^ (prec f - 1 + ew f))
     in if ex = 2 ^ ew f - 1 then (if frac = 0 then FInf s else FNaN)
        else if ex = 0 then FNum s frac (fmin_exp f)
        else FNum s (2 ^ (prec f - 1) + frac) (fmin_exp f + int ex - 1))"

definition fsign_bits :: "fformat \<Rightarrow> bool \<Rightarrow> nat" where
  "fsign_bits f s = (if s then 2 ^ (prec f - 1 + ew f) else 0)"

definition finf_bits :: "fformat \<Rightarrow> bool \<Rightarrow> nat" where
  "finf_bits f s = fsign_bits f s + (2 ^ ew f - 1) * 2 ^ (prec f - 1)"

definition fnan_bits :: "fformat \<Rightarrow> nat" where
  "fnan_bits f = finf_bits f False + 2 ^ (prec f - 2)"

fun bitlen :: "nat \<Rightarrow> nat" where
  "bitlen n = (if n = 0 then 0 else Suc (bitlen (n div 2)))"

declare bitlen.simps [simp del]

text \<open>\<open>n / 2^k\<close> rounded to nearest even; \<open>sticky\<close> says that the exact value lies strictly
  between \<open>n\<close> and \<open>n + 1\<close>.\<close>

definition round_shift :: "nat \<Rightarrow> nat \<Rightarrow> bool \<Rightarrow> nat" where
  "round_shift n k sticky =
    (let q = n div 2 ^ k; r = n mod 2 ^ k; half = 2 ^ k div 2
     in if k = 0 then q
        else if r > half \<or> (r = half \<and> (sticky \<or> odd q)) then q + 1 else q)"

text \<open>
  Rounding of \<open>(-1)^s * m * 2^e\<close> to the format. \<open>lsb\<close> is the exponent of the result's last
  place. The magnitude bits are \<open>(lsb - fmin_exp) * 2^(prec-1) + significand\<close> for both normal
  and subnormal results: the significand's hidden bit carries into the exponent field, and so
  does a significand that rounds up to \<open>2^prec\<close>.
\<close>

definition fround :: "fformat \<Rightarrow> bool \<Rightarrow> nat \<Rightarrow> int \<Rightarrow> bool \<Rightarrow> nat" where
  "fround f s m e sticky =
    (if m = 0 \<and> \<not> sticky then fsign_bits f s
     else
       let lsb = max (fmin_exp f) (e + int (bitlen m) - int (prec f));
           sig = (if e \<le> lsb then round_shift m (nat (lsb - e)) sticky
                  else m * 2 ^ nat (e - lsb));
           mag = nat (lsb - fmin_exp f) * 2 ^ (prec f - 1) + sig
       in if mag \<ge> (2 ^ ew f - 1) * 2 ^ (prec f - 1) then finf_bits f s
          else fsign_bits f s + mag)"

section \<open>Operations\<close>

definition fadd_value :: "fformat \<Rightarrow> fvalue \<Rightarrow> fvalue \<Rightarrow> nat" where
  "fadd_value f x y =
    (case (x, y) of
       (FNum s1 m1 e1, FNum s2 m2 e2) \<Rightarrow>
         let e = min e1 e2;
             a = (if s1 then - 1 else 1) * int m1 * 2 ^ nat (e1 - e);
             b = (if s2 then - 1 else 1) * int m2 * 2 ^ nat (e2 - e);
             c = a + b
         in if c = 0 then fsign_bits f (s1 \<and> s2) else fround f (c < 0) (nat \<bar>c\<bar>) e False
     | (FInf s, FNum _ _ _) \<Rightarrow> finf_bits f s
     | (FNum _ _ _, FInf s) \<Rightarrow> finf_bits f s
     | (FInf s, FInf t) \<Rightarrow> if s = t then finf_bits f s else fnan_bits f
     | _ \<Rightarrow> fnan_bits f)"

definition fmul_exact :: "fvalue \<Rightarrow> fvalue \<Rightarrow> fvalue" where
  "fmul_exact x y =
    (case (x, y) of
       (FNum s1 m1 e1, FNum s2 m2 e2) \<Rightarrow> FNum (s1 \<noteq> s2) (m1 * m2) (e1 + e2)
     | (FInf s, FNum t m _) \<Rightarrow> if m = 0 then FNaN else FInf (s \<noteq> t)
     | (FNum t m _, FInf s) \<Rightarrow> if m = 0 then FNaN else FInf (s \<noteq> t)
     | (FInf s, FInf t) \<Rightarrow> FInf (s \<noteq> t)
     | _ \<Rightarrow> FNaN)"

definition fround_value :: "fformat \<Rightarrow> fvalue \<Rightarrow> nat" where
  "fround_value f x =
    (case x of FNaN \<Rightarrow> fnan_bits f | FInf s \<Rightarrow> finf_bits f s | FNum s m e \<Rightarrow> fround f s m e False)"

text \<open>Division: \<open>2^(prec+2)\<close> extra quotient bits and the remainder as the sticky bit.\<close>

definition fdiv_value :: "fformat \<Rightarrow> fvalue \<Rightarrow> fvalue \<Rightarrow> nat" where
  "fdiv_value f x y =
    (case (x, y) of
       (FNum s1 m1 e1, FNum s2 m2 e2) \<Rightarrow>
         if m2 = 0 then (if m1 = 0 then fnan_bits f else finf_bits f (s1 \<noteq> s2))
         else
           let k = prec f + 2 + bitlen m2; n = m1 * 2 ^ k
           in fround f (s1 \<noteq> s2) (n div m2) (e1 - e2 - int k) (n mod m2 \<noteq> 0)
     | (FInf s, FNum t _ _) \<Rightarrow> finf_bits f (s \<noteq> t)
     | (FNum s _ _, FInf t) \<Rightarrow> fsign_bits f (s \<noteq> t)
     | _ \<Rightarrow> fnan_bits f)"

definition fisfinite :: "fformat \<Rightarrow> nat \<Rightarrow> bool" where
  "fisfinite f n = (case fdecode f n of FNum _ _ _ \<Rightarrow> True | _ \<Rightarrow> False)"

subsection \<open>The C++ type float\<close>

type_synonym float32 = "32 word"

abbreviation dec32 :: "float32 \<Rightarrow> fvalue" where
  "dec32 x \<equiv> fdecode binary32 (unat x)"

definition isfinite32 :: "float32 \<Rightarrow> bool" where
  "isfinite32 x = fisfinite binary32 (unat x)"

definition fadd32 :: "float32 \<Rightarrow> float32 \<Rightarrow> float32" where
  "fadd32 x y = of_nat (fadd_value binary32 (dec32 x) (dec32 y))"

definition fmul32 :: "float32 \<Rightarrow> float32 \<Rightarrow> float32" where
  "fmul32 x y = of_nat (fround_value binary32 (fmul_exact (dec32 x) (dec32 y)))"

text \<open>\<open>std::fma\<close>: exact product and sum, one rounding.\<close>

definition fma32 :: "float32 \<Rightarrow> float32 \<Rightarrow> float32 \<Rightarrow> float32" where
  "fma32 x y z = of_nat (fadd_value binary32 (fmul_exact (dec32 x) (dec32 y)) (dec32 z))"

definition fone32 :: float32 where
  "fone32 = 0x3f800000"

lemma bitlen_0 [simp]: "bitlen 0 = 0"
  by (simp add: bitlen.simps)

lemma bitlen_bound: "n < 2 ^ bitlen n"
proof (induction n rule: bitlen.induct)
  case (1 n)
  show ?case
  proof (cases "n = 0")
    case False
    with 1 have "n div 2 < 2 ^ bitlen (n div 2)" by simp
    with False show ?thesis by (subst bitlen.simps) simp
  qed (simp add: bitlen.simps)
qed

lemma bitlen_lower: "n \<noteq> 0 \<Longrightarrow> 2 ^ (bitlen n - 1) \<le> n"
proof (induction n rule: bitlen.induct)
  case (1 n)
  show ?case
  proof (cases "n div 2 = 0")
    case True
    with 1 have "n = 1" by simp
    then show ?thesis by (simp add: bitlen.simps)
  next
    case False
    with 1 have "2 ^ (bitlen (n div 2) - 1) \<le> n div 2" by simp
    moreover have "bitlen (n div 2) \<noteq> 0" using False by (subst bitlen.simps) simp
    ultimately show ?thesis
      using 1(2) by (subst bitlen.simps) (cases "bitlen (n div 2)"; simp)
  qed
qed

lemma bitlen_unique: "2 ^ k \<le> n \<Longrightarrow> n < 2 ^ Suc k \<Longrightarrow> bitlen n = Suc k"
proof -
  assume a: "2 ^ k \<le> n" "n < 2 ^ Suc k"
  then have "n \<noteq> 0" by (metis less_nat_zero_code zero_less_numeral zero_less_power not_le)
  then have "2 ^ (bitlen n - 1) < (2::nat) ^ Suc k" "(2::nat) ^ k < 2 ^ bitlen n"
    using a bitlen_bound [of n] bitlen_lower [of n] by linarith+
  then have "bitlen n - 1 < Suc k" "k < bitlen n"
    by (simp_all only: power_strict_increasing_iff one_less_numeral_iff semiring_norm)
  then show ?thesis by simp
qed

end
