(* ===== verification/O_Accumulator.thy ===== *)
theory O_Accumulator
  imports Cluster_Base Busy_Intervals Soft_Float
begin

text \<open>
  \<open>AttentionOAccumulator\<close> of \<^verbatim>\<open>golem/attention/attentionCluster.h\<close>: four output contexts of
  16 rows x 8 panels x 16 FP32 lanes. Every key tile rescales each 16-lane segment by alpha
  and adds a partial product with one fused multiply-add; operations are scheduled on one
  read port, one ALU and one write port and committed by \<open>progress\<close> at their ready cycle; a
  context whose key tiles are all in can be drained and released.

  The field \<open>oc_log\<close> is a ghost: the operations committed to the context since it was
  reserved. No operation reads it.
\<close>

section \<open>State\<close>

definition kContexts :: nat where "kContexts = 4"
definition kRows :: nat where "kRows = 16"
definition kPanels :: nat where "kPanels = 8"
definition kValuesPerSegment :: nat where "kValuesPerSegment = 16"
definition kSegments :: nat where "kSegments = kRows * kPanels"
definition kValuesPerContext :: nat where "kValuesPerContext = kRows * kPanels * kValuesPerSegment"
definition kRowFmaLanes :: nat where "kRowFmaLanes = kPanels * 16"
definition fmaLatency :: nat where "fmaLatency = 2"
definition addLatency :: nat where "addLatency = 2"

lemmas o_consts = kContexts_def kRows_def kPanels_def kValuesPerSegment_def kSegments_def
  kValuesPerContext_def kRowFmaLanes_def

record o_pending =
  op_id :: nat
  op_readyCycle :: cycle
  op_slot :: nat
  op_tag :: cluster_tag
  op_kvTileIndex :: nat
  op_row :: nat
  op_panel :: nat
  op_alpha :: float32
  op_drain :: bool
  op_rowFused :: bool
  op_values :: "float32 list"
  op_rowValues :: "float32 list"

definition default_pending :: o_pending where
  "default_pending = \<lparr>op_id = 0, op_readyCycle = 0, op_slot = 0, op_tag = default_tag,
     op_kvTileIndex = 0, op_row = 0, op_panel = 0, op_alpha = fone32, op_drain = False,
     op_rowFused = False, op_values = replicate kValuesPerSegment 0,
     op_rowValues = replicate kRowFmaLanes 0\<rparr>"

text \<open>Segment states: 0 idle, 1 submitted, 2 committed for the expected key tile.\<close>

record o_context =
  oc_valid :: bool
  oc_draining :: bool
  oc_tag :: cluster_tag
  oc_keyTiles :: nat
  oc_expectedKeyTile :: nat
  oc_committedSegments :: nat
  oc_values :: "float32 list"
  oc_segmentState :: "nat list"
  oc_log :: "o_pending list"

definition empty_context :: o_context where
  "empty_context = \<lparr>oc_valid = False, oc_draining = False, oc_tag = default_tag, oc_keyTiles = 0,
     oc_expectedKeyTile = 0, oc_committedSegments = 0,
     oc_values = replicate kValuesPerContext 0, oc_segmentState = replicate kSegments 0,
     oc_log = []\<rparr>"

text \<open>\<open>pending_\<close> is keyed by the ever growing operation id; it is a list in id order.\<close>

record o_acc =
  oa_nextId :: nat
  oa_nextReadCycle :: cycle
  oa_nextWriteCycle :: cycle
  oa_nextAluCycle :: cycle
  oa_bankReadyCycle :: "cycle list"
  oa_contexts :: "o_context list"
  oa_pending :: "o_pending list"
  oa_occupied :: nat
  oa_highWater :: nat
  oa_scaleOperations :: nat
  oa_accumulateOperations :: nat
  oa_rowOperations :: nat
  oa_drainOperations :: nat
  oa_readWaitCycles :: nat
  oa_writeWaitCycles :: nat
  oa_aluWaitCycles :: nat
  oa_bankConflictCycles :: nat
  oa_drainWaitCycles :: nat
  oa_readIntervals :: busy_union
  oa_writeIntervals :: busy_union
  oa_aluIntervals :: busy_union
  oa_intervalOrderValid :: bool

definition o_init :: o_acc where
  "o_init = \<lparr>oa_nextId = 1, oa_nextReadCycle = 0, oa_nextWriteCycle = 0, oa_nextAluCycle = 0,
     oa_bankReadyCycle = replicate kRows 0, oa_contexts = replicate kContexts empty_context,
     oa_pending = [], oa_occupied = 0, oa_highWater = 0, oa_scaleOperations = 0,
     oa_accumulateOperations = 0, oa_rowOperations = 0, oa_drainOperations = 0,
     oa_readWaitCycles = 0, oa_writeWaitCycles = 0, oa_aluWaitCycles = 0,
     oa_bankConflictCycles = 0, oa_drainWaitCycles = 0, oa_readIntervals = bu_reset,
     oa_writeIntervals = bu_reset, oa_aluIntervals = bu_reset, oa_intervalOrderValid = True\<rparr>"

record o_completion =
  om_id :: nat
  om_ok :: bool
  om_drain :: bool
  om_slot :: nat
  om_tag :: cluster_tag
  om_values :: "float32 list"

section \<open>Operations\<close>

definition o_matches :: "nat \<Rightarrow> cluster_tag \<Rightarrow> o_context list \<Rightarrow> bool" where
  "o_matches slot tag cs \<longleftrightarrow> slot < kContexts \<and> oc_valid (cs ! slot) \<and> tag_eq (oc_tag (cs ! slot)) tag"

definition o_hasPending :: "nat \<Rightarrow> cluster_tag \<Rightarrow> o_acc \<Rightarrow> bool" where
  "o_hasPending slot tag a \<longleftrightarrow> (\<exists>p \<in> set (oa_pending a). op_slot p = slot \<and> tag_eq (op_tag p) tag)"

definition o_reserve :: "nat \<Rightarrow> cluster_tag \<Rightarrow> nat \<Rightarrow> o_acc \<Rightarrow> bool \<times> o_acc" where
  "o_reserve slot tag keyTiles a =
    (if slot \<ge> kContexts \<or> tag_generation tag = 0 \<or> keyTiles = 0 \<or> oc_valid (oa_contexts a ! slot)
     then (False, a)
     else
       let c = (oa_contexts a ! slot)\<lparr>oc_valid := True, oc_tag := tag, oc_keyTiles := keyTiles,
                 oc_values := replicate kValuesPerContext 0,
                 oc_segmentState := replicate kSegments 0\<rparr>
       in (True, a\<lparr>oa_contexts := (oa_contexts a)[slot := c], oa_occupied := oa_occupied a + 1,
                   oa_highWater := max (oa_highWater a) (oa_occupied a + 1)\<rparr>))"

text \<open>One port: issue at \<open>start\<close>, occupy it for one cycle, record the busy interval.\<close>

definition use_read :: "cycle \<Rightarrow> o_acc \<Rightarrow> o_acc" where
  "use_read start a =
    (case bu_add start (start + 1) (oa_readIntervals a) of (ok, b) \<Rightarrow>
       a\<lparr>oa_nextReadCycle := start + 1, oa_readIntervals := b,
         oa_intervalOrderValid := (ok \<and> oa_intervalOrderValid a)\<rparr>)"

definition use_alu :: "cycle \<Rightarrow> o_acc \<Rightarrow> o_acc" where
  "use_alu start a =
    (case bu_add start (start + 1) (oa_aluIntervals a) of (ok, b) \<Rightarrow>
       a\<lparr>oa_nextAluCycle := start + 1, oa_aluIntervals := b,
         oa_intervalOrderValid := (ok \<and> oa_intervalOrderValid a)\<rparr>)"

definition use_write :: "cycle \<Rightarrow> o_acc \<Rightarrow> o_acc" where
  "use_write start a =
    (case bu_add start (start + 1) (oa_writeIntervals a) of (ok, b) \<Rightarrow>
       a\<lparr>oa_nextWriteCycle := start + 1, oa_writeIntervals := b,
         oa_intervalOrderValid := (ok \<and> oa_intervalOrderValid a)\<rparr>)"

text \<open>The timing that \<open>submitSegment\<close> and \<open>submitRow\<close> share: read and FMA for a later key
  tile, plain accumulate for the first one, then the write. Returns the write start.\<close>

definition o_schedule :: "nat \<Rightarrow> nat \<Rightarrow> cycle \<Rightarrow> nat \<Rightarrow> o_acc \<Rightarrow> cycle \<times> o_acc" where
  "o_schedule kv row cursor scales a =
    (let (cursor2, a2) =
       (if kv \<noteq> 0 then
          let readStart = max cursor (oa_nextReadCycle a);
              a1 = use_read readStart
                     (a\<lparr>oa_readWaitCycles := oa_readWaitCycles a + (readStart - cursor)\<rparr>);
              fmaIssue = max (readStart + 1) (oa_nextAluCycle a1);
              a2 = use_alu fmaIssue
                     (a1\<lparr>oa_aluWaitCycles := oa_aluWaitCycles a1 + (fmaIssue - (readStart + 1))\<rparr>)
          in (fmaIssue + fmaLatency, a2\<lparr>oa_scaleOperations := oa_scaleOperations a2 + scales\<rparr>)
        else
          let accumulateIssue = max cursor (oa_nextAluCycle a);
              a2 = use_alu accumulateIssue
                     (a\<lparr>oa_aluWaitCycles := oa_aluWaitCycles a + (accumulateIssue - cursor)\<rparr>)
          in (accumulateIssue + addLatency, a2));
       writeStart = max cursor2 (oa_nextWriteCycle a2);
       a3 = use_write writeStart
              (a2\<lparr>oa_writeWaitCycles := oa_writeWaitCycles a2 + (writeStart - cursor2)\<rparr>)
     in (writeStart, a3\<lparr>oa_bankReadyCycle := (oa_bankReadyCycle a3)[row := writeStart + 1]\<rparr>))"

text \<open>\<open>ptrs\<close>: the out-parameters \<open>id\<close> and \<open>readyCycle\<close> are not null. An accepted
  submission returns their values.\<close>

definition o_submitSegment ::
  "nat \<Rightarrow> cluster_tag \<Rightarrow> nat \<Rightarrow> nat \<Rightarrow> nat \<Rightarrow> float32 \<Rightarrow> float32 list \<Rightarrow> cycle \<Rightarrow> bool \<Rightarrow> o_acc
   \<Rightarrow> (nat \<times> cycle) option \<times> o_acc" where
  "o_submitSegment slot tag kv row panel alpha values now ptrs a =
    (if \<not> o_matches slot tag (oa_contexts a) \<or> row \<ge> kRows \<or> panel \<ge> kPanels \<or>
        length values \<noteq> kValuesPerSegment \<or> \<not> isfinite32 alpha \<or> \<not> ptrs
     then (None, a)
     else
       let c = oa_contexts a ! slot; segment = row * kPanels + panel
       in if oc_draining c \<or> kv \<noteq> oc_expectedKeyTile c \<or> oc_segmentState c ! segment \<noteq> 0
          then (None, a)
          else
            let cursor = max now (oa_bankReadyCycle a ! row);
                a0 = a\<lparr>oa_bankConflictCycles := oa_bankConflictCycles a + (cursor - now)\<rparr>;
                (writeStart, a1) = o_schedule kv row cursor 1 a0;
                p = default_pending\<lparr>op_id := oa_nextId a1, op_readyCycle := writeStart + 1,
                      op_slot := slot, op_tag := tag, op_kvTileIndex := kv, op_row := row,
                      op_panel := panel, op_alpha := alpha, op_values := values\<rparr>;
                c' = c\<lparr>oc_segmentState := (oc_segmentState c)[segment := 1]\<rparr>
            in (Some (op_id p, op_readyCycle p),
                a1\<lparr>oa_nextId := oa_nextId a1 + 1, oa_contexts := (oa_contexts a1)[slot := c'],
                   oa_pending := oa_pending a1 @ [p],
                   oa_accumulateOperations := oa_accumulateOperations a1 + 1\<rparr>))"

definition o_submitRow ::
  "nat \<Rightarrow> cluster_tag \<Rightarrow> nat \<Rightarrow> nat \<Rightarrow> float32 \<Rightarrow> float32 list \<Rightarrow> cycle \<Rightarrow> bool \<Rightarrow> o_acc
   \<Rightarrow> (nat \<times> cycle) option \<times> o_acc" where
  "o_submitRow slot tag kv row alpha values now ptrs a =
    (if \<not> o_matches slot tag (oa_contexts a) \<or> row \<ge> kRows \<or>
        length values \<noteq> kRowFmaLanes \<or> \<not> isfinite32 alpha \<or> \<not> ptrs
     then (None, a)
     else
       let c = oa_contexts a ! slot; firstSegment = row * kPanels
       in if oc_draining c \<or> kv \<noteq> oc_expectedKeyTile c \<or>
             (\<exists>s \<in> set (range_of (oc_segmentState c) firstSegment kPanels). s \<noteq> 0)
          then (None, a)
          else
            let cursor = max now (oa_bankReadyCycle a ! row);
                (writeStart, a1) = o_schedule kv row cursor kPanels a;
                p = default_pending\<lparr>op_id := oa_nextId a1, op_readyCycle := writeStart + 1,
                      op_slot := slot, op_tag := tag, op_kvTileIndex := kv, op_row := row,
                      op_rowFused := True, op_alpha := alpha, op_rowValues := values\<rparr>;
                c' = c\<lparr>oc_segmentState := fill_range firstSegment kPanels 1 (oc_segmentState c)\<rparr>
            in (Some (op_id p, op_readyCycle p),
                a1\<lparr>oa_nextId := oa_nextId a1 + 1, oa_contexts := (oa_contexts a1)[slot := c'],
                   oa_pending := oa_pending a1 @ [p],
                   oa_accumulateOperations := oa_accumulateOperations a1 + kPanels,
                   oa_rowOperations := oa_rowOperations a1 + 1\<rparr>))"

text \<open>One read of the drain loop; the loop visits every (row, panel) in order.\<close>

definition drain_read :: "nat \<Rightarrow> cycle \<times> o_acc \<Rightarrow> cycle \<times> o_acc" where
  "drain_read row ca =
    (case ca of (cursor, a) \<Rightarrow>
       let start = max (max cursor (oa_nextReadCycle a)) (oa_bankReadyCycle a ! row);
           a1 = use_read start (a\<lparr>oa_drainWaitCycles := oa_drainWaitCycles a + (start - cursor)\<rparr>)
       in (start + 1, a1\<lparr>oa_bankReadyCycle := (oa_bankReadyCycle a1)[row := start + 1]\<rparr>))"

definition drain_rows :: "nat list" where
  "drain_rows = concat (map (\<lambda>row. replicate kPanels row) [0..<kRows])"

definition o_requestDrain ::
  "nat \<Rightarrow> cluster_tag \<Rightarrow> cycle \<Rightarrow> bool \<Rightarrow> o_acc \<Rightarrow> (nat \<times> cycle) option \<times> o_acc" where
  "o_requestDrain slot tag now ptrs a =
    (if \<not> o_matches slot tag (oa_contexts a) \<or> \<not> ptrs then (None, a)
     else
       let c = oa_contexts a ! slot
       in if oc_draining c \<or> oc_expectedKeyTile c \<noteq> oc_keyTiles c \<or> oc_committedSegments c \<noteq> 0
          then (None, a)
          else
            let (cursor, a1) = fold drain_read drain_rows (now, a);
                p = default_pending\<lparr>op_id := oa_nextId a1, op_readyCycle := cursor,
                      op_slot := slot, op_tag := tag, op_drain := True\<rparr>
            in (Some (op_id p, op_readyCycle p),
                a1\<lparr>oa_nextId := oa_nextId a1 + 1, oa_pending := oa_pending a1 @ [p],
                   oa_contexts := (oa_contexts a1)[slot := c\<lparr>oc_draining := True\<rparr>],
                   oa_drainOperations := oa_drainOperations a1 + 1\<rparr>))"

definition op_segment :: "o_pending \<Rightarrow> nat" where
  "op_segment p = op_row p * kPanels + op_panel p"

definition op_committed :: "o_pending \<Rightarrow> nat" where
  "op_committed p = (if op_rowFused p then kPanels else 1)"

definition op_payload :: "o_pending \<Rightarrow> float32 list" where
  "op_payload p = (if op_rowFused p then op_rowValues p else op_values p)"

text \<open>The commit of one ready accumulate operation to its context: accepted only for the
  expected key tile and only when all its segments are in state 1.\<close>

definition o_commit :: "o_pending \<Rightarrow> o_context \<Rightarrow> bool \<times> o_context" where
  "o_commit p c =
    (let segment = op_segment p; committed = op_committed p;
         ok = (op_kvTileIndex p = oc_expectedKeyTile c \<and>
               (\<forall>s \<in> set (range_of (oc_segmentState c) segment committed). s = 1))
     in if \<not> ok then (False, c)
        else
          let off = segment * kValuesPerSegment;
              olds = range_of (oc_values c) off (committed * kValuesPerSegment);
              news = map2 (\<lambda>old v. if op_kvTileIndex p = 0 then v else fma32 (op_alpha p) old v)
                       olds (op_payload p);
              c1 = c\<lparr>oc_values := put_range off news (oc_values c),
                     oc_segmentState := fill_range segment committed 2 (oc_segmentState c),
                     oc_committedSegments := oc_committedSegments c + committed,
                     oc_log := oc_log c @ [p]\<rparr>
          in (True, if oc_committedSegments c1 = kRows * kPanels
                    then c1\<lparr>oc_expectedKeyTile := oc_expectedKeyTile c1 + 1,
                            oc_committedSegments := 0,
                            oc_segmentState := replicate kSegments 0\<rparr>
                    else c1))"

definition o_complete :: "o_pending \<Rightarrow> o_context list \<Rightarrow> o_completion \<times> o_context list" where
  "o_complete p cs =
    (let m = \<lparr>om_id = op_id p, om_ok = o_matches (op_slot p) (op_tag p) cs, om_drain = op_drain p,
              om_slot = op_slot p, om_tag = op_tag p, om_values = []\<rparr>
     in if \<not> om_ok m then (m, cs)
        else if op_drain p then (m\<lparr>om_values := oc_values (cs ! op_slot p)\<rparr>, cs)
        else (case o_commit p (cs ! op_slot p) of (ok, c') \<Rightarrow>
                (m\<lparr>om_ok := ok\<rparr>, cs[op_slot p := c'])))"

fun o_progress_loop ::
  "cycle \<Rightarrow> o_pending list \<Rightarrow> o_context list \<Rightarrow> o_completion list \<times> o_pending list \<times> o_context list"
where
  "o_progress_loop now [] cs = ([], [], cs)"
| "o_progress_loop now (p # ps) cs =
     (if op_readyCycle p > now
      then (case o_progress_loop now ps cs of (ms, kept, cs') \<Rightarrow> (ms, p # kept, cs'))
      else (case o_complete p cs of (m, cs1) \<Rightarrow>
              (case o_progress_loop now ps cs1 of (ms, kept, cs') \<Rightarrow> (m # ms, kept, cs'))))"

definition o_progress :: "cycle \<Rightarrow> o_acc \<Rightarrow> o_completion list \<times> o_acc" where
  "o_progress now a =
    (case o_progress_loop now (oa_pending a) (oa_contexts a) of (ms, kept, cs) \<Rightarrow>
       (ms, a\<lparr>oa_pending := kept, oa_contexts := cs\<rparr>))"

definition o_release :: "nat \<Rightarrow> cluster_tag \<Rightarrow> o_acc \<Rightarrow> bool \<times> o_acc" where
  "o_release slot tag a =
    (if \<not> o_matches slot tag (oa_contexts a) \<or> \<not> oc_draining (oa_contexts a ! slot) \<or>
        o_hasPending slot tag a
     then (False, a)
     else (True, a\<lparr>oa_contexts := (oa_contexts a)[slot := empty_context],
                   oa_occupied := oa_occupied a - 1\<rparr>))"

definition o_cancelGeneration :: "nat \<Rightarrow> o_acc \<Rightarrow> nat \<times> o_acc" where
  "o_cancelGeneration g a =
    (let hit = (\<lambda>c. oc_valid c \<and> tag_generation (oc_tag c) = g);
         cancelled = count_if hit (oa_contexts a)
     in (cancelled,
         a\<lparr>oa_pending := filter (\<lambda>p. tag_generation (op_tag p) \<noteq> g) (oa_pending a),
           oa_contexts := map (\<lambda>c. if hit c then empty_context else c) (oa_contexts a),
           oa_occupied := oa_occupied a - cancelled\<rparr>))"

definition o_drained :: "o_acc \<Rightarrow> bool" where
  "o_drained a \<longleftrightarrow> oa_occupied a = 0 \<and> oa_pending a = []"

text \<open>The statistics getters, in the order of the class.\<close>

definition o_statistics :: "o_acc \<Rightarrow> nat list" where
  "o_statistics a =
    [oa_occupied a, oa_highWater a, oa_scaleOperations a, oa_accumulateOperations a,
     oa_rowOperations a, oa_drainOperations a, oa_readWaitCycles a, oa_writeWaitCycles a,
     oa_aluWaitCycles a, oa_bankConflictCycles a, oa_drainWaitCycles a,
     bu_unionCycles (oa_readIntervals a), bu_spanCycles (oa_readIntervals a),
     bu_idleCycles (oa_readIntervals a), bu_maxConcurrency (oa_readIntervals a),
     bu_unionCycles (oa_writeIntervals a), bu_spanCycles (oa_writeIntervals a),
     bu_idleCycles (oa_writeIntervals a), bu_maxConcurrency (oa_writeIntervals a),
     bu_unionCycles (oa_aluIntervals a), bu_spanCycles (oa_aluIntervals a),
     bu_idleCycles (oa_aluIntervals a), bu_maxConcurrency (oa_aluIntervals a),
     (if oa_intervalOrderValid a then 1 else 0)]"

section \<open>Port discipline\<close>

definition port_ok :: "cycle \<Rightarrow> busy_union \<Rightarrow> bool" where
  "port_ok next b \<longleftrightarrow> (bu_hasInterval b \<longrightarrow> bu_lastStart b < next) \<and>
     (\<forall>e \<in> set (bu_activeEnds b). e \<le> next) \<and> bu_maxConcurrency b \<le> 1"

lemma port_ok_use:
  assumes "port_ok next b" "next \<le> start"
  shows "fst (bu_add start (start + 1) b)" "port_ok (start + 1) (snd (bu_add start (start + 1) b))"
proof -
  have drop: "dropWhile (\<lambda>t. t \<le> start) (bu_activeEnds b) = []"
    using assms by (auto simp: port_ok_def dropWhile_eq_Nil_conv)
  show "fst (bu_add start (start + 1) b)" "port_ok (start + 1) (snd (bu_add start (start + 1) b))"
    unfolding bu_add_def Let_def drop using assms by (auto simp: port_ok_def)
qed

definition o_ports :: "o_acc \<Rightarrow> bool" where
  "o_ports a \<longleftrightarrow> port_ok (oa_nextReadCycle a) (oa_readIntervals a) \<and>
     port_ok (oa_nextAluCycle a) (oa_aluIntervals a) \<and>
     port_ok (oa_nextWriteCycle a) (oa_writeIntervals a) \<and>
     oa_intervalOrderValid a \<and> length (oa_bankReadyCycle a) = kRows"

text \<open>The part of the state that the timing code leaves alone.\<close>

definition o_data :: "o_acc \<Rightarrow> nat \<times> o_context list \<times> o_pending list \<times> nat" where
  "o_data a = (oa_nextId a, oa_contexts a, oa_pending a, oa_occupied a)"

lemma use_data [simp]:
  "o_data (use_read s a) = o_data a" "o_data (use_alu s a) = o_data a"
  "o_data (use_write s a) = o_data a"
  by (simp_all add: use_read_def use_alu_def use_write_def o_data_def split: prod.splits)

lemma use_ports:
  "o_ports a \<Longrightarrow> oa_nextReadCycle a \<le> s \<Longrightarrow> o_ports (use_read s a)"
  "o_ports a \<Longrightarrow> oa_nextAluCycle a \<le> s \<Longrightarrow> o_ports (use_alu s a)"
  "o_ports a \<Longrightarrow> oa_nextWriteCycle a \<le> s \<Longrightarrow> o_ports (use_write s a)"
  using port_ok_use
  by (auto simp: use_read_def use_alu_def use_write_def o_ports_def split: prod.splits) (metis fst_conv snd_conv)+

lemma o_data_update [simp]:
  "o_data (oa_readWaitCycles_update f a) = o_data a" "o_data (oa_aluWaitCycles_update f a) = o_data a"
  "o_data (oa_writeWaitCycles_update f a) = o_data a" "o_data (oa_scaleOperations_update f a) = o_data a"
  "o_data (oa_bankReadyCycle_update g a) = o_data a" "o_data (oa_drainWaitCycles_update f a) = o_data a"
  "o_data (oa_bankConflictCycles_update f a) = o_data a"
  by (simp_all add: o_data_def)

lemma o_ports_update [simp]:
  "o_ports (oa_readWaitCycles_update f a) = o_ports a" "o_ports (oa_aluWaitCycles_update f a) = o_ports a"
  "o_ports (oa_writeWaitCycles_update f a) = o_ports a" "o_ports (oa_scaleOperations_update f a) = o_ports a"
  "o_ports (oa_drainWaitCycles_update f a) = o_ports a" "o_ports (oa_bankConflictCycles_update f a) = o_ports a"
  "o_ports (oa_nextId_update f a) = o_ports a" "o_ports (oa_contexts_update cs a) = o_ports a"
  "o_ports (oa_pending_update ps a) = o_ports a" "o_ports (oa_accumulateOperations_update f a) = o_ports a"
  "o_ports (oa_rowOperations_update f a) = o_ports a" "o_ports (oa_drainOperations_update f a) = o_ports a"
  "o_ports (oa_occupied_update f a) = o_ports a" "o_ports (oa_highWater_update f a) = o_ports a"
  by (simp_all add: o_ports_def)

lemma o_ports_bank: "o_ports a \<Longrightarrow> o_ports (a\<lparr>oa_bankReadyCycle := (oa_bankReadyCycle a)[r := c]\<rparr>)"
  by (simp add: o_ports_def)

lemma o_schedule_data: "o_data (snd (o_schedule kv row cursor n a)) = o_data a"
  by (simp add: o_schedule_def Let_def)

lemma o_schedule_ports:
  assumes "o_ports a"
  shows "o_ports (snd (o_schedule kv row cursor n a))"
proof (cases "kv = 0")
  case True
  with assms show ?thesis by (simp add: o_schedule_def Let_def o_ports_bank use_ports)
next
  case False
  with assms show ?thesis by (simp add: o_schedule_def Let_def o_ports_bank use_ports)
qed

lemma o_schedule_time:
  "cursor + (if kv = 0 then 2 else 3) \<le> fst (o_schedule kv row cursor n a)"
  by (auto simp: o_schedule_def Let_def fmaLatency_def addLatency_def max_def)

lemma drain_read_keeps:
  "o_data (snd (drain_read row (cursor, a))) = o_data a"
  "o_ports a \<Longrightarrow> o_ports (snd (drain_read row (cursor, a)))"
  "cursor < fst (drain_read row (cursor, a))"
  by (simp_all add: drain_read_def Let_def o_ports_bank use_ports)

lemma drain_reads_keep:
  "o_data (snd (fold drain_read rows ca)) = o_data (snd ca) \<and>
   (o_ports (snd ca) \<longrightarrow> o_ports (snd (fold drain_read rows ca))) \<and>
   fst ca + length rows \<le> fst (fold drain_read rows ca)"
proof (induction rows arbitrary: ca)
  case Nil
  then show ?case by simp
next
  case (Cons row rows)
  obtain cursor a where ca: "ca = (cursor, a)" by (cases ca)
  show ?case
    using Cons.IH [of "drain_read row ca"] drain_read_keeps [where row = row and cursor = cursor and a = a] by (simp add: ca)
qed

section \<open>What a context holds\<close>

definition covers :: "o_pending \<Rightarrow> nat \<Rightarrow> bool" where
  "covers p seg \<longleftrightarrow> op_segment p \<le> seg \<and> seg < op_segment p + op_committed p"

text \<open>Key tiles accumulated into a segment, in commit order, and the value that replaying
  them gives for one lane.\<close>

definition tiles_of :: "nat \<Rightarrow> o_pending list \<Rightarrow> nat list" where
  "tiles_of seg log = map op_kvTileIndex (filter (\<lambda>p. covers p seg) log)"

definition lane_value :: "o_pending \<Rightarrow> nat \<Rightarrow> nat \<Rightarrow> float32" where
  "lane_value p seg lane = op_payload p ! ((seg - op_segment p) * kValuesPerSegment + lane)"

definition accumulate :: "nat \<Rightarrow> nat \<Rightarrow> float32 \<Rightarrow> o_pending \<Rightarrow> float32" where
  "accumulate seg lane acc p =
    (if op_kvTileIndex p = 0 then lane_value p seg lane
     else fma32 (op_alpha p) acc (lane_value p seg lane))"

definition replay :: "nat \<Rightarrow> nat \<Rightarrow> o_pending list \<Rightarrow> float32" where
  "replay seg lane log = foldl (accumulate seg lane) 0 (filter (\<lambda>p. covers p seg) log)"

definition op_wf :: "o_pending \<Rightarrow> bool" where
  "op_wf p \<longleftrightarrow> op_row p < kRows \<and> op_panel p < kPanels \<and> (op_rowFused p \<longrightarrow> op_panel p = 0) \<and>
     length (op_payload p) = op_committed p * kValuesPerSegment"

definition ctx_inv :: "o_context \<Rightarrow> bool" where
  "ctx_inv c \<longleftrightarrow>
     (\<not> oc_valid c \<longrightarrow> c = empty_context) \<and>
     length (oc_values c) = kValuesPerContext \<and> length (oc_segmentState c) = kSegments \<and>
     (\<forall>p \<in> set (oc_log c). op_wf p) \<and> (\<forall>seg < kSegments. oc_segmentState c ! seg \<le> 2) \<and>
     oc_committedSegments c = count_if (\<lambda>s. s = 2) (oc_segmentState c) \<and>
     oc_committedSegments c < kSegments \<and>
     (\<forall>seg < kSegments. tiles_of seg (oc_log c) =
        [0..<oc_expectedKeyTile c + (if oc_segmentState c ! seg = 2 then 1 else 0)]) \<and>
     (\<forall>seg < kSegments. \<forall>lane < kValuesPerSegment.
        oc_values c ! (seg * kValuesPerSegment + lane) = replay seg lane (oc_log c))"

definition pend_ok :: "o_pending \<Rightarrow> o_context \<Rightarrow> bool" where
  "pend_ok p c \<longleftrightarrow> op_wf p \<and> op_kvTileIndex p = oc_expectedKeyTile c \<and>
     (\<forall>seg. covers p seg \<longrightarrow> oc_segmentState c ! seg = 1)"

definition disjoint_ops :: "o_pending \<Rightarrow> o_pending \<Rightarrow> bool" where
  "disjoint_ops p q \<longleftrightarrow> op_slot p \<noteq> op_slot q \<or> op_drain p \<or> op_drain q \<or>
     (\<forall>seg. \<not> (covers p seg \<and> covers q seg))"

lemma op_wf_bound:
  "op_wf p \<Longrightarrow> op_segment p + op_committed p \<le> kSegments"
  "op_wf p \<Longrightarrow> covers p seg \<Longrightarrow> seg < kSegments"
  by (auto simp: op_wf_def op_segment_def op_committed_def covers_def o_consts split: if_splits)

lemma covers_first: "covers p (op_segment p)"
  by (simp add: covers_def op_committed_def kPanels_def)

lemma tiles_of_snoc:
  "tiles_of seg (log @ [p]) = tiles_of seg log @ (if covers p seg then [op_kvTileIndex p] else [])"
  by (simp add: tiles_of_def)

lemma replay_snoc:
  "replay seg lane (log @ [p]) =
    (if covers p seg then accumulate seg lane (replay seg lane log) p else replay seg lane log)"
  by (simp add: replay_def)

lemma pend_ok_states:
  assumes "ctx_inv c" "pend_ok p c"
  shows "\<forall>s \<in> set (range_of (oc_segmentState c) (op_segment p) (op_committed p)). s = 1"
proof -
  have "op_segment p + op_committed p \<le> length (oc_segmentState c)"
    using assms op_wf_bound by (auto simp: ctx_inv_def pend_ok_def)
  then show ?thesis
    using assms(2) by (auto simp: set_range_of pend_ok_def covers_def)
qed

text \<open>The values after a commit, lane by lane.\<close>

lemma commit_values:
  assumes "op_wf p" and len: "length vals = kValuesPerContext"
    and seg: "seg < kSegments" "lane < kValuesPerSegment"
  defines "off \<equiv> op_segment p * kValuesPerSegment"
  shows "put_range off
      (map2 (\<lambda>old v. if op_kvTileIndex p = 0 then v else fma32 (op_alpha p) old v)
         (range_of vals off (op_committed p * kValuesPerSegment)) (op_payload p)) vals
      ! (seg * kValuesPerSegment + lane) =
    (if covers p seg then accumulate seg lane (vals ! (seg * kValuesPerSegment + lane)) p
     else vals ! (seg * kValuesPerSegment + lane))"
proof -
  let ?i = "seg * kValuesPerSegment + lane"
  have i: "?i < length vals" using seg len by (simp add: o_consts)
  have bound: "off + op_committed p * kValuesPerSegment \<le> length vals"
    using op_wf_bound(1) [OF assms(1)] len by (simp add: off_def o_consts)
  have payload: "length (op_payload p) = op_committed p * kValuesPerSegment"
    using assms(1) by (simp add: op_wf_def)
  have inside: "off \<le> ?i \<and> ?i < off + op_committed p * kValuesPerSegment \<longleftrightarrow> covers p seg"
    using seg by (auto simp: covers_def off_def o_consts)
  have idx: "?i - off = (seg - op_segment p) * kValuesPerSegment + lane" if "covers p seg"
    using that by (simp add: covers_def off_def diff_mult_distrib o_consts)
  show ?thesis
  proof (cases "covers p seg")
    case True
    then have "?i - off < op_committed p * kValuesPerSegment" "off \<le> ?i" using inside by auto
    then show ?thesis
      using True i inside bound payload
      by (simp add: nth_put_range nth_range_of idx [symmetric] accumulate_def lane_value_def)
  next
    case False
    with i inside bound payload show ?thesis by (auto simp: nth_put_range)
  qed
qed

lemma fill_state:
  assumes "op_wf p" "length st = kSegments" "seg < kSegments"
  shows "fill_range (op_segment p) (op_committed p) 2 st ! seg = (if covers p seg then 2 else st ! seg)"
  using assms by (simp add: nth_fill_range covers_def)

lemma fill_count:
  assumes inv: "ctx_inv c" and ok: "pend_ok p c"
  shows "count_if (\<lambda>s. s = 2) (fill_range (op_segment p) (op_committed p) 2 (oc_segmentState c))
    = oc_committedSegments c + op_committed p"
proof -
  have wf: "op_wf p" using ok by (simp add: pend_ok_def)
  have "count_if (\<lambda>s. s = 2) (fill_range (op_segment p) (op_committed p) 2 (oc_segmentState c))
    = count_if (\<lambda>s. s = 2) (oc_segmentState c) + op_committed p"
    by (rule count_if_fill_range)
       (use inv ok op_wf_bound(1) [OF wf] in \<open>auto simp: ctx_inv_def pend_ok_def covers_def\<close>)
  then show ?thesis using inv by (simp add: ctx_inv_def)
qed

text \<open>A pending operation commits, and the context still holds the replay of its log.\<close>

lemma o_commit_inv:
  assumes inv: "ctx_inv c" and ok: "pend_ok p c"
  shows "fst (o_commit p c)" "oc_valid c \<Longrightarrow> ctx_inv (snd (o_commit p c))"
proof -
  have wf: "op_wf p" and kv: "op_kvTileIndex p = oc_expectedKeyTile c"
    and st: "\<And>seg. covers p seg \<Longrightarrow> oc_segmentState c ! seg = 1"
    using ok by (auto simp: pend_ok_def)
  have lens: "length (oc_values c) = kValuesPerContext" "length (oc_segmentState c) = kSegments"
    and le2: "\<And>seg. seg < kSegments \<Longrightarrow> oc_segmentState c ! seg \<le> 2" "\<forall>q \<in> set (oc_log c @ [p]). op_wf q"
    using inv wf by (auto simp: ctx_inv_def)
  show fst: "fst (o_commit p c)"
    using pend_ok_states [OF inv ok] kv by (auto simp: o_commit_def Let_def)
  note count = fill_count [OF inv ok]
  have le: "oc_committedSegments c + op_committed p \<le> kSegments"
    using count count_if_le [of "\<lambda>s. s = 2"] lens by (metis length_fill_range)
  have tiles: "tiles_of seg (oc_log c @ [p]) =
      [0..<oc_expectedKeyTile c + (if covers p seg \<or> oc_segmentState c ! seg = 2 then 1 else 0)]"
    if "seg < kSegments" for seg
    using that inv st [of seg] kv by (auto simp: tiles_of_snoc ctx_inv_def)
  have vals: "\<forall>seg < kSegments. \<forall>lane < kValuesPerSegment.
      oc_values (snd (o_commit p c)) ! (seg * kValuesPerSegment + lane) = replay seg lane (oc_log c @ [p])"
    using fst inv commit_values [OF wf lens(1)]
    by (auto simp: o_commit_def Let_def replay_snoc ctx_inv_def split: if_splits)
  have all2: "covers p seg \<or> oc_segmentState c ! seg = 2"
    if "oc_committedSegments c + op_committed p = kSegments" "seg < kSegments" for seg
  proof -
    have "\<forall>s \<in> set (fill_range (op_segment p) (op_committed p) 2 (oc_segmentState c)). s = 2"
      using count that(1) lens count_if_full [of "\<lambda>s. s = 2"] by (metis length_fill_range)
    then have "fill_range (op_segment p) (op_committed p) 2 (oc_segmentState c) ! seg = 2"
      using that(2) lens by simp
    then show ?thesis using fill_state [OF wf lens(2) that(2)] by (simp split: if_splits)
  qed
  show "ctx_inv (snd (o_commit p c))" if v: "oc_valid c"
  proof (cases "oc_committedSegments c + op_committed p = kSegments")
    case True
    with fst v vals tiles all2 lens le2(2) show ?thesis
      by (auto simp: ctx_inv_def o_commit_def Let_def kSegments_def split: if_splits) (simp_all add: o_consts)
  next
    case False
    with fst v vals tiles lens le2 count le fill_state [OF wf lens(2)] show ?thesis
      by (auto simp: ctx_inv_def o_commit_def Let_def kSegments_def split: if_splits)
  qed
qed

lemma o_commit_frame:
  "oc_valid (snd (o_commit p c)) = oc_valid c" "oc_tag (snd (o_commit p c)) = oc_tag c"
  "oc_draining (snd (o_commit p c)) = oc_draining c" "oc_keyTiles (snd (o_commit p c)) = oc_keyTiles c"
  "oc_expectedKeyTile c \<le> oc_expectedKeyTile (snd (o_commit p c))"
  "\<exists>ext. oc_log (snd (o_commit p c)) = oc_log c @ ext"
  by (simp_all add: o_commit_def Let_def)

text \<open>Other pending operations of the same context stay valid across a commit: the key tile
  cannot complete while one of its segments is still submitted.\<close>

lemma o_commit_others:
  assumes inv: "ctx_inv c" and p: "pend_ok p c" and q: "pend_ok q c"
    and disj: "\<And>seg. \<not> (covers p seg \<and> covers q seg)"
  shows "pend_ok q (snd (o_commit p c))"
proof -
  have wf: "op_wf p" "op_wf q" using p q by (auto simp: pend_ok_def)
  have len: "length (oc_segmentState c) = kSegments" using inv by (simp add: ctx_inv_def)
  have ok: "fst (o_commit p c)" by (rule o_commit_inv(1) [OF inv p])
  let ?st = "fill_range (op_segment p) (op_committed p) 2 (oc_segmentState c)"
  have keep: "?st ! seg = 1" if "covers q seg" for seg
    using that disj [of seg] q op_wf_bound(2) [OF wf(2) that] fill_state [OF wf(1) len, of seg]
    by (simp add: pend_ok_def)
  have "?st ! op_segment q = 1" "op_segment q < length ?st"
    using keep covers_first [of q] op_wf_bound(2) [OF wf(2), of "op_segment q"] len by auto
  then have "\<not> (\<forall>s \<in> set ?st. s = 2)" by (metis nth_mem numeral_eq_one_iff semiring_norm(85))
  then have "count_if (\<lambda>s. s = 2) ?st \<noteq> kSegments"
    using count_if_full [of "\<lambda>s. s = 2" ?st] len by simp
  then have "oc_committedSegments c + op_committed p \<noteq> kSegments"
    using fill_count [OF inv p] by simp
  then show ?thesis
    using ok q keep by (auto simp: o_commit_def Let_def pend_ok_def kSegments_def split: if_splits)
qed

text \<open>How the segment states of a context move: from submitted to committed, or the key tile
  completes and all of them are reset.\<close>

definition tile_step :: "o_context \<Rightarrow> o_context \<Rightarrow> bool" where
  "tile_step c c' \<longleftrightarrow>
     oc_expectedKeyTile c' = oc_expectedKeyTile c \<and>
       (\<forall>seg < kSegments. oc_segmentState c' ! seg = oc_segmentState c ! seg \<or>
          oc_segmentState c ! seg = 1 \<and> oc_segmentState c' ! seg = 2) \<or>
     oc_expectedKeyTile c' = oc_expectedKeyTile c + 1 \<and>
       (\<forall>seg < kSegments. oc_segmentState c ! seg \<noteq> 0 \<and> oc_segmentState c' ! seg = 0)"

lemma tile_step_refl: "tile_step c c"
  by (simp add: tile_step_def)

lemma tile_step_trans:
  assumes "tile_step a b" "tile_step b c"
  shows "tile_step a c"
proof -
  have pos: "(0::nat) < kSegments" by (simp add: o_consts)
  from assms(1) consider
    (keep) "oc_expectedKeyTile b = oc_expectedKeyTile a"
      "\<forall>seg < kSegments. oc_segmentState b ! seg = oc_segmentState a ! seg \<or>
          oc_segmentState a ! seg = 1 \<and> oc_segmentState b ! seg = 2"
  | (wrap) "oc_expectedKeyTile b = oc_expectedKeyTile a + 1"
      "\<forall>seg < kSegments. oc_segmentState a ! seg \<noteq> 0 \<and> oc_segmentState b ! seg = 0"
    unfolding tile_step_def by blast
  then show ?thesis
  proof cases
    case keep
    with assms(2) show ?thesis unfolding tile_step_def by (elim disjE conjE) (force, force)
  next
    case wrap
    with assms(2) pos show ?thesis unfolding tile_step_def by (elim disjE conjE) (force, force)
  qed
qed

lemma o_commit_states:
  assumes inv: "ctx_inv c" and p: "pend_ok p c"
  shows "tile_step c (snd (o_commit p c))"
    and "seg < kSegments \<Longrightarrow> covers p seg \<Longrightarrow> oc_segmentState (snd (o_commit p c)) ! seg \<noteq> 1"
proof -
  have wf: "op_wf p" and st: "\<And>seg. covers p seg \<Longrightarrow> oc_segmentState c ! seg = 1"
    using p by (auto simp: pend_ok_def)
  have len: "length (oc_segmentState c) = kSegments" using inv by (simp add: ctx_inv_def)
  have ok: "fst (o_commit p c)" by (rule o_commit_inv(1) [OF inv p])
  note fill = fill_state [OF wf len]
  have all2: "oc_segmentState c ! seg \<noteq> 0"
    if "oc_committedSegments c + op_committed p = kSegments" "seg < kSegments" for seg
  proof -
    have "count_if (\<lambda>s. s = 2) (fill_range (op_segment p) (op_committed p) 2 (oc_segmentState c)) =
        length (fill_range (op_segment p) (op_committed p) 2 (oc_segmentState c))"
      using fill_count [OF inv p] that(1) len by simp
    then have "fill_range (op_segment p) (op_committed p) 2 (oc_segmentState c) ! seg = 2"
      using that(2) len unfolding count_if_full by simp
    then show ?thesis using fill [OF that(2)] st [of seg] by (auto split: if_splits)
  qed
  show "tile_step c (snd (o_commit p c))"
    "seg < kSegments \<Longrightarrow> covers p seg \<Longrightarrow> oc_segmentState (snd (o_commit p c)) ! seg \<noteq> 1"
    using ok all2 fill st
    by (auto simp: o_commit_def Let_def tile_step_def kSegments_def split: if_splits)
qed

section \<open>The invariant of the accumulator\<close>

definition ctxs_inv :: "o_context list \<Rightarrow> bool" where
  "ctxs_inv cs \<longleftrightarrow> length cs = kContexts \<and>
     (\<forall>c \<in> set cs. ctx_inv c \<and> (oc_draining c \<longrightarrow> oc_keyTiles c \<le> oc_expectedKeyTile c))"

definition pend_inv :: "o_context list \<Rightarrow> o_pending \<Rightarrow> bool" where
  "pend_inv cs p \<longleftrightarrow> o_matches (op_slot p) (op_tag p) cs \<and>
     (if op_drain p then oc_draining (cs ! op_slot p) else pend_ok p (cs ! op_slot p))"

text \<open>Every submitted segment is owed by a pending operation.\<close>

definition owed :: "o_context list \<Rightarrow> o_pending list \<Rightarrow> bool" where
  "owed cs ps \<longleftrightarrow> (\<forall>i < kContexts. \<forall>seg < kSegments. oc_segmentState (cs ! i) ! seg = 1 \<longrightarrow>
     (\<exists>p \<in> set ps. op_slot p = i \<and> \<not> op_drain p \<and> covers p seg))"

definition o_inv :: "o_acc \<Rightarrow> bool" where
  "o_inv a \<longleftrightarrow> o_ports a \<and> ctxs_inv (oa_contexts a) \<and> owed (oa_contexts a) (oa_pending a) \<and>
     (\<forall>p \<in> set (oa_pending a). pend_inv (oa_contexts a) p \<and> op_id p < oa_nextId a) \<and>
     sorted_wrt disjoint_ops (oa_pending a) \<and> sorted_wrt (<) (map op_id (oa_pending a)) \<and>
     oa_occupied a = count_if oc_valid (oa_contexts a)"

lemma disjoint_ops_sym: "disjoint_ops p q \<Longrightarrow> disjoint_ops q p"
  by (auto simp: disjoint_ops_def)

definition ctx_ext :: "o_context \<Rightarrow> o_context \<Rightarrow> bool" where
  "ctx_ext c c' \<longleftrightarrow> oc_valid c' = oc_valid c \<and> oc_tag c' = oc_tag c \<and> oc_draining c' = oc_draining c \<and>
     oc_keyTiles c' = oc_keyTiles c \<and> (\<exists>ext. oc_log c' = oc_log c @ ext)"

lemma ctx_ext_refl [simp]: "ctx_ext c c"
  by (simp add: ctx_ext_def)

lemma ctx_ext_trans: "ctx_ext a b \<Longrightarrow> ctx_ext b c \<Longrightarrow> ctx_ext a c"
  by (auto simp: ctx_ext_def)

definition ctxs_ext :: "o_context list \<Rightarrow> o_context list \<Rightarrow> bool" where
  "ctxs_ext cs cs' \<longleftrightarrow> (\<forall>i < kContexts. ctx_ext (cs ! i) (cs' ! i) \<and> tile_step (cs ! i) (cs' ! i))"

lemma ctxs_ext_trans: "ctxs_ext a b \<Longrightarrow> ctxs_ext b c \<Longrightarrow> ctxs_ext a c"
  by (auto simp: ctxs_ext_def intro: ctx_ext_trans tile_step_trans)

lemma ctxs_inv_update:
  "ctxs_inv cs \<Longrightarrow> ctx_inv c \<Longrightarrow> (oc_draining c \<Longrightarrow> oc_keyTiles c \<le> oc_expectedKeyTile c) \<Longrightarrow>
    ctxs_inv (cs[i := c])"
  by (auto simp: ctxs_inv_def dest!: set_update_subset_insert [THEN subsetD])

lemma o_complete_ok:
  assumes cs: "ctxs_inv cs" and p: "pend_inv cs p" and c: "o_complete p cs = (m, cs')"
  shows "om_ok m" "om_drain m = op_drain p" "om_slot m = op_slot p" "ctxs_inv cs'" "ctxs_ext cs cs'"
    "op_drain p \<Longrightarrow> om_values m = oc_values (cs ! op_slot p) \<and> cs' = cs"
    "\<And>q. pend_inv cs q \<Longrightarrow> disjoint_ops p q \<Longrightarrow> pend_inv cs' q"
    "\<And>qs ps. owed cs (qs @ p # ps) \<Longrightarrow> owed cs' (qs @ ps)"
proof -
  let ?c = "cs ! op_slot p"
  have m: "o_matches (op_slot p) (op_tag p) cs" and slot: "op_slot p < kContexts" "oc_valid ?c"
    using p by (auto simp: pend_inv_def o_matches_def)
  have len: "length cs = kContexts" and inv: "ctx_inv ?c" "oc_draining ?c \<longrightarrow> oc_keyTiles ?c \<le> oc_expectedKeyTile ?c"
    using cs slot by (auto simp: ctxs_inv_def)
  note commit = o_commit_inv [OF inv(1)] o_commit_frame [where p = p and c = ?c]
  have all: "om_ok m \<and> om_drain m = op_drain p \<and> om_slot m = op_slot p \<and> ctxs_inv cs' \<and> ctxs_ext cs cs' \<and>
    (op_drain p \<longrightarrow> om_values m = oc_values ?c \<and> cs' = cs) \<and>
    (\<forall>seg < kSegments. \<not> op_drain p \<longrightarrow> covers p seg \<longrightarrow> oc_segmentState (cs' ! op_slot p) ! seg \<noteq> 1)"
  proof (cases "op_drain p")
    case True
    with c m cs show ?thesis by (auto simp: o_complete_def Let_def ctxs_ext_def tile_step_refl)
  next
    case False
    with p have ok: "pend_ok p ?c" by (simp add: pend_inv_def)
    obtain c' where c': "o_commit p ?c = (True, c')" using commit(1) [OF ok] by (metis eq_fst_iff)
    then have cs': "cs' = cs[op_slot p := c']" "om_ok m" "om_drain m = op_drain p" "om_slot m = op_slot p"
      using c m False by (auto simp: o_complete_def Let_def)
    moreover have "ctxs_inv cs'"
      unfolding cs'(1)
    proof (rule ctxs_inv_update [OF cs])
      show "ctx_inv c'" using commit(2) [OF ok slot(2)] c' by simp
      show "oc_draining c' \<Longrightarrow> oc_keyTiles c' \<le> oc_expectedKeyTile c'"
        using commit c' inv(2) by auto
    qed
    moreover have "ctx_ext ?c c'" using commit c' by (auto simp: ctx_ext_def)
    then have "ctxs_ext cs cs'"
      unfolding cs'(1) ctxs_ext_def using len slot o_commit_states(1) [OF inv(1) ok] c'
      by (auto simp: nth_list_update tile_step_refl)
    moreover have "\<forall>seg < kSegments. covers p seg \<longrightarrow> oc_segmentState (cs' ! op_slot p) ! seg \<noteq> 1"
      using o_commit_states(2) [OF inv(1) ok] c' cs'(1) len slot by simp
    ultimately show ?thesis using False by simp
  qed
  then show "om_ok m" "om_drain m = op_drain p" "om_slot m = op_slot p" "ctxs_inv cs'" "ctxs_ext cs cs'"
    "op_drain p \<Longrightarrow> om_values m = oc_values ?c \<and> cs' = cs" by auto
  show "owed cs' (qs @ ps)" if o: "owed cs (qs @ p # ps)" for qs ps
    unfolding owed_def
  proof (intro allI impI)
    fix i seg assume i: "i < kContexts" "seg < kSegments" "oc_segmentState (cs' ! i) ! seg = 1"
    moreover have "tile_step (cs ! i) (cs' ! i)" using all i(1) by (simp add: ctxs_ext_def)
    ultimately have "oc_segmentState (cs ! i) ! seg = 1" by (force simp: tile_step_def)
    with o i obtain q where q: "q \<in> set (qs @ p # ps)" "op_slot q = i" "\<not> op_drain q" "covers q seg"
      unfolding owed_def by blast
    then have "q \<noteq> p" using all i by auto
    with q show "\<exists>p \<in> set (qs @ ps). op_slot p = i \<and> \<not> op_drain p \<and> covers p seg" by auto
  qed
  fix q assume q: "pend_inv cs q" "disjoint_ops p q"
  show "pend_inv cs' q"
  proof (cases "op_slot q = op_slot p \<and> \<not> op_drain p \<and> \<not> op_drain q")
    case True
    then have ok: "pend_ok p ?c" "pend_ok q ?c" and disj: "\<And>seg. \<not> (covers p seg \<and> covers q seg)"
      using p q by (auto simp: pend_inv_def disjoint_ops_def)
    obtain c' where c': "o_commit p ?c = (True, c')" using commit(1) [OF ok(1)] by (metis eq_fst_iff)
    have "cs' = cs[op_slot p := c']" using c m True c' by (auto simp: o_complete_def Let_def)
    moreover have "pend_ok q c'" using o_commit_others [OF inv(1) ok disj] c' by simp
    ultimately show ?thesis
      using True q(1) len commit c' by (auto simp: pend_inv_def o_matches_def)
  next
    case False
    show ?thesis
    proof (cases "op_drain p")
      case True
      then show ?thesis using all q by simp
    next
      case nd: False
      obtain ok c' where c': "o_commit p ?c = (ok, c')" by (cases "o_commit p ?c")
      then have "cs' = cs[op_slot p := c']" using c m nd by (auto simp: o_complete_def Let_def)
      then show ?thesis
        using False nd q(1) slot len commit(3-5) c'
        by (cases "op_slot q = op_slot p") (simp_all add: pend_inv_def o_matches_def)
    qed
  qed
qed

text \<open>A drain completion carries the replay of a log that covers every key tile.\<close>

definition drain_sound :: "o_context list \<Rightarrow> o_completion \<Rightarrow> bool" where
  "drain_sound cs m \<longleftrightarrow> om_slot m < kContexts \<and>
     (\<exists>log ext. oc_log (cs ! om_slot m) = log @ ext \<and>
       (\<forall>seg < kSegments. \<exists>n \<ge> oc_keyTiles (cs ! om_slot m). tiles_of seg log = [0..<n] \<and>
          (\<forall>lane < kValuesPerSegment.
             om_values m ! (seg * kValuesPerSegment + lane) = replay seg lane log)))"

lemma drain_sound_ext: "drain_sound cs m \<Longrightarrow> ctxs_ext cs cs' \<Longrightarrow> drain_sound cs' m"
  unfolding drain_sound_def ctxs_ext_def ctx_ext_def by (metis append.assoc)

lemma drain_sound_now:
  assumes "ctxs_inv cs" "pend_inv cs p" "op_drain p" "om_slot m = op_slot p"
    and "om_values m = oc_values (cs ! op_slot p)"
  shows "drain_sound cs m"
proof -
  let ?c = "cs ! op_slot p"
  have slot: "op_slot p < kContexts" "oc_draining ?c"
    using assms(2,3) by (auto simp: pend_inv_def o_matches_def)
  have inv: "ctx_inv ?c" "oc_keyTiles ?c \<le> oc_expectedKeyTile ?c"
    using assms(1) slot by (auto simp: ctxs_inv_def)
  show ?thesis
    unfolding drain_sound_def assms(4,5)
  proof (rule conjI [OF slot(1)], rule exI [of _ "oc_log ?c"], rule exI [of _ "[]"], intro conjI allI impI)
    fix seg assume seg: "seg < kSegments"
    let ?n = "oc_expectedKeyTile ?c + (if oc_segmentState ?c ! seg = 2 then 1 else 0)"
    have "tiles_of seg (oc_log ?c) = [0..<?n]" "oc_keyTiles ?c \<le> ?n"
      using inv seg unfolding ctx_inv_def by (blast, simp)
    moreover have "\<forall>lane < kValuesPerSegment.
        oc_values ?c ! (seg * kValuesPerSegment + lane) = replay seg lane (oc_log ?c)"
      using inv seg unfolding ctx_inv_def by blast
    ultimately show "\<exists>n \<ge> oc_keyTiles ?c. tiles_of seg (oc_log ?c) = [0..<n] \<and>
      (\<forall>lane < kValuesPerSegment. oc_values ?c ! (seg * kValuesPerSegment + lane) = replay seg lane (oc_log ?c))"
      by blast
  qed simp
qed

lemma o_progress_loop_inv:
  assumes "ctxs_inv cs" "\<forall>p \<in> set (qs @ ps). pend_inv cs p" "sorted_wrt disjoint_ops (qs @ ps)"
    and "owed cs (qs @ ps)" and "o_progress_loop now ps cs = (ms, kept, cs')"
  shows "ctxs_inv cs' \<and> owed cs' (qs @ kept) \<and> ctxs_ext cs cs' \<and> (\<forall>p \<in> set (qs @ kept). pend_inv cs' p) \<and>
    (\<forall>m \<in> set ms. om_ok m \<and> (om_drain m \<longrightarrow> drain_sound cs' m))"
  using assms
proof (induction ps arbitrary: qs cs ms kept)
  case Nil
  then show ?case by (simp add: ctxs_ext_def tile_step_refl)
next
  case (Cons p ps)
  show ?case
  proof (cases "op_readyCycle p > now")
    case True
    then obtain kept' where *: "kept = p # kept'" "o_progress_loop now ps cs = (ms, kept', cs')"
      using Cons.prems(5) by (auto split: prod.splits)
    show ?thesis using Cons.IH [of cs "qs @ [p]" ms kept'] Cons.prems(1-4) * by simp
  next
    case False
    obtain m cs1 where c: "o_complete p cs = (m, cs1)" by (cases "o_complete p cs")
    obtain ms' where *: "ms = m # ms'" "o_progress_loop now ps cs1 = (ms', kept, cs')"
      using Cons.prems(5) False c by (auto split: prod.splits)
    have p: "pend_inv cs p" using Cons.prems by simp
    note fin = o_complete_ok [OF Cons.prems(1) p c]
    have rest: "\<forall>q \<in> set (qs @ ps). pend_inv cs1 q"
      using fin(7) Cons.prems(2,3) by (auto simp: sorted_wrt_append disjoint_ops_sym)
    have "sorted_wrt disjoint_ops (qs @ ps)"
      using Cons.prems(3) by (auto simp: sorted_wrt_append)
    note IH = Cons.IH [OF fin(4) rest this fin(8) [OF Cons.prems(4)] *(2)]
    have "om_drain m \<longrightarrow> drain_sound cs' m"
      using drain_sound_now [OF Cons.prems(1) p, of m] fin(2,3,6) IH drain_sound_ext by auto
    with IH fin(1,5) *(1) show ?thesis by (auto intro: ctxs_ext_trans)
  qed
qed

lemma o_progress_loop_kept:
  "o_progress_loop now ps cs = (ms, kept, cs') \<Longrightarrow>
    kept = filter (\<lambda>p. now < op_readyCycle p) ps \<and>
    map om_id ms = map op_id (filter (\<lambda>p. op_readyCycle p \<le> now) ps)"
proof (induction ps arbitrary: cs ms kept)
  case Nil
  then show ?case by simp
next
  case (Cons p ps)
  have id: "om_id (fst (o_complete p cs)) = op_id p" for cs
    by (simp add: o_complete_def Let_def split: prod.splits)
  show ?case
    using Cons.prems id [of cs]
    by (auto split: if_splits prod.splits dest!: Cons.IH)
qed

section \<open>Preservation\<close>

lemma o_init_inv: "o_inv o_init"
proof -
  have "ctx_inv empty_context"
    by (auto simp: ctx_inv_def empty_context_def tiles_of_def replay_def o_consts)
  then show ?thesis
    by (auto simp: o_inv_def o_init_def ctxs_inv_def o_ports_def port_ok_def bu_reset_def
        empty_context_def owed_def o_consts)
qed

lemma o_inv_data:
  assumes "o_inv a" "o_data b = o_data a" "o_ports b"
  shows "o_inv b"
  using assms by (simp add: o_inv_def o_data_def)

lemma o_progress_inv:
  assumes "o_inv a"
  shows "o_inv (snd (o_progress now a))"
proof -
  obtain ms kept cs' where l: "o_progress_loop now (oa_pending a) (oa_contexts a) = (ms, kept, cs')"
    using prod_cases3 by blast
  have "ctxs_inv cs' \<and> owed cs' ([] @ kept) \<and> ctxs_ext (oa_contexts a) cs' \<and> (\<forall>p \<in> set ([] @ kept). pend_inv cs' p) \<and>
      (\<forall>m \<in> set ms. om_ok m \<and> (om_drain m \<longrightarrow> drain_sound cs' m))"
    by (rule o_progress_loop_inv [OF _ _ _ _ l]) (use assms in \<open>auto simp: o_inv_def\<close>)
  moreover have "kept = filter (\<lambda>p. now < op_readyCycle p) (oa_pending a)"
    using o_progress_loop_kept [OF l] by simp
  moreover have "count_if oc_valid cs' = count_if oc_valid (oa_contexts a)"
    if "ctxs_inv cs'" "ctxs_ext (oa_contexts a) cs'" "ctxs_inv (oa_contexts a)"
    using that unfolding count_if_card ctxs_inv_def ctxs_ext_def ctx_ext_def
    by (intro arg_cong [where f = card]) auto
  ultimately show ?thesis
    using assms l by (simp add: o_inv_def o_progress_def sorted_wrt_filter sorted_wrt_map)
qed

lemma owed_update:
  assumes "owed cs ps" "set ps \<subseteq> set ps'"
    and "\<And>seg. seg < kSegments \<Longrightarrow> oc_segmentState c ! seg = 1 \<Longrightarrow> oc_segmentState (cs ! slot) ! seg = 1"
  shows "owed (cs[slot := c]) ps'"
  unfolding owed_def
proof (intro allI impI)
  fix i seg assume i: "i < kContexts" "seg < kSegments" "oc_segmentState (cs[slot := c] ! i) ! seg = 1"
  then have "oc_segmentState (cs ! i) ! seg = 1"
    using assms(3) by (cases "i = slot \<and> slot < length cs") (auto simp: list_update_beyond)
  with i assms(1,2) show "\<exists>p \<in> set ps'. op_slot p = i \<and> \<not> op_drain p \<and> covers p seg"
    unfolding owed_def by blast
qed

lemma pend_inv_other_slot:
  "pend_inv cs p \<Longrightarrow> op_slot p \<noteq> slot \<Longrightarrow> pend_inv (cs[slot := c]) p"
  by (simp add: pend_inv_def o_matches_def)

text \<open>Marking free segments as submitted keeps the context and its pending operations.\<close>

lemma submit_ctx_inv:
  assumes inv: "ctx_inv c" and v: "oc_valid c" and free: "\<And>i. i < kSegments \<Longrightarrow> st ! i \<noteq> oc_segmentState c ! i \<Longrightarrow> st ! i = 1 \<and> oc_segmentState c ! i = 0"
    and len: "length st = kSegments"
  shows "ctx_inv (c\<lparr>oc_segmentState := st\<rparr>)"
proof -
  have two: "(st ! i = 2) = (oc_segmentState c ! i = 2)" if "i < kSegments" for i
    using free [OF that] by force
  have "count_if (\<lambda>s. s = 2) st = count_if (\<lambda>s. s = 2) (oc_segmentState c)"
    using two len inv unfolding count_if_card ctx_inv_def
    by (intro arg_cong [where f = card]) auto
  moreover have "st ! i \<le> 2" if "i < kSegments" for i
    using free [OF that] inv that by (cases "st ! i = oc_segmentState c ! i") (auto simp: ctx_inv_def)
  ultimately show ?thesis using inv v len two by (auto simp: ctx_inv_def)
qed

lemma submit_inv:
  assumes inv: "o_inv a" and m: "o_matches slot tag (oa_contexts a)"
    and c: "c = oa_contexts a ! slot" and dr: "\<not> oc_draining c"
    and p: "op_id p = oa_nextId a" "op_slot p = slot" "op_tag p = tag" "\<not> op_drain p" "op_wf p"
      "op_kvTileIndex p = oc_expectedKeyTile c"
    and free: "\<And>seg. covers p seg \<Longrightarrow> oc_segmentState c ! seg = 0"
    and st: "st = fill_range (op_segment p) (op_committed p) 1 (oc_segmentState c)"
    and b: "oa_nextId b = oa_nextId a + 1" "oa_contexts b = (oa_contexts a)[slot := c\<lparr>oc_segmentState := st\<rparr>]"
      "oa_pending b = oa_pending a @ [p]" "oa_occupied b = oa_occupied a" "o_ports b"
  shows "o_inv b"
proof -
  have slot: "slot < kContexts" "oc_valid c" "oc_tag c = tag" using m c by (auto simp: o_matches_def)
  have len: "length (oa_contexts a) = kContexts" and ctx: "ctx_inv c"
    using inv slot c by (auto simp: o_inv_def ctxs_inv_def)
  have lst: "length (oc_segmentState c) = kSegments" using ctx by (simp add: ctx_inv_def)
  have nth: "st ! i = (if covers p i then 1 else oc_segmentState c ! i)" if "i < kSegments" for i
    using that lst by (simp add: st nth_fill_range covers_def)
  have ctx': "ctx_inv (c\<lparr>oc_segmentState := st\<rparr>)"
    by (rule submit_ctx_inv [OF ctx slot(2)]) (use nth free in metis, simp add: st lst)
  have "ctxs_inv (oa_contexts b)"
    unfolding b(2) by (rule ctxs_inv_update) (use inv ctx' dr in \<open>auto simp: o_inv_def\<close>)
  moreover have p_inv: "pend_inv (oa_contexts b) p"
    using p slot len nth op_wf_bound(2) [OF p(5)] by (auto simp: pend_inv_def o_matches_def b(2) pend_ok_def)
  moreover have old: "pend_inv (oa_contexts b) q \<and> disjoint_ops q p" if q: "q \<in> set (oa_pending a)" for q
  proof -
    have qi: "pend_inv (oa_contexts a) q" using inv q by (simp add: o_inv_def)
    show ?thesis
    proof (cases "op_slot q = slot")
      case False
      then show ?thesis using pend_inv_other_slot [OF qi] p b(2) by (auto simp: disjoint_ops_def)
    next
      case True
      have nd: "\<not> op_drain q" using qi dr True c by (auto simp: pend_inv_def)
      then have ok: "pend_ok q c" using qi True c by (simp add: pend_inv_def)
      have disj: "\<not> covers p seg" if "covers q seg" for seg
        using that ok free [of seg] by (auto simp: pend_ok_def)
      have "pend_ok q (c\<lparr>oc_segmentState := st\<rparr>)"
        using ok disj nth op_wf_bound(2) [of q] by (auto simp: pend_ok_def)
      then show ?thesis
        using True nd disj qi slot len p b(2) c by (auto simp: pend_inv_def o_matches_def disjoint_ops_def)
    qed
  qed
  moreover have "count_if oc_valid (oa_contexts b) = count_if oc_valid (oa_contexts a)"
    unfolding b(2) by (rule count_if_update_same) (use slot len c in auto)
  moreover have "owed (oa_contexts b) (oa_pending b)"
    unfolding owed_def
  proof (intro allI impI)
    fix i seg assume i: "i < kContexts" "seg < kSegments" "oc_segmentState (oa_contexts b ! i) ! seg = 1"
    have "i = slot \<and> covers p seg \<or> oc_segmentState (oa_contexts a ! i) ! seg = 1"
    proof (cases "i = slot")
      case True
      then have "st ! seg = 1" using i(3) len slot(1) by (simp add: b(2))
      then have "covers p seg \<or> oc_segmentState c ! seg = 1" using nth [OF i(2)] by metis
      then show ?thesis unfolding True c by blast
    next
      case False
      then show ?thesis using i(3) by (simp add: b(2))
    qed
    then show "\<exists>p \<in> set (oa_pending b). op_slot p = i \<and> \<not> op_drain p \<and> covers p seg"
      using inv i p by (auto simp: b(3) o_inv_def owed_def)
  qed
  moreover have "op_id q < oa_nextId a" if "q \<in> set (oa_pending a)" for q
    using inv that by (simp add: o_inv_def)
  moreover have "sorted_wrt disjoint_ops (oa_pending a)" "sorted_wrt (<) (map op_id (oa_pending a))"
    using inv by (auto simp: o_inv_def)
  ultimately show ?thesis
    using inv p(1) b by (force simp: o_inv_def sorted_wrt_append less_Suc_eq)
qed

lemma o_submitSegment_inv:
  assumes inv: "o_inv a"
  shows "o_inv (snd (o_submitSegment slot tag kv row panel alpha values now ptrs a))"
proof (cases "fst (o_submitSegment slot tag kv row panel alpha values now ptrs a)")
  case None
  then show ?thesis using inv by (auto simp: o_submitSegment_def Let_def split: if_splits prod.splits)
next
  case (Some r)
  let ?c = "oa_contexts a ! slot"
  let ?cursor = "max now (oa_bankReadyCycle a ! row)"
  let ?a0 = "a\<lparr>oa_bankConflictCycles := oa_bankConflictCycles a + (?cursor - now)\<rparr>"
  obtain w a1 where sched: "o_schedule kv row ?cursor 1 ?a0 = (w, a1)" by (cases "o_schedule kv row ?cursor 1 ?a0")
  define p where "p = default_pending\<lparr>op_id := oa_nextId a1, op_readyCycle := w + 1,
      op_slot := slot, op_tag := tag, op_kvTileIndex := kv, op_row := row,
      op_panel := panel, op_alpha := alpha, op_values := values\<rparr>"
  have guard: "o_matches slot tag (oa_contexts a)" "row < kRows" "panel < kPanels"
      "length values = kValuesPerSegment" "\<not> oc_draining ?c" "kv = oc_expectedKeyTile ?c"
      "oc_segmentState ?c ! (row * kPanels + panel) = 0"
    using Some by (auto simp: o_submitSegment_def Let_def not_le split: if_splits)
  have data: "o_data a1 = o_data a" "o_ports a1"
    using o_schedule_data [of kv row ?cursor 1 ?a0] o_schedule_ports [of ?a0 kv row ?cursor 1] sched inv
    by (auto simp: o_inv_def)
  have out: "snd (o_submitSegment slot tag kv row panel alpha values now ptrs a) =
      a1\<lparr>oa_nextId := oa_nextId a1 + 1,
         oa_contexts := (oa_contexts a1)[slot := ?c\<lparr>oc_segmentState := (oc_segmentState ?c)[row * kPanels + panel := 1]\<rparr>],
         oa_pending := oa_pending a1 @ [p], oa_accumulateOperations := oa_accumulateOperations a1 + 1\<rparr>"
    using Some sched by (auto simp: o_submitSegment_def Let_def p_def split: if_splits)
  show ?thesis
    unfolding out
    by (rule submit_inv [OF inv guard(1) refl guard(5), where p = p])
       (use guard data in \<open>auto simp: p_def default_pending_def o_data_def op_wf_def op_payload_def
          op_committed_def op_segment_def covers_def fill_range_def less_Suc_eq_le dest: le_antisym\<close>)
qed

lemma o_submitRow_inv:
  assumes inv: "o_inv a"
  shows "o_inv (snd (o_submitRow slot tag kv row alpha values now ptrs a))"
proof (cases "fst (o_submitRow slot tag kv row alpha values now ptrs a)")
  case None
  then show ?thesis using inv by (auto simp: o_submitRow_def Let_def split: if_splits prod.splits)
next
  case (Some r)
  let ?c = "oa_contexts a ! slot"
  let ?cursor = "max now (oa_bankReadyCycle a ! row)"
  obtain w a1 where sched: "o_schedule kv row ?cursor kPanels a = (w, a1)" by (cases "o_schedule kv row ?cursor kPanels a")
  define p where "p = default_pending\<lparr>op_id := oa_nextId a1, op_readyCycle := w + 1,
      op_slot := slot, op_tag := tag, op_kvTileIndex := kv, op_row := row,
      op_rowFused := True, op_alpha := alpha, op_rowValues := values\<rparr>"
  have guard: "o_matches slot tag (oa_contexts a)" "row < kRows"
      "length values = kRowFmaLanes" "\<not> oc_draining ?c" "kv = oc_expectedKeyTile ?c"
      "\<forall>s \<in> set (range_of (oc_segmentState ?c) (row * kPanels) kPanels). s = 0"
    using Some by (auto simp: o_submitRow_def Let_def not_le split: if_splits)
  have "length (oc_segmentState ?c) = kSegments"
    using inv guard(1) by (auto simp: o_inv_def ctxs_inv_def ctx_inv_def o_matches_def)
  then have bound: "row * kPanels + kPanels \<le> length (oc_segmentState ?c)"
    using guard(2) by (simp add: o_consts)
  have free: "oc_segmentState ?c ! seg = 0" if "row * kPanels \<le> seg" "seg < row * kPanels + kPanels" for seg
    using guard(6) that unfolding set_range_of [OF bound] by blast
  have data: "o_data a1 = o_data a" "o_ports a1"
    using o_schedule_data [of kv row ?cursor kPanels a] o_schedule_ports [of a kv row ?cursor kPanels] sched inv
    by (auto simp: o_inv_def)
  have out: "snd (o_submitRow slot tag kv row alpha values now ptrs a) =
      a1\<lparr>oa_nextId := oa_nextId a1 + 1,
         oa_contexts := (oa_contexts a1)[slot := ?c\<lparr>oc_segmentState := fill_range (row * kPanels) kPanels 1 (oc_segmentState ?c)\<rparr>],
         oa_pending := oa_pending a1 @ [p], oa_accumulateOperations := oa_accumulateOperations a1 + kPanels,
         oa_rowOperations := oa_rowOperations a1 + 1\<rparr>"
    using Some sched by (auto simp: o_submitRow_def Let_def p_def split: if_splits)
  show ?thesis
    unfolding out
    by (rule submit_inv [OF inv guard(1) refl guard(4), where p = p])
       (use guard data free in \<open>auto simp: p_def default_pending_def o_data_def op_wf_def op_payload_def
          op_committed_def op_segment_def covers_def kRowFmaLanes_def kValuesPerSegment_def kPanels_def\<close>)
qed

lemma o_requestDrain_inv:
  assumes inv: "o_inv a"
  shows "o_inv (snd (o_requestDrain slot tag now ptrs a))"
proof (cases "fst (o_requestDrain slot tag now ptrs a)")
  case None
  then show ?thesis using inv by (auto simp: o_requestDrain_def Let_def split: if_splits prod.splits)
next
  case (Some r)
  let ?c = "oa_contexts a ! slot" and ?c' = "(oa_contexts a ! slot)\<lparr>oc_draining := True\<rparr>"
  obtain t a1 where reads: "fold drain_read drain_rows (now, a) = (t, a1)"
    by (cases "fold drain_read drain_rows (now, a)")
  define p where "p = default_pending\<lparr>op_id := oa_nextId a1, op_readyCycle := t,
      op_slot := slot, op_tag := tag, op_drain := True\<rparr>"
  define b where "b = snd (o_requestDrain slot tag now ptrs a)"
  have m: "o_matches slot tag (oa_contexts a)" and full: "oc_expectedKeyTile ?c = oc_keyTiles ?c"
    using Some by (auto simp: o_requestDrain_def Let_def split: if_splits)
  have data: "o_data a1 = o_data a" "o_ports a1"
    using drain_reads_keep [of drain_rows "(now, a)"] reads inv by (auto simp: o_inv_def)
  have b: "oa_nextId b = oa_nextId a + 1" "oa_contexts b = (oa_contexts a)[slot := ?c']"
      "oa_pending b = oa_pending a @ [p]" "oa_occupied b = oa_occupied a" "o_ports b"
    using Some reads data by (auto simp: b_def o_requestDrain_def Let_def p_def o_data_def split: if_splits)
  have slot: "slot < kContexts" "oc_valid ?c" "oc_tag ?c = tag" using m by (auto simp: o_matches_def)
  have len: "length (oa_contexts a) = kContexts" and ctx: "ctx_inv ?c"
    using inv slot by (auto simp: o_inv_def ctxs_inv_def)
  have "ctxs_inv (oa_contexts b)"
    unfolding b(2) by (rule ctxs_inv_update) (use inv ctx slot full in \<open>auto simp: o_inv_def ctx_inv_def\<close>)
  moreover have "pend_inv (oa_contexts b) p"
    using slot len by (simp add: p_def pend_inv_def o_matches_def b(2))
  moreover have "pend_inv (oa_contexts b) q \<and> op_id q < oa_nextId a" if "q \<in> set (oa_pending a)" for q
    using inv that slot len unfolding b(2)
    by (cases "op_slot q = slot") (auto simp: o_inv_def pend_inv_def o_matches_def pend_ok_def)
  moreover have "count_if oc_valid (oa_contexts b) = count_if oc_valid (oa_contexts a)"
    unfolding b(2) by (rule count_if_update_same) (use slot len in auto)
  moreover have "disjoint_ops q p" for q by (simp add: disjoint_ops_def p_def)
  moreover have "owed (oa_contexts b) (oa_pending b)"
    unfolding b(2,3) by (rule owed_update) (use inv in \<open>auto simp: o_inv_def\<close>)
  moreover have "op_id p = oa_nextId a" using data by (simp add: p_def o_data_def)
  ultimately show ?thesis
    using inv b unfolding b_def [symmetric] by (force simp: o_inv_def sorted_wrt_append less_Suc_eq)
qed

lemma o_reserve_inv:
  assumes inv: "o_inv a"
  shows "o_inv (snd (o_reserve slot tag keyTiles a))"
proof (cases "fst (o_reserve slot tag keyTiles a)")
  case False
  then show ?thesis using inv by (auto simp: o_reserve_def Let_def split: if_splits)
next
  case True
  then have slot: "slot < kContexts" "\<not> oc_valid (oa_contexts a ! slot)"
    by (auto simp: o_reserve_def Let_def split: if_splits)
  have len: "length (oa_contexts a) = kContexts" and c: "oa_contexts a ! slot = empty_context"
    using inv slot by (auto simp: o_inv_def ctxs_inv_def ctx_inv_def)
  define c' where "c' = empty_context\<lparr>oc_valid := True, oc_tag := tag, oc_keyTiles := keyTiles\<rparr>"
  have out: "snd (o_reserve slot tag keyTiles a) =
      a\<lparr>oa_contexts := (oa_contexts a)[slot := c'], oa_occupied := oa_occupied a + 1,
        oa_highWater := max (oa_highWater a) (oa_occupied a + 1)\<rparr>"
    using True c by (auto simp: o_reserve_def Let_def c'_def empty_context_def split: if_splits)
  have "ctxs_inv ((oa_contexts a)[slot := c'])"
    by (rule ctxs_inv_update)
       (use inv in \<open>auto simp: o_inv_def c'_def ctx_inv_def empty_context_def tiles_of_def replay_def o_consts\<close>)
  moreover have "pend_inv ((oa_contexts a)[slot := c']) q" if "q \<in> set (oa_pending a)" for q
  proof (rule pend_inv_other_slot)
    show "pend_inv (oa_contexts a) q" using inv that by (simp add: o_inv_def)
    then show "op_slot q \<noteq> slot" using slot by (auto simp: pend_inv_def o_matches_def)
  qed
  moreover have "count_if oc_valid ((oa_contexts a)[slot := c']) = Suc (count_if oc_valid (oa_contexts a))"
    by (rule count_if_update) (use slot len in \<open>auto simp: c'_def\<close>)
  moreover have "owed ((oa_contexts a)[slot := c']) (oa_pending a)"
    by (rule owed_update) (use inv in \<open>auto simp: o_inv_def c'_def empty_context_def\<close>)
  ultimately show ?thesis using inv by (simp add: out o_inv_def)
qed

lemma o_release_inv:
  assumes inv: "o_inv a"
  shows "o_inv (snd (o_release slot tag a))"
proof (cases "fst (o_release slot tag a)")
  case False
  then show ?thesis using inv by (auto simp: o_release_def split: if_splits)
next
  case True
  then have slot: "slot < kContexts" "oc_valid (oa_contexts a ! slot)" "oc_tag (oa_contexts a ! slot) = tag"
      and none: "\<not> o_hasPending slot tag a"
    by (auto simp: o_release_def o_matches_def split: if_splits)
  have len: "length (oa_contexts a) = kContexts" using inv by (auto simp: o_inv_def ctxs_inv_def)
  have "ctxs_inv ((oa_contexts a)[slot := empty_context])"
    by (rule ctxs_inv_update)
       (use inv in \<open>auto simp: o_inv_def ctx_inv_def empty_context_def tiles_of_def replay_def o_consts\<close>)
  moreover have "pend_inv ((oa_contexts a)[slot := empty_context]) q" if "q \<in> set (oa_pending a)" for q
  proof (rule pend_inv_other_slot)
    show "pend_inv (oa_contexts a) q" using inv that by (simp add: o_inv_def)
    then show "op_slot q \<noteq> slot" using slot none that by (auto simp: pend_inv_def o_matches_def o_hasPending_def)
  qed
  moreover have "Suc (count_if oc_valid ((oa_contexts a)[slot := empty_context])) = count_if oc_valid (oa_contexts a)"
    by (rule count_if_update_less) (use slot len in \<open>auto simp: empty_context_def\<close>)
  moreover have "owed ((oa_contexts a)[slot := empty_context]) (oa_pending a)"
    by (rule owed_update) (use inv in \<open>auto simp: o_inv_def empty_context_def\<close>)
  ultimately show ?thesis
    using inv True by (auto simp: o_release_def o_inv_def split: if_splits)
qed

lemma o_cancelGeneration_inv:
  assumes inv: "o_inv a"
  shows "o_inv (snd (o_cancelGeneration g a))"
proof -
  define hit where "hit = (\<lambda>c :: o_context. oc_valid c \<and> tag_generation (oc_tag c) = g)"
  define cs where "cs = map (\<lambda>c. if hit c then empty_context else c) (oa_contexts a)"
  have len: "length (oa_contexts a) = kContexts" using inv by (auto simp: o_inv_def ctxs_inv_def)
  have "ctxs_inv cs"
    using inv len by (auto simp: cs_def ctxs_inv_def o_inv_def ctx_inv_def empty_context_def tiles_of_def replay_def o_consts)
  moreover have "pend_inv cs q" if "q \<in> set (oa_pending a)" "tag_generation (op_tag q) \<noteq> g" for q
  proof -
    have qi: "pend_inv (oa_contexts a) q" using inv that by (simp add: o_inv_def)
    then have "cs ! op_slot q = oa_contexts a ! op_slot q"
      using that len by (auto simp: cs_def hit_def pend_inv_def o_matches_def)
    with qi len show ?thesis by (simp add: pend_inv_def o_matches_def)
  qed
  moreover have "count_if oc_valid cs + count_if hit (oa_contexts a) = count_if oc_valid (oa_contexts a)"
  proof -
    have "count_if oc_valid (map (\<lambda>c. if hit c then empty_context else c) xs) + count_if hit xs = count_if oc_valid xs" for xs
      by (induction xs) (auto simp: hit_def empty_context_def)
    then show ?thesis unfolding cs_def .
  qed
  moreover have "oa_occupied a = count_if oc_valid (oa_contexts a)" using inv by (simp add: o_inv_def)
  moreover have "owed cs (filter (\<lambda>p. tag_generation (op_tag p) \<noteq> g) (oa_pending a))"
    unfolding owed_def
  proof (intro allI impI)
    fix i seg assume i: "i < kContexts" "seg < kSegments" "oc_segmentState (cs ! i) ! seg = 1"
    then have nh: "cs ! i = oa_contexts a ! i" "\<not> hit (oa_contexts a ! i)"
      using len by (auto simp: cs_def empty_context_def split: if_splits)
    then obtain p where p: "p \<in> set (oa_pending a)" "op_slot p = i" "\<not> op_drain p" "covers p seg"
      using inv i by (auto simp: o_inv_def owed_def)
    then have "o_matches i (op_tag p) (oa_contexts a)" using inv by (auto simp: o_inv_def pend_inv_def)
    with p nh show "\<exists>p \<in> set (filter (\<lambda>p. tag_generation (op_tag p) \<noteq> g) (oa_pending a)).
        op_slot p = i \<and> \<not> op_drain p \<and> covers p seg"
      by (auto simp: o_matches_def hit_def)
  qed
  ultimately show ?thesis
    using inv
    by (auto simp: o_cancelGeneration_def Let_def o_inv_def hit_def [symmetric] cs_def [symmetric]
        sorted_wrt_filter sorted_wrt_map)
qed

section \<open>Histories\<close>

datatype o_op =
    OReserve nat cluster_tag nat
  | OSubmitSegment nat cluster_tag nat nat nat float32 "float32 list" cycle
  | OSubmitRow nat cluster_tag nat nat float32 "float32 list" cycle
  | ODrain nat cluster_tag cycle
  | OProgress cycle
  | ORelease nat cluster_tag
  | OCancel nat

primrec o_step :: "o_op \<Rightarrow> o_acc \<Rightarrow> o_acc" where
  "o_step (OReserve s t k) a = snd (o_reserve s t k a)"
| "o_step (OSubmitSegment s t kv r p al vs now) a = snd (o_submitSegment s t kv r p al vs now True a)"
| "o_step (OSubmitRow s t kv r al vs now) a = snd (o_submitRow s t kv r al vs now True a)"
| "o_step (ODrain s t now) a = snd (o_requestDrain s t now True a)"
| "o_step (OProgress now) a = snd (o_progress now a)"
| "o_step (ORelease s t) a = snd (o_release s t a)"
| "o_step (OCancel g) a = snd (o_cancelGeneration g a)"

lemmas o_preserve [golem_inv] = o_reserve_inv o_submitSegment_inv o_submitRow_inv o_requestDrain_inv
  o_progress_inv o_release_inv o_cancelGeneration_inv

lemma o_step_inv: "o_inv a \<Longrightarrow> o_inv (o_step x a)"
  by (cases x) (simp_all add: golem_inv)

lemma o_run_inv: "o_inv a \<Longrightarrow> o_inv (fold o_step ops a)"
  by (induction ops arbitrary: a) (simp_all add: o_step_inv)

definition o_owner :: "o_acc \<Rightarrow> nat \<Rightarrow> cluster_tag option" where
  "o_owner a i = (if i < kContexts \<and> oc_valid (oa_contexts a ! i) then Some (oc_tag (oa_contexts a ! i)) else None)"

interpretation oacc: tag_slots o_owner o_reserve o_release o_cancelGeneration o_inv
proof
  fix a a' :: o_acc and i t k
  show "o_inv a \<Longrightarrow> o_inv (snd (o_reserve i t k a))" by (rule o_reserve_inv)
  show "o_inv a \<Longrightarrow> o_inv (snd (o_release i t a))" by (rule o_release_inv)
  show "o_inv a \<Longrightarrow> o_inv (snd (o_cancelGeneration k a))" by (rule o_cancelGeneration_inv)
  have len: "o_inv a \<Longrightarrow> length (oa_contexts a) = kContexts" by (simp add: o_inv_def ctxs_inv_def)
  show "o_inv a \<Longrightarrow> o_reserve i t k a = (True, a') \<Longrightarrow>
      o_owner a i = None \<and> o_owner a' = (o_owner a)(i \<mapsto> t)"
    using len by (auto simp: o_reserve_def Let_def o_owner_def fun_eq_iff nth_list_update not_le split: if_splits)
  show "o_reserve i t k a = (False, a') \<Longrightarrow> a' = a"
    by (auto simp: o_reserve_def Let_def split: if_splits)
  show "o_inv a \<Longrightarrow> o_release i t a = (True, a') \<Longrightarrow>
      o_owner a i = Some t \<and> o_owner a' = (o_owner a)(i := None)"
    using len by (auto simp: o_release_def o_matches_def o_owner_def fun_eq_iff nth_list_update
        empty_context_def split: if_splits)
  show "o_release i t a = (False, a') \<Longrightarrow> a' = a"
    by (auto simp: o_release_def split: if_splits)
  show "o_inv a \<Longrightarrow> o_owner (snd (o_cancelGeneration k a)) i =
      (case o_owner a i of None \<Rightarrow> None | Some t \<Rightarrow> if tag_generation t = k then None else Some t)"
    using len by (auto simp: o_cancelGeneration_def Let_def o_owner_def empty_context_def)
qed

text \<open>C13: after any sequence of operations the accumulator's bookkeeping is sound: the
  recorded busy intervals of the read, ALU and write port were all in order, no port ever
  served two operations in one cycle, \<open>occupied_\<close> counts the valid contexts and is at most
  four, and the pending operations carry distinct, increasing ids.\<close>

theorem o_ports_exclusive:
  "let a = fold o_step ops o_init in
     oa_intervalOrderValid a \<and>
     bu_maxConcurrency (oa_readIntervals a) \<le> 1 \<and> bu_maxConcurrency (oa_aluIntervals a) \<le> 1 \<and>
     bu_maxConcurrency (oa_writeIntervals a) \<le> 1 \<and>
     oa_occupied a = count_if oc_valid (oa_contexts a) \<and> oa_occupied a \<le> 4 \<and>
     sorted_wrt (<) (map op_id (oa_pending a))"
proof -
  define a where "a = fold o_step ops o_init"
  have "o_inv a" unfolding a_def by (rule o_run_inv [OF o_init_inv])
  then show ?thesis
    using count_if_le [of oc_valid "oa_contexts a"] unfolding a_def [symmetric]
    by (auto simp: o_inv_def o_ports_def port_ok_def ctxs_inv_def kContexts_def Let_def)
qed

text \<open>C12: \<open>progress\<close> completes, in id order, exactly the pending operations whose ready cycle
  has come; every completion is accepted (\<open>ok\<close>): no operation that was accepted at
  submission is ever rejected at commit time, whatever was submitted in between.\<close>

theorem o_progress_completes:
  "case o_progress now (fold o_step ops o_init) of (ms, a') \<Rightarrow>
     map om_id ms = map op_id (filter (\<lambda>p. op_readyCycle p \<le> now) (oa_pending (fold o_step ops o_init))) \<and>
     list_all om_ok ms \<and>
     oa_pending a' = filter (\<lambda>p. now < op_readyCycle p) (oa_pending (fold o_step ops o_init))"
proof -
  define a where "a = fold o_step ops o_init"
  have inv: "o_inv a" unfolding a_def by (rule o_run_inv [OF o_init_inv])
  obtain ms kept cs' where l: "o_progress_loop now (oa_pending a) (oa_contexts a) = (ms, kept, cs')"
    using prod_cases3 by blast
  have "list_all om_ok ms"
    using o_progress_loop_inv [OF _ _ _ _ l, of "[]"] inv by (auto simp: o_inv_def list_all_iff)
  then show ?thesis
    unfolding a_def [symmetric] using o_progress_loop_kept [OF l] l by (simp add: o_progress_def)
qed

lemma tile_completes:
  assumes inv: "o_inv a" and slot: "slot < kContexts"
    and st: "\<forall>seg < kSegments. oc_segmentState (oa_contexts a ! slot) ! seg \<noteq> 0"
    and ready: "\<forall>p \<in> set (oa_pending a). op_slot p = slot \<longrightarrow> op_readyCycle p \<le> now"
  shows "oc_expectedKeyTile (oa_contexts (snd (o_progress now a)) ! slot) =
      oc_expectedKeyTile (oa_contexts a ! slot) + 1 \<and>
    (\<forall>seg < kSegments. oc_segmentState (oa_contexts (snd (o_progress now a)) ! slot) ! seg = 0)"
proof -
  obtain ms kept cs' where l: "o_progress_loop now (oa_pending a) (oa_contexts a) = (ms, kept, cs')"
    using prod_cases3 by blast
  let ?c = "oa_contexts a ! slot" and ?c' = "cs' ! slot"
  have loop: "ctxs_inv cs' \<and> owed cs' ([] @ kept) \<and> ctxs_ext (oa_contexts a) cs' \<and>
      (\<forall>p \<in> set ([] @ kept). pend_inv cs' p) \<and>
      (\<forall>m \<in> set ms. om_ok m \<and> (om_drain m \<longrightarrow> drain_sound cs' m))"
    by (rule o_progress_loop_inv [OF _ _ _ _ l]) (use inv in \<open>auto simp: o_inv_def\<close>)
  have kept: "\<forall>p \<in> set kept. op_slot p \<noteq> slot" using o_progress_loop_kept [OF l] ready by auto
  then have no1: "oc_segmentState ?c' ! seg \<noteq> 1" if "seg < kSegments" for seg
    using loop slot that unfolding owed_def by auto
  have ctx': "ctx_inv ?c'" using loop slot by (auto simp: ctxs_inv_def)
  have step: "tile_step ?c ?c'" using loop slot by (simp add: ctxs_ext_def)
  have "oc_expectedKeyTile ?c' = oc_expectedKeyTile ?c + 1 \<and> (\<forall>seg < kSegments. oc_segmentState ?c' ! seg = 0)"
  proof (rule ccontr)
    assume "\<not> ?thesis"
    with step st have ne: "oc_segmentState ?c' ! seg \<noteq> 0" if "seg < kSegments" for seg
      using that unfolding tile_step_def by fastforce
    have "oc_segmentState ?c' ! seg = 2" if "seg < kSegments" for seg
    proof -
      have "oc_segmentState ?c' ! seg \<le> 2" using ctx' that by (simp add: ctx_inv_def)
      with ne [OF that] no1 [OF that] show ?thesis by linarith
    qed
    then have "count_if (\<lambda>s. s = 2) (oc_segmentState ?c') = length (oc_segmentState ?c')"
      unfolding count_if_full using ctx' by (auto simp: in_set_conv_nth ctx_inv_def)
    then show False using ctx' by (auto simp: ctx_inv_def)
  qed
  then show ?thesis by (simp add: o_progress_def l)
qed

lemma drained_values:
  assumes inv: "o_inv a" and pr: "o_progress now a = (ms, a')" and m: "m \<in> set ms" "om_drain m"
    and c: "c = oa_contexts a' ! om_slot m" and bound: "\<forall>p \<in> set (oc_log c). op_kvTileIndex p < oc_keyTiles c"
    and seg: "seg < kSegments" "lane < kValuesPerSegment"
  shows "tiles_of seg (oc_log c) = [0..<oc_keyTiles c] \<and>
    om_values m ! (seg * kValuesPerSegment + lane) = replay seg lane (oc_log c)"
proof -
  obtain kept cs' where l: "o_progress_loop now (oa_pending a) (oa_contexts a) = (ms, kept, cs')"
    and cs': "oa_contexts a' = cs'"
    using pr by (auto simp: o_progress_def split: prod.splits)
  have loop: "ctxs_inv cs' \<and> owed cs' ([] @ kept) \<and> ctxs_ext (oa_contexts a) cs' \<and>
      (\<forall>p \<in> set ([] @ kept). pend_inv cs' p) \<and>
      (\<forall>m \<in> set ms. om_ok m \<and> (om_drain m \<longrightarrow> drain_sound cs' m))"
    by (rule o_progress_loop_inv [OF _ _ _ _ l]) (use inv in \<open>auto simp: o_inv_def\<close>)
  then have "drain_sound cs' m" using m by simp
  then obtain log ext n where d: "om_slot m < kContexts" "oc_log c = log @ ext" "oc_keyTiles c \<le> n"
      "tiles_of seg log = [0..<n]"
      "\<forall>lane < kValuesPerSegment. om_values m ! (seg * kValuesPerSegment + lane) = replay seg lane log"
    using seg unfolding drain_sound_def c cs' by blast
  have lt: "\<forall>k \<in> set (tiles_of seg (oc_log c)). k < oc_keyTiles c"
    using bound by (auto simp: tiles_of_def)
  have "ctx_inv c" using loop d(1) by (auto simp: ctxs_inv_def c cs')
  then obtain k where k: "tiles_of seg (oc_log c) = [0..<k]"
    using seg unfolding ctx_inv_def by blast
  have app: "tiles_of seg (oc_log c) = tiles_of seg log @ tiles_of seg ext"
    by (simp add: d(2) tiles_of_def)
  have "k \<le> oc_keyTiles c" using lt k by (cases k) auto
  moreover have "n \<le> k" using app k d(4) by (metis diff_zero le_add1 length_append length_upt)
  ultimately have "k = oc_keyTiles c" "n = k" using d(3) by auto
  then have "tiles_of seg ext = []" using app k d(4) by simp
  then have "filter (\<lambda>p. covers p seg) ext = []" by (simp add: tiles_of_def)
  then have "replay seg lane (oc_log c) = replay seg lane log" by (simp add: replay_def d(2))
  with k \<open>k = oc_keyTiles c\<close> d(5) seg show ?thesis by simp
qed

text \<open>C2: when every segment of a context is submitted or committed for the expected key tile
  and \<open>progress\<close> runs at a cycle at which all operations pending on the context are ready,
  the context advances to the next key tile with all its segments free again.\<close>

theorem o_tile_completes:
  assumes "a = fold o_step ops o_init" and "slot < kContexts"
    and "\<forall>seg < kSegments. oc_segmentState (oa_contexts a ! slot) ! seg \<noteq> 0"
    and "\<forall>p \<in> set (oa_pending a). op_slot p = slot \<longrightarrow> op_readyCycle p \<le> now"
  shows "oc_expectedKeyTile (oa_contexts (snd (o_progress now a)) ! slot) =
      oc_expectedKeyTile (oa_contexts a ! slot) + 1 \<and>
    (\<forall>seg < kSegments. oc_segmentState (oa_contexts (snd (o_progress now a)) ! slot) ! seg = 0)"
  by (rule tile_completes [OF _ assms(2-4)]) (simp add: assms(1) o_run_inv o_init_inv)

text \<open>C1: a drain delivers the attention output: if no key tile beyond the reserved
  \<open>keyTiles\<close> was committed, each 16-lane segment of the drained context was accumulated from
  exactly the key tiles 0, 1, ..., \<open>keyTiles\<close>-1, once each and in this order, and every lane is
  the first tile's partial product followed by one rescale-and-add (fused multiply-add) per
  later tile.\<close>

theorem o_drain_delivers_replay:
  assumes "a = fold o_step ops o_init" and "o_progress now a = (ms, a')"
    and "m \<in> set ms" "om_drain m" and "c = oa_contexts a' ! om_slot m"
    and "\<forall>p \<in> set (oc_log c). op_kvTileIndex p < oc_keyTiles c"
    and "seg < kSegments" "lane < kValuesPerSegment"
  shows "tiles_of seg (oc_log c) = [0..<oc_keyTiles c] \<and>
    om_values m ! (seg * kValuesPerSegment + lane) = replay seg lane (oc_log c)"
  by (rule drained_values [OF _ assms(2-8)]) (simp add: assms(1) o_run_inv o_init_inv)

text \<open>A complete history for these statements: one context with one key tile, its sixteen rows
  submitted as fused row operations, committed and drained.\<close>

definition demo_otag :: cluster_tag where
  "demo_otag = default_tag\<lparr>tag_generation := 1\<rparr>"

definition demo_row :: "nat \<Rightarrow> o_op" where
  "demo_row r = OSubmitRow 0 demo_otag 0 r fone32 (replicate kRowFmaLanes fone32) 0"

definition demo_ops :: "nat \<Rightarrow> o_op list" where
  "demo_ops n = OReserve 0 demo_otag 1 # map demo_row [0..<n]"

definition latest :: "o_acc \<Rightarrow> cycle" where
  "latest a = foldr max (map op_readyCycle (oa_pending a)) 0"

definition demo_submitted :: o_acc where
  "demo_submitted = fold o_step (demo_ops kRows) o_init"

definition demo_committed :: o_acc where
  "demo_committed = snd (o_progress (latest demo_submitted) demo_submitted)"

definition demo_draining :: o_acc where
  "demo_draining = snd (o_requestDrain 0 demo_otag 0 True demo_committed)"

lemma latest_ub: "p \<in> set (oa_pending a) \<Longrightarrow> op_readyCycle p \<le> latest a"
proof -
  have "x \<in> set xs \<Longrightarrow> x \<le> foldr max xs (0::nat)" for x xs by (induction xs) auto
  then show "p \<in> set (oa_pending a) \<Longrightarrow> op_readyCycle p \<le> latest a" by (simp add: latest_def)
qed

lemma o_submitRow_accepts:
  assumes "o_inv a" "o_matches slot tag (oa_contexts a)" "c = oa_contexts a ! slot" "row < kRows"
    "length vs = kRowFmaLanes" "isfinite32 alpha" "\<not> oc_draining c" "kv = oc_expectedKeyTile c"
    "\<And>seg. row * kPanels \<le> seg \<Longrightarrow> seg < row * kPanels + kPanels \<Longrightarrow> oc_segmentState c ! seg = 0"
  shows "oa_contexts (snd (o_submitRow slot tag kv row alpha vs now True a)) =
    (oa_contexts a)[slot := c\<lparr>oc_segmentState := fill_range (row * kPanels) kPanels 1 (oc_segmentState c)\<rparr>]"
proof -
  let ?cursor = "max now (oa_bankReadyCycle a ! row)"
  obtain w a1 where sched: "o_schedule kv row ?cursor kPanels a = (w, a1)"
    by (cases "o_schedule kv row ?cursor kPanels a")
  have "o_data a1 = o_data a" using o_schedule_data [of kv row ?cursor kPanels a] sched by simp
  moreover have "length (oc_segmentState c) = kSegments"
    using assms(1,2,3) by (auto simp: o_inv_def ctxs_inv_def ctx_inv_def o_matches_def)
  then have "row * kPanels + kPanels \<le> length (oc_segmentState c)"
    using assms(4) by (simp add: o_consts)
  then have "\<forall>s \<in> set (range_of (oc_segmentState c) (row * kPanels) kPanels). s = 0"
    using assms(9) by (auto simp: set_range_of)
  ultimately show ?thesis using assms(2-8) sched by (auto simp: o_submitRow_def Let_def o_data_def)
qed

lemma isfinite_one: "isfinite32 fone32"
  by (simp add: isfinite32_def fone32_def fisfinite_def fdecode_def binary32_def)

lemma demo_rows_submitted:
  "n \<le> kRows \<Longrightarrow> \<exists>st. oa_contexts (fold o_step (demo_ops n) o_init) ! 0 =
     empty_context\<lparr>oc_valid := True, oc_tag := demo_otag, oc_keyTiles := 1, oc_segmentState := st\<rparr> \<and>
     (\<forall>seg < kSegments. st ! seg = (if seg < n * kPanels then 1 else 0))"
proof (induction n)
  case 0
  show ?case
    by (rule exI [of _ "replicate kSegments 0"])
       (simp add: demo_ops_def o_reserve_def demo_otag_def default_tag_def o_init_def empty_context_def o_consts)
next
  case (Suc n)
  let ?a = "fold o_step (demo_ops n) o_init"
  have inv: "o_inv ?a" by (rule o_run_inv [OF o_init_inv])
  from Suc obtain st where c: "oa_contexts ?a ! 0 =
     empty_context\<lparr>oc_valid := True, oc_tag := demo_otag, oc_keyTiles := 1, oc_segmentState := st\<rparr>"
    and st: "\<forall>seg < kSegments. st ! seg = (if seg < n * kPanels then 1 else 0)" by auto
  have len: "length (oa_contexts ?a) = kContexts" using inv by (simp add: o_inv_def ctxs_inv_def)
  then have "ctx_inv (oa_contexts ?a ! 0)" using inv by (simp add: o_inv_def ctxs_inv_def kContexts_def)
  then have "length st = kSegments" by (simp add: c ctx_inv_def)
  note len = len this
  let ?st = "fill_range (n * kPanels) kPanels 1 st"
  have "oa_contexts (snd (o_submitRow 0 demo_otag 0 n fone32 (replicate kRowFmaLanes fone32) 0 True ?a)) =
    (oa_contexts ?a)[0 := (oa_contexts ?a ! 0)\<lparr>oc_segmentState := fill_range (n * kPanels) kPanels 1 (oc_segmentState (oa_contexts ?a ! 0))\<rparr>]"
    by (rule o_submitRow_accepts [OF inv _ refl])
       (use Suc.prems c st len in \<open>auto simp: o_matches_def empty_context_def isfinite_one o_consts\<close>)
  then have "oa_contexts (fold o_step (demo_ops (Suc n)) o_init) ! 0 =
     empty_context\<lparr>oc_valid := True, oc_tag := demo_otag, oc_keyTiles := 1, oc_segmentState := ?st\<rparr>"
    using c len by (simp add: demo_ops_def demo_row_def kContexts_def)
  moreover have "?st ! seg = (if seg < Suc n * kPanels then 1 else 0)" if "seg < kSegments" for seg
    using that st len by (auto simp: nth_fill_range)
  ultimately show ?case by blast
qed

lemma demo_submitted_facts:
  "demo_submitted = fold o_step (demo_ops kRows) o_init" "o_inv demo_submitted"
  "oc_valid (oa_contexts demo_submitted ! 0)" "oc_tag (oa_contexts demo_submitted ! 0) = demo_otag"
  "oc_keyTiles (oa_contexts demo_submitted ! 0) = 1" "\<not> oc_draining (oa_contexts demo_submitted ! 0)"
  "oc_expectedKeyTile (oa_contexts demo_submitted ! 0) = 0"
  "\<forall>seg < kSegments. oc_segmentState (oa_contexts demo_submitted ! 0) ! seg \<noteq> 0"
proof -
  show d: "demo_submitted = fold o_step (demo_ops kRows) o_init" by (simp add: demo_submitted_def)
  show "o_inv demo_submitted" unfolding d by (rule o_run_inv [OF o_init_inv])
  from demo_rows_submitted [of kRows] show
    "oc_valid (oa_contexts demo_submitted ! 0)" "oc_tag (oa_contexts demo_submitted ! 0) = demo_otag"
    "oc_keyTiles (oa_contexts demo_submitted ! 0) = 1" "\<not> oc_draining (oa_contexts demo_submitted ! 0)"
    "oc_expectedKeyTile (oa_contexts demo_submitted ! 0) = 0"
    "\<forall>seg < kSegments. oc_segmentState (oa_contexts demo_submitted ! 0) ! seg \<noteq> 0"
    by (auto simp: d kSegments_def empty_context_def)
qed

theorem o_tile_completes_witness:
  "oc_expectedKeyTile (oa_contexts demo_submitted ! 0) = 0 \<and>
   oc_expectedKeyTile (oa_contexts demo_committed ! 0) = 1"
proof -
  have "oc_expectedKeyTile (oa_contexts demo_committed ! 0) = oc_expectedKeyTile (oa_contexts demo_submitted ! 0) + 1"
    unfolding demo_committed_def
    using o_tile_completes [OF demo_submitted_facts(1), of 0 "latest demo_submitted"]
      demo_submitted_facts(8) latest_ub by (auto simp: kContexts_def)
  then show ?thesis using demo_submitted_facts(7) by simp
qed

lemma demo_committed_facts:
  "o_inv demo_committed" "oa_pending demo_committed = []"
  "oc_valid (oa_contexts demo_committed ! 0)" "oc_tag (oa_contexts demo_committed ! 0) = demo_otag"
  "oc_keyTiles (oa_contexts demo_committed ! 0) = 1" "\<not> oc_draining (oa_contexts demo_committed ! 0)"
  "oc_expectedKeyTile (oa_contexts demo_committed ! 0) = 1"
  "oc_committedSegments (oa_contexts demo_committed ! 0) = 0"
  "\<forall>p \<in> set (oc_log (oa_contexts demo_committed ! 0)). op_kvTileIndex p < 1"
proof -
  let ?a = demo_submitted and ?b = demo_committed
  let ?c = "oa_contexts demo_committed ! 0"
  obtain ms kept cs' where l: "o_progress_loop (latest ?a) (oa_pending ?a) (oa_contexts ?a) = (ms, kept, cs')"
    using prod_cases3 by blast
  have loop: "ctxs_inv cs' \<and> owed cs' ([] @ kept) \<and> ctxs_ext (oa_contexts ?a) cs' \<and>
      (\<forall>p \<in> set ([] @ kept). pend_inv cs' p) \<and>
      (\<forall>m \<in> set ms. om_ok m \<and> (om_drain m \<longrightarrow> drain_sound cs' m))"
    by (rule o_progress_loop_inv [OF _ _ _ _ l]) (use demo_submitted_facts(2) in \<open>auto simp: o_inv_def\<close>)
  have b: "oa_contexts ?b = cs'" "oa_pending ?b = kept" by (auto simp: demo_committed_def o_progress_def l)
  show inv: "o_inv ?b" unfolding demo_committed_def by (rule o_progress_inv [OF demo_submitted_facts(2)])
  show "oa_pending ?b = []"
    using o_progress_loop_kept [OF l] latest_ub b by (auto simp: filter_empty_conv not_less)
  have "ctx_ext (oa_contexts ?a ! 0) ?c" using loop b by (simp add: ctxs_ext_def kContexts_def)
  then show "oc_valid ?c" "oc_tag ?c = demo_otag" "oc_keyTiles ?c = 1" "\<not> oc_draining ?c"
    using demo_submitted_facts by (auto simp: ctx_ext_def)
  have tile: "oc_expectedKeyTile ?c = oc_expectedKeyTile (oa_contexts ?a ! 0) + 1 \<and>
      (\<forall>seg < kSegments. oc_segmentState ?c ! seg = 0)"
    unfolding demo_committed_def
    by (rule tile_completes) (use demo_submitted_facts latest_ub in \<open>auto simp: kContexts_def\<close>)
  then show "oc_expectedKeyTile ?c = 1" using demo_submitted_facts(7) by simp
  have ctx: "ctx_inv ?c" using inv by (simp add: o_inv_def ctxs_inv_def kContexts_def)
  then show "oc_committedSegments ?c = 0"
    using tile unfolding ctx_inv_def count_if_card by auto
  show "\<forall>p \<in> set (oc_log ?c). op_kvTileIndex p < 1"
  proof
    fix p assume p: "p \<in> set (oc_log ?c)"
    have seg: "op_segment p < kSegments"
      using ctx p op_wf_bound(2) [OF _ covers_first] by (auto simp: ctx_inv_def)
    have "op_kvTileIndex p \<in> set (tiles_of (op_segment p) (oc_log ?c))"
      using p covers_first by (auto simp: tiles_of_def)
    moreover have "tiles_of (op_segment p) (oc_log ?c) = [0..<oc_expectedKeyTile ?c]"
      using ctx seg tile by (simp add: ctx_inv_def)
    ultimately show "op_kvTileIndex p < 1" using tile demo_submitted_facts(7) by simp
  qed
qed

theorem o_drain_delivers_replay_witness:
  "\<exists>m a'. o_progress (latest demo_draining) demo_draining = ([m], a') \<and> om_drain m \<and>
     tiles_of 0 (oc_log (oa_contexts a' ! 0)) = [0] \<and>
     om_values m ! 0 = replay 0 0 (oc_log (oa_contexts a' ! 0))"
proof -
  let ?a = demo_committed and ?b = demo_draining
  let ?c = "oa_contexts demo_committed ! 0"
  obtain t a1 where reads: "fold drain_read drain_rows (0, ?a) = (t, a1)"
    by (cases "fold drain_read drain_rows (0, ?a)")
  have data: "o_data a1 = o_data ?a" using drain_reads_keep [of drain_rows "(0, ?a)"] reads by simp
  define p where "p = default_pending\<lparr>op_id := oa_nextId a1, op_readyCycle := t,
      op_slot := 0, op_tag := demo_otag, op_drain := True\<rparr>"
  have len: "length (oa_contexts ?a) = 4"
    using demo_committed_facts(1) by (simp add: o_inv_def ctxs_inv_def kContexts_def)
  have b: "oa_pending ?b = [p]" "oa_contexts ?b = (oa_contexts ?a)[0 := ?c\<lparr>oc_draining := True\<rparr>]"
    using demo_committed_facts reads data
    by (auto simp: demo_draining_def o_requestDrain_def Let_def o_matches_def o_data_def p_def kContexts_def)
  let ?m = "\<lparr>om_id = op_id p, om_ok = True, om_drain = True, om_slot = 0, om_tag = demo_otag,
    om_values = oc_values ?c\<rparr>"
  obtain a' where pr: "o_progress (latest ?b) ?b = ([?m], a')" and a': "oa_contexts a' = oa_contexts ?b"
    using latest_ub [of p ?b] b len demo_committed_facts
    by (auto simp: o_progress_def o_complete_def Let_def o_matches_def p_def kContexts_def not_less split: prod.splits)
  have run: "?b = fold o_step (demo_ops kRows @ [OProgress (latest demo_submitted), ODrain 0 demo_otag 0]) o_init"
    by (simp add: demo_draining_def demo_committed_def demo_submitted_def)
  have "tiles_of 0 (oc_log (oa_contexts a' ! 0)) = [0..<oc_keyTiles (oa_contexts a' ! 0)] \<and>
      om_values ?m ! (0 * kValuesPerSegment + 0) = replay 0 0 (oc_log (oa_contexts a' ! 0))"
    by (rule o_drain_delivers_replay [OF run pr])
       (use demo_committed_facts a' b len in \<open>auto simp: o_consts\<close>)
  then show ?thesis using pr a' b len demo_committed_facts(5) by auto
qed

text \<open>The latency of a submission: the first key tile needs at least three cycles (ALU
  latency 2 and the write), a later one at least four (a read and the FMA first), counted from
  the cycle at which the row's bank is free, and the ready cycle handed back is that of the
  pending operation.\<close>

theorem o_submitRow_latency:
  assumes "fst (o_submitRow slot tag kv row alpha vs now ptrs a) = Some (i, t)"
  shows "max now (oa_bankReadyCycle a ! row) + (if kv = 0 then 3 else 4) \<le> t \<and> i = oa_nextId a \<and>
    (\<exists>p. oa_pending (snd (o_submitRow slot tag kv row alpha vs now ptrs a)) = oa_pending a @ [p] \<and>
       op_id p = i \<and> op_readyCycle p = t)"
proof -
  let ?cursor = "max now (oa_bankReadyCycle a ! row)"
  obtain w a1 where sched: "o_schedule kv row ?cursor kPanels a = (w, a1)"
    by (cases "o_schedule kv row ?cursor kPanels a")
  have "o_data a1 = o_data a" using o_schedule_data [of kv row ?cursor kPanels a] sched by simp
  moreover have "?cursor + (if kv = 0 then 2 else 3) \<le> w"
    using o_schedule_time [of ?cursor kv row kPanels a] sched by simp
  ultimately show ?thesis
    using assms sched by (auto simp: o_submitRow_def Let_def o_data_def split: if_splits)
qed

theorem o_submitRow_latency_witness:
  "\<exists>i t. fst (o_submitRow 0 demo_otag 0 3 fone32 (replicate 128 0) 7 True (o_step (OReserve 0 demo_otag 2) o_init)) = Some (i, t) \<and> 10 \<le> t"
proof -
  let ?a = "o_step (OReserve 0 demo_otag 2) o_init"
  have "\<exists>r. fst (o_submitRow 0 demo_otag 0 3 fone32 (replicate 128 0) 7 True ?a) = Some r"
    by (simp add: o_submitRow_def o_reserve_def o_init_def demo_otag_def default_tag_def empty_context_def
        o_matches_def isfinite_one range_of_def o_consts split: prod.splits)
  then obtain i t where r: "fst (o_submitRow 0 demo_otag 0 3 fone32 (replicate 128 0) 7 True ?a) = Some (i, t)"
    by auto
  with o_submitRow_latency [OF r] show ?thesis by auto
qed

end
