(* ===== verification/Score_Fifo.thy ===== *)
theory Score_Fifo
  imports Cluster_Base Soft_Float
begin

text \<open>
  \<open>AttentionScoreFifo\<close> of \<^verbatim>\<open>golem/attention/attentionCluster.h\<close>: sixteen slots of up to
  16x64 score elements, each slot owned by a tag, each element written at most once, either
  directly or through a reservation that is committed later.
\<close>

section \<open>State and operations\<close>

text \<open>The \<open>uint8_t\<close> flag vectors hold only 0 and 1 and are lists of booleans.\<close>

record score_slot =
  ss_valid :: bool
  ss_tag :: cluster_tag
  ss_elements :: "float32 list"
  ss_elementValid :: "bool list"
  ss_elementReserved :: "bool list"
  ss_validElements :: nat

type_synonym score_fifo = "score_slot list"

definition empty_slot :: score_slot where
  "empty_slot = \<lparr>ss_valid = False, ss_tag = default_tag, ss_elements = [],
     ss_elementValid = [], ss_elementReserved = [], ss_validElements = 0\<rparr>"

definition kSlots :: nat where
  "kSlots = 16"

definition kElementsPerSlot :: nat where
  "kElementsPerSlot = 16 * 64"

definition fifo_init :: score_fifo where
  "fifo_init = replicate kSlots empty_slot"

definition fifo_matches :: "nat \<Rightarrow> cluster_tag \<Rightarrow> score_fifo \<Rightarrow> bool" where
  "fifo_matches slot tag f \<longleftrightarrow> slot < kSlots \<and> ss_valid (f ! slot) \<and> tag_eq (ss_tag (f ! slot)) tag"

definition rangeInBounds :: "score_slot \<Rightarrow> nat \<Rightarrow> nat \<Rightarrow> bool" where
  "rangeInBounds s off cnt \<longleftrightarrow>
     cnt \<noteq> 0 \<and> off \<le> length (ss_elements s) \<and> cnt \<le> length (ss_elements s) - off"

definition rangeAvailable :: "nat \<Rightarrow> cluster_tag \<Rightarrow> nat \<Rightarrow> nat \<Rightarrow> score_fifo \<Rightarrow> bool" where
  "rangeAvailable slot tag off cnt f \<longleftrightarrow>
     fifo_matches slot tag f \<and> rangeInBounds (f ! slot) off cnt \<and>
     True \<notin> set (range_of (ss_elementValid (f ! slot)) off cnt) \<and>
     True \<notin> set (range_of (ss_elementReserved (f ! slot)) off cnt)"

definition fifo_reserve :: "nat \<Rightarrow> cluster_tag \<Rightarrow> nat \<Rightarrow> score_fifo \<Rightarrow> bool \<times> score_fifo" where
  "fifo_reserve slot tag elements f =
    (if slot \<ge> kSlots \<or> elements = 0 \<or> elements > kElementsPerSlot \<or> ss_valid (f ! slot)
     then (False, f)
     else (True, f[slot := (f ! slot)\<lparr>ss_valid := True, ss_tag := tag,
             ss_elements := replicate elements 0, ss_elementValid := replicate elements False,
             ss_elementReserved := replicate elements False, ss_validElements := 0\<rparr>]))"

definition fifo_write ::
  "nat \<Rightarrow> cluster_tag \<Rightarrow> nat \<Rightarrow> float32 list \<Rightarrow> score_fifo \<Rightarrow> bool \<times> score_fifo" where
  "fifo_write slot tag off values f =
    (if \<not> rangeAvailable slot tag off (length values) f then (False, f)
     else (True, f[slot := (f ! slot)\<lparr>
             ss_elementValid := fill_range off (length values) True (ss_elementValid (f ! slot)),
             ss_validElements := ss_validElements (f ! slot) + length values,
             ss_elements := put_range off values (ss_elements (f ! slot))\<rparr>]))"

definition fifo_reserveWrite ::
  "nat \<Rightarrow> cluster_tag \<Rightarrow> nat \<Rightarrow> nat \<Rightarrow> score_fifo \<Rightarrow> bool \<times> score_fifo" where
  "fifo_reserveWrite slot tag off cnt f =
    (if \<not> rangeAvailable slot tag off cnt f then (False, f)
     else (True, f[slot := (f ! slot)\<lparr>
             ss_elementReserved := fill_range off cnt True (ss_elementReserved (f ! slot))\<rparr>]))"

definition fifo_commitWrite ::
  "nat \<Rightarrow> cluster_tag \<Rightarrow> nat \<Rightarrow> float32 list \<Rightarrow> score_fifo \<Rightarrow> bool \<times> score_fifo" where
  "fifo_commitWrite slot tag off values f =
    (if \<not> fifo_matches slot tag f \<or> values = [] then (False, f)
     else if \<not> rangeInBounds (f ! slot) off (length values) \<or>
             False \<in> set (range_of (ss_elementReserved (f ! slot)) off (length values)) \<or>
             True \<in> set (range_of (ss_elementValid (f ! slot)) off (length values))
     then (False, f)
     else (True, f[slot := (f ! slot)\<lparr>
             ss_elementReserved := fill_range off (length values) False (ss_elementReserved (f ! slot)),
             ss_elementValid := fill_range off (length values) True (ss_elementValid (f ! slot)),
             ss_elements := put_range off values (ss_elements (f ! slot)),
             ss_validElements := ss_validElements (f ! slot) + length values\<rparr>]))"

definition fifo_canRead :: "nat \<Rightarrow> cluster_tag \<Rightarrow> nat \<Rightarrow> nat \<Rightarrow> score_fifo \<Rightarrow> bool" where
  "fifo_canRead slot tag off cnt f =
    (if \<not> fifo_matches slot tag f \<or> cnt = 0 then False
     else if off > length (ss_elements (f ! slot)) \<or> cnt > length (ss_elements (f ! slot)) - off
     then False
     else False \<notin> set (range_of (ss_elementValid (f ! slot)) off cnt))"

definition fifo_overwrite ::
  "nat \<Rightarrow> cluster_tag \<Rightarrow> nat \<Rightarrow> float32 list \<Rightarrow> score_fifo \<Rightarrow> bool \<times> score_fifo" where
  "fifo_overwrite slot tag off values f =
    (if \<not> fifo_canRead slot tag off (length values) f then (False, f)
     else (True, f[slot := (f ! slot)\<lparr>ss_elements := put_range off values (ss_elements (f ! slot))\<rparr>]))"

definition fifo_read :: "nat \<Rightarrow> cluster_tag \<Rightarrow> nat \<Rightarrow> nat \<Rightarrow> score_fifo \<Rightarrow> float32 list option" where
  "fifo_read slot tag off cnt f =
    (if \<not> fifo_canRead slot tag off cnt f then None
     else Some (range_of (ss_elements (f ! slot)) off cnt))"

definition fifo_ready :: "nat \<Rightarrow> cluster_tag \<Rightarrow> score_fifo \<Rightarrow> bool" where
  "fifo_ready slot tag f \<longleftrightarrow>
     fifo_matches slot tag f \<and> ss_validElements (f ! slot) = length (ss_elements (f ! slot))"

definition fifo_reserved :: "nat \<Rightarrow> cluster_tag \<Rightarrow> score_fifo \<Rightarrow> bool" where
  "fifo_reserved slot tag f = fifo_matches slot tag f"

definition fifo_slot_occupied :: "nat \<Rightarrow> score_fifo \<Rightarrow> bool" where
  "fifo_slot_occupied slot f \<longleftrightarrow> slot < kSlots \<and> ss_valid (f ! slot)"

definition fifo_release :: "nat \<Rightarrow> cluster_tag \<Rightarrow> score_fifo \<Rightarrow> bool \<times> score_fifo" where
  "fifo_release slot tag f =
    (if \<not> fifo_matches slot tag f then (False, f) else (True, f[slot := empty_slot]))"

definition fifo_cancelGeneration :: "nat \<Rightarrow> score_fifo \<Rightarrow> nat \<times> score_fifo" where
  "fifo_cancelGeneration g f =
    (count_if (\<lambda>s. ss_valid s \<and> tag_generation (ss_tag s) = g) f,
     map (\<lambda>s. if ss_valid s \<and> tag_generation (ss_tag s) = g then empty_slot else s) f)"

definition fifo_occupied :: "score_fifo \<Rightarrow> nat" where
  "fifo_occupied f = count_if ss_valid f"

section \<open>Invariant\<close>

definition slot_inv :: "score_slot \<Rightarrow> bool" where
  "slot_inv s \<longleftrightarrow>
     (\<not> ss_valid s \<longrightarrow> s = empty_slot) \<and>
     (ss_valid s \<longrightarrow> 0 < length (ss_elements s) \<and> length (ss_elements s) \<le> kElementsPerSlot) \<and>
     length (ss_elementValid s) = length (ss_elements s) \<and>
     length (ss_elementReserved s) = length (ss_elements s) \<and>
     ss_validElements s = count_if id (ss_elementValid s) \<and>
     (\<forall>i < length (ss_elements s). \<not> (ss_elementValid s ! i \<and> ss_elementReserved s ! i))"

definition fifo_inv :: "score_fifo \<Rightarrow> bool" where
  "fifo_inv f \<longleftrightarrow> length f = kSlots \<and> (\<forall>s \<in> set f. slot_inv s)"

lemma slot_inv_empty [simp]: "slot_inv empty_slot"
  by (simp add: slot_inv_def empty_slot_def)

lemma fifo_inv_init: "fifo_inv fifo_init"
  by (simp add: fifo_inv_def fifo_init_def)

lemma fifo_inv_update: "fifo_inv f \<Longrightarrow> slot_inv s \<Longrightarrow> fifo_inv (f[slot := s])"
  by (auto simp: fifo_inv_def dest: set_update_subset_insert [THEN subsetD])

lemma fifo_inv_slot: "fifo_inv f \<Longrightarrow> slot < kSlots \<Longrightarrow> slot_inv (f ! slot)"
  by (simp add: fifo_inv_def)

lemma range_none:
  assumes "x \<notin> set (range_of xs off n)" "off + n \<le> length xs" "off \<le> i" "i < off + n"
  shows "xs ! i \<noteq> x"
  using assms by (auto simp: set_range_of)

lemma matches_slot: "fifo_inv f \<Longrightarrow> fifo_matches slot tag f \<Longrightarrow>
    slot < length f \<and> slot_inv (f ! slot) \<and> ss_valid (f ! slot)"
  by (auto simp: fifo_matches_def fifo_inv_def)

lemma available_slot:
  assumes "fifo_inv f" "rangeAvailable slot tag off cnt f"
  shows "fifo_matches slot tag f" "slot_inv (f ! slot)" "0 < cnt"
    and "off + cnt \<le> length (ss_elements (f ! slot))"
    and "\<And>i. off \<le> i \<Longrightarrow> i < off + cnt \<Longrightarrow> \<not> ss_elementValid (f ! slot) ! i"
    and "\<And>i. off \<le> i \<Longrightarrow> i < off + cnt \<Longrightarrow> \<not> ss_elementReserved (f ! slot) ! i"
proof -
  from assms have m: "fifo_matches slot tag f" and b: "rangeInBounds (f ! slot) off cnt"
    and v: "True \<notin> set (range_of (ss_elementValid (f ! slot)) off cnt)"
    and r: "True \<notin> set (range_of (ss_elementReserved (f ! slot)) off cnt)"
    by (auto simp: rangeAvailable_def)
  show "fifo_matches slot tag f" by (rule m)
  from matches_slot [OF assms(1) m] show inv: "slot_inv (f ! slot)" by simp
  show "0 < cnt" and le: "off + cnt \<le> length (ss_elements (f ! slot))"
    using b by (auto simp: rangeInBounds_def)
  from inv have len: "length (ss_elementValid (f ! slot)) = length (ss_elements (f ! slot))"
      "length (ss_elementReserved (f ! slot)) = length (ss_elements (f ! slot))"
    by (auto simp: slot_inv_def)
  show "\<not> ss_elementValid (f ! slot) ! i" if "off \<le> i" "i < off + cnt" for i
    using range_none [OF v _ that] le len by simp
  show "\<not> ss_elementReserved (f ! slot) ! i" if "off \<le> i" "i < off + cnt" for i
    using range_none [OF r _ that] le len by simp
qed

lemma canRead_slot:
  assumes "fifo_inv f" "fifo_canRead slot tag off cnt f"
  shows "fifo_matches slot tag f" "slot_inv (f ! slot)" "0 < cnt"
    and "off + cnt \<le> length (ss_elements (f ! slot))"
    and "\<And>i. off \<le> i \<Longrightarrow> i < off + cnt \<Longrightarrow> ss_elementValid (f ! slot) ! i"
proof -
  from assms(2) have m: "fifo_matches slot tag f" and c: "0 < cnt"
    and le: "off + cnt \<le> length (ss_elements (f ! slot))"
    and v: "False \<notin> set (range_of (ss_elementValid (f ! slot)) off cnt)"
    by (auto simp: fifo_canRead_def split: if_splits)
  show "fifo_matches slot tag f" "0 < cnt" "off + cnt \<le> length (ss_elements (f ! slot))"
    by (fact m c le)+
  from matches_slot [OF assms(1) m] show inv: "slot_inv (f ! slot)" by simp
  then have len: "length (ss_elementValid (f ! slot)) = length (ss_elements (f ! slot))"
    by (simp add: slot_inv_def)
  show "ss_elementValid (f ! slot) ! i" if "off \<le> i" "i < off + cnt" for i
    using range_none [OF v _ that] le len by simp
qed

lemma canReadI:
  assumes "fifo_matches slot tag f" "slot_inv (f ! slot)" "0 < cnt"
    and "off + cnt \<le> length (ss_elements (f ! slot))"
    and "\<And>i. off \<le> i \<Longrightarrow> i < off + cnt \<Longrightarrow> ss_elementValid (f ! slot) ! i"
  shows "fifo_canRead slot tag off cnt f"
  using assms by (auto simp: fifo_canRead_def slot_inv_def set_range_of)

subsection \<open>Every operation keeps it\<close>

lemma fifo_reserve_inv [golem_inv]: "fifo_inv f \<Longrightarrow> fifo_inv (snd (fifo_reserve slot tag n f))"
  by (auto simp: fifo_reserve_def slot_inv_def intro!: fifo_inv_update)

lemma fifo_write_inv [golem_inv]:
  assumes "fifo_inv f"
  shows "fifo_inv (snd (fifo_write slot tag off vs f))"
proof (cases "rangeAvailable slot tag off (length vs) f")
  case True
  note av = available_slot [OF assms True]
  have "count_if id (fill_range off (length vs) True (ss_elementValid (f ! slot)))
      = count_if id (ss_elementValid (f ! slot)) + length vs"
    by (rule count_if_fill_range) (use av in \<open>auto simp: slot_inv_def\<close>)
  with True av matches_slot [OF assms av(1)] show ?thesis
    by (auto simp: fifo_write_def slot_inv_def nth_fill_range split: if_splits intro!: fifo_inv_update [OF assms])
qed (simp add: fifo_write_def assms)

lemma fifo_reserveWrite_inv [golem_inv]:
  assumes "fifo_inv f"
  shows "fifo_inv (snd (fifo_reserveWrite slot tag off n f))"
proof (cases "rangeAvailable slot tag off n f")
  case True
  note av = available_slot [OF assms True]
  with True matches_slot [OF assms av(1)] show ?thesis
    by (auto simp: fifo_reserveWrite_def slot_inv_def nth_fill_range split: if_splits
        intro!: fifo_inv_update [OF assms])
qed (simp add: fifo_reserveWrite_def assms)

lemma fifo_commitWrite_inv [golem_inv]:
  assumes "fifo_inv f"
  shows "fifo_inv (snd (fifo_commitWrite slot tag off vs f))"
proof (cases "fst (fifo_commitWrite slot tag off vs f)")
  case True
  then have m: "fifo_matches slot tag f" and b: "off + length vs \<le> length (ss_elements (f ! slot))"
    and v: "True \<notin> set (range_of (ss_elementValid (f ! slot)) off (length vs))"
    by (auto simp: fifo_commitWrite_def rangeInBounds_def split: if_splits)
  note s = matches_slot [OF assms m]
  have "count_if id (fill_range off (length vs) True (ss_elementValid (f ! slot)))
      = count_if id (ss_elementValid (f ! slot)) + length vs"
    by (rule count_if_fill_range) (use s b range_none [OF v] in \<open>auto simp: slot_inv_def\<close>)
  with True s show ?thesis
    by (auto simp: fifo_commitWrite_def slot_inv_def nth_fill_range split: if_splits
        intro!: fifo_inv_update [OF assms])
next
  case False
  with assms show ?thesis by (auto simp: fifo_commitWrite_def split: if_splits)
qed

lemma fifo_overwrite_inv [golem_inv]:
  assumes "fifo_inv f"
  shows "fifo_inv (snd (fifo_overwrite slot tag off vs f))"
proof (cases "fifo_canRead slot tag off (length vs) f")
  case True
  with canRead_slot [OF assms True] matches_slot [OF assms] show ?thesis
    by (auto simp: fifo_overwrite_def slot_inv_def intro!: fifo_inv_update [OF assms])
qed (simp add: fifo_overwrite_def assms)

lemma fifo_release_inv [golem_inv]: "fifo_inv f \<Longrightarrow> fifo_inv (snd (fifo_release slot tag f))"
  by (auto simp: fifo_release_def intro!: fifo_inv_update)

lemma fifo_cancel_inv [golem_inv]: "fifo_inv f \<Longrightarrow> fifo_inv (snd (fifo_cancelGeneration g f))"
  by (auto simp: fifo_cancelGeneration_def fifo_inv_def)

section \<open>The slot interface\<close>

definition fifo_owner :: "score_fifo \<Rightarrow> nat \<Rightarrow> cluster_tag option" where
  "fifo_owner f i = (if i < kSlots \<and> ss_valid (f ! i) then Some (ss_tag (f ! i)) else None)"

interpretation score: tag_slots fifo_owner fifo_reserve fifo_release fifo_cancelGeneration fifo_inv
proof unfold_locales
  fix f :: score_fifo and f' i t n
  assume "fifo_inv f" "fifo_reserve i t n f = (True, f')"
  then show "fifo_owner f i = None \<and> fifo_owner f' = (fifo_owner f)(i \<mapsto> t)"
    by (auto simp: fifo_reserve_def fifo_owner_def fifo_inv_def nth_list_update split: if_splits)
next
  fix f :: score_fifo and f' i t
  assume "fifo_inv f" "fifo_release i t f = (True, f')"
  then show "fifo_owner f i = Some t \<and> fifo_owner f' = (fifo_owner f)(i := None)"
    by (auto simp: fifo_release_def fifo_matches_def fifo_owner_def fifo_inv_def empty_slot_def
        nth_list_update split: if_splits)
next
  fix f :: score_fifo and g i
  assume "fifo_inv f"
  then show "fifo_owner (snd (fifo_cancelGeneration g f)) i =
    (case fifo_owner f i of None \<Rightarrow> None | Some t \<Rightarrow> if tag_generation t = g then None else Some t)"
    by (auto simp: fifo_cancelGeneration_def fifo_owner_def fifo_inv_def empty_slot_def)
qed (simp_all add: fifo_reserve_inv fifo_release_inv fifo_cancel_inv,
  auto simp: fifo_reserve_def fifo_release_def split: if_splits)

section \<open>Operation sequences\<close>

datatype fifo_op =
    FifoReserve nat cluster_tag nat
  | FifoWrite nat cluster_tag nat "float32 list"
  | FifoReserveWrite nat cluster_tag nat nat
  | FifoCommitWrite nat cluster_tag nat "float32 list"
  | FifoOverwrite nat cluster_tag nat "float32 list"
  | FifoRelease nat cluster_tag
  | FifoCancel nat

primrec fifo_step :: "fifo_op \<Rightarrow> score_fifo \<Rightarrow> score_fifo" where
  "fifo_step (FifoReserve i t n) f = snd (fifo_reserve i t n f)"
| "fifo_step (FifoWrite i t off vs) f = snd (fifo_write i t off vs f)"
| "fifo_step (FifoReserveWrite i t off n) f = snd (fifo_reserveWrite i t off n f)"
| "fifo_step (FifoCommitWrite i t off vs) f = snd (fifo_commitWrite i t off vs f)"
| "fifo_step (FifoOverwrite i t off vs) f = snd (fifo_overwrite i t off vs f)"
| "fifo_step (FifoRelease i t) f = snd (fifo_release i t f)"
| "fifo_step (FifoCancel g) f = snd (fifo_cancelGeneration g f)"

lemma fifo_step_inv [golem_inv]: "fifo_inv f \<Longrightarrow> fifo_inv (fifo_step x f)"
  by (cases x) (simp_all add: golem_inv)

lemma fifo_run_inv: "fifo_inv f \<Longrightarrow> fifo_inv (fold fifo_step xs f)"
  by (induction xs arbitrary: f) (auto simp: fifo_step_inv)

text \<open>\<open>element_of f slot tag i\<close>: the value of a valid element, under the slot's tag.\<close>

definition slot_element :: "score_slot \<Rightarrow> cluster_tag \<Rightarrow> nat \<Rightarrow> float32 option" where
  "slot_element s tag i =
    (if ss_valid s \<and> ss_tag s = tag \<and> i < length (ss_elements s) \<and> ss_elementValid s ! i
     then Some (ss_elements s ! i) else None)"

definition element_of :: "score_fifo \<Rightarrow> nat \<Rightarrow> cluster_tag \<Rightarrow> nat \<Rightarrow> float32 option" where
  "element_of f slot tag i = (if slot < kSlots then slot_element (f ! slot) tag i else None)"

lemma element_of_update:
  "fifo_inv f \<Longrightarrow> element_of (f[j := s]) slot tag i =
     (if j = slot \<and> slot < kSlots then slot_element s tag i else element_of f slot tag i)"
  by (auto simp: element_of_def fifo_inv_def)

lemma element_of_Some:
  "element_of f slot tag i = Some v \<longleftrightarrow>
     fifo_matches slot tag f \<and> i < length (ss_elements (f ! slot)) \<and>
     ss_elementValid (f ! slot) ! i \<and> ss_elements (f ! slot) ! i = v"
  by (auto simp: element_of_def slot_element_def fifo_matches_def)

text \<open>Operations that may change a valid element: an overwrite that covers it, a release
  under its tag and a cancellation of its generation.\<close>

definition disturbs :: "nat \<Rightarrow> cluster_tag \<Rightarrow> nat \<Rightarrow> fifo_op \<Rightarrow> bool" where
  "disturbs slot tag i x =
    (case x of
       FifoOverwrite j t off vs \<Rightarrow> j = slot \<and> t = tag \<and> off \<le> i \<and> i < off + length vs
     | FifoRelease j t \<Rightarrow> j = slot \<and> t = tag
     | FifoCancel g \<Rightarrow> g = tag_generation tag
     | _ \<Rightarrow> False)"

lemma fifo_step_element:
  assumes inv: "fifo_inv f" and el: "element_of f slot tag i = Some v"
    and nd: "\<not> disturbs slot tag i x"
  shows "element_of (fifo_step x f) slot tag i = Some v"
proof -
  from el have m: "fifo_matches slot tag f" and i: "i < length (ss_elements (f ! slot))"
    and val: "ss_elementValid (f ! slot) ! i" and v: "ss_elements (f ! slot) ! i = v"
    by (auto simp: element_of_Some)
  note s = matches_slot [OF inv m]
  have len: "length (ss_elementValid (f ! slot)) = length (ss_elements (f ! slot))"
    using s by (simp add: slot_inv_def)
  have sl: "slot < kSlots" "ss_valid (f ! slot)" "ss_tag (f ! slot) = tag"
    using m by (auto simp: fifo_matches_def)
  note facts = i val v len sl
  show ?thesis
  proof (cases x)
    case (FifoReserve j t n)
    then show ?thesis
      using el sl by (auto simp: fifo_reserve_def element_of_update [OF inv])
  next
    case (FifoWrite j t off vs)
    show ?thesis
    proof (cases "rangeAvailable j t off (length vs) f \<and> j = slot")
      case True
      with available_slot(5) [OF inv, of j t off "length vs" i] val have "\<not> (off \<le> i \<and> i < off + length vs)"
        by blast
      with True FifoWrite facts show ?thesis
        by (auto simp: fifo_write_def element_of_update [OF inv] slot_element_def nth_fill_range nth_put_range)
    qed (use FifoWrite el in \<open>auto simp: fifo_write_def element_of_update [OF inv]\<close>)
  next
    case (FifoReserveWrite j t off n)
    then show ?thesis
      using el facts by (auto simp: fifo_reserveWrite_def element_of_update [OF inv] slot_element_def)
  next
    case (FifoCommitWrite j t off vs)
    show ?thesis
    proof (cases "j = slot \<and> fst (fifo_commitWrite j t off vs f)")
      case True
      then have "True \<notin> set (range_of (ss_elementValid (f ! slot)) off (length vs))"
        and "off + length vs \<le> length (ss_elementValid (f ! slot))"
        using len by (auto simp: fifo_commitWrite_def rangeInBounds_def split: if_splits)
      then have "\<not> (off \<le> i \<and> i < off + length vs)"
        using range_none [of True "ss_elementValid (f ! slot)" off "length vs" i] val by auto
      with True FifoCommitWrite facts show ?thesis
        by (auto simp: fifo_commitWrite_def element_of_update [OF inv] slot_element_def
            nth_fill_range nth_put_range split: if_splits)
    qed (use FifoCommitWrite el in \<open>auto simp: fifo_commitWrite_def element_of_update [OF inv]\<close>)
  next
    case (FifoOverwrite j t off vs)
    show ?thesis
    proof (cases "j = slot \<and> fifo_canRead j t off (length vs) f")
      case True
      then have "t = tag" using canRead_slot(1) [OF inv, of j t off "length vs"] sl
        by (auto simp: fifo_matches_def)
      with True nd FifoOverwrite have "\<not> (off \<le> i \<and> i < off + length vs)"
        by (simp add: disturbs_def)
      with True FifoOverwrite facts show ?thesis
        by (auto simp: fifo_overwrite_def element_of_update [OF inv] slot_element_def nth_put_range)
    qed (use FifoOverwrite el in \<open>auto simp: fifo_overwrite_def element_of_update [OF inv]\<close>)
  next
    case (FifoRelease j t)
    then show ?thesis
      using el sl nd by (auto simp: fifo_release_def fifo_matches_def element_of_update [OF inv] disturbs_def)
  next
    case (FifoCancel g)
    then show ?thesis
      using el s sl nd by (auto simp: fifo_cancelGeneration_def element_of_def disturbs_def)
  qed
qed

lemma fifo_run_element:
  assumes "fifo_inv f" "element_of f slot tag i = Some v"
    and "\<forall>x \<in> set xs. \<not> disturbs slot tag i x"
  shows "element_of (fold fifo_step xs f) slot tag i = Some v"
  using assms by (induction xs arbitrary: f) (auto simp: fifo_step_inv fifo_step_element)

lemma read_elements:
  assumes "fifo_inv f" "0 < n" "\<forall>i < n. element_of f slot tag (off + i) = Some (vs ! i)"
    and "length vs = n"
  shows "fifo_read slot tag off n f = Some vs"
proof -
  have el: "fifo_matches slot tag f \<and> off + i < length (ss_elements (f ! slot)) \<and>
      ss_elementValid (f ! slot) ! (off + i) \<and> ss_elements (f ! slot) ! (off + i) = vs ! i"
    if "i < n" for i
    using that assms(3) by (auto simp: element_of_Some)
  have len: "off + n \<le> length (ss_elements (f ! slot))"
    using el [of "n - 1"] assms(2) by auto
  have m: "fifo_matches slot tag f" using el [of 0] assms(2) by simp
  have "fifo_canRead slot tag off n f"
  proof (rule canReadI [OF m _ assms(2) len])
    show "slot_inv (f ! slot)" using matches_slot [OF assms(1) m] by simp
    show "ss_elementValid (f ! slot) ! i" if "off \<le> i" "i < off + n" for i
      using el [of "i - off"] that by auto
  qed
  moreover have "range_of (ss_elements (f ! slot)) off n = vs"
    using el len assms(4) by (intro nth_equalityI) (auto simp: nth_range_of)
  ultimately show ?thesis by (simp add: fifo_read_def)
qed

lemma written_elements:
  assumes inv: "fifo_inv f"
    and "fifo_write slot tag off vs f = (True, f') \<or> fifo_commitWrite slot tag off vs f = (True, f')"
  shows "\<forall>i < length vs. element_of f' slot tag (off + i) = Some (vs ! i)"
  using assms(2)
proof
  assume w: "fifo_write slot tag off vs f = (True, f')"
  then have av: "rangeAvailable slot tag off (length vs) f"
    by (auto simp: fifo_write_def split: if_splits)
  note s = available_slot [OF inv av] matches_slot [OF inv available_slot(1) [OF inv av]]
  then show ?thesis
    using w by (auto simp: fifo_write_def element_of_update [OF inv] slot_element_def fifo_matches_def
        nth_fill_range nth_put_range slot_inv_def split: if_splits)
next
  assume w: "fifo_commitWrite slot tag off vs f = (True, f')"
  then have m: "fifo_matches slot tag f" and b: "rangeInBounds (f ! slot) off (length vs)"
    by (auto simp: fifo_commitWrite_def split: if_splits)
  with matches_slot [OF inv m] w show ?thesis
    by (auto simp: fifo_commitWrite_def element_of_update [OF inv] slot_element_def fifo_matches_def
        nth_fill_range nth_put_range slot_inv_def rangeInBounds_def split: if_splits)
qed

section \<open>Properties\<close>

text \<open>C14: a score write (direct, or a committed reservation) that is accepted can be read back
  exactly, and stays readable with the same values through any sequence of FIFO operations
  that contains no overwrite of those elements, no release under that tag and no cancellation
  of that generation: each element is written once.\<close>

theorem fifo_write_then_read:
  assumes "fifo_inv f"
    and "fifo_write slot tag off vs f = (True, f') \<or> fifo_commitWrite slot tag off vs f = (True, f')"
    and "vs \<noteq> []"
    and "\<forall>x \<in> set xs. \<forall>i < length vs. \<not> disturbs slot tag (off + i) x"
  shows "fifo_read slot tag off (length vs) (fold fifo_step xs f') = Some vs"
proof (rule read_elements)
  have "f' = fifo_step (FifoWrite slot tag off vs) f \<or> f' = fifo_step (FifoCommitWrite slot tag off vs) f"
    using assms(2) by auto
  then have inv': "fifo_inv f'" using fifo_step_inv [OF assms(1)] by metis
  then show "fifo_inv (fold fifo_step xs f')" by (rule fifo_run_inv)
  show "\<forall>i < length vs. element_of (fold fifo_step xs f') slot tag (off + i) = Some (vs ! i)"
    using written_elements [OF assms(1,2)] assms(4) fifo_run_element [OF inv'] by blast
qed (use assms(3) in auto)

text \<open>\<open>ready\<close> holds exactly when the whole slot can be read: the running count of valid
  elements agrees with the per-element flags in every state the operations can reach.\<close>

theorem fifo_ready_iff_readable:
  assumes "fifo_inv f"
  shows "fifo_ready slot tag f \<longleftrightarrow>
    fifo_canRead slot tag 0 (length (ss_elements (f ! slot))) f"
proof (cases "fifo_matches slot tag f")
  case True
  note s = matches_slot [OF assms True]
  have "ss_validElements (f ! slot) = length (ss_elements (f ! slot)) \<longleftrightarrow>
      (\<forall>b \<in> set (ss_elementValid (f ! slot)). b)"
    using s count_if_full [of id "ss_elementValid (f ! slot)"] by (simp add: slot_inv_def)
  moreover have "length (ss_elements (f ! slot)) \<noteq> 0" using s by (auto simp: slot_inv_def)
  ultimately show ?thesis
    using True s by (auto simp: fifo_ready_def fifo_canRead_def range_of_def slot_inv_def)
qed (simp add: fifo_ready_def fifo_canRead_def)


subsection \<open>Witnesses\<close>

definition demo_tag :: cluster_tag where
  "demo_tag = default_tag\<lparr>tag_generation := 3, tag_jobId := 1\<rparr>"

definition demo_fifo :: score_fifo where
  "demo_fifo = snd (fifo_reserve 2 demo_tag 4 fifo_init)"

lemma demo_fifo_inv: "fifo_inv demo_fifo"
  by (simp add: demo_fifo_def fifo_reserve_inv fifo_inv_init)

lemma demo_write:
  "fifo_write 2 demo_tag 1 [0x3f800000, 0x40000000] demo_fifo =
    (True, snd (fifo_write 2 demo_tag 1 [0x3f800000, 0x40000000] demo_fifo))"
  by code_simp

theorem fifo_write_then_read_witness:
  "fifo_read 2 demo_tag 1 2
     (fold fifo_step [FifoRelease 2 default_tag, FifoWrite 2 demo_tag 1 [7], FifoCancel 9]
       (snd (fifo_write 2 demo_tag 1 [0x3f800000, 0x40000000] demo_fifo)))
   = Some [0x3f800000, 0x40000000]"
  using fifo_write_then_read [OF demo_fifo_inv disjI1 [OF demo_write],
      of "[FifoRelease 2 default_tag, FifoWrite 2 demo_tag 1 [7], FifoCancel 9]"]
  by (simp add: disturbs_def demo_tag_def default_tag_def numeral_2_eq_2)

theorem fifo_ready_iff_readable_witness:
  "fifo_inv demo_fifo \<and> \<not> fifo_ready 2 demo_tag demo_fifo"
proof -
  have "\<not> fifo_canRead 2 demo_tag 0 (length (ss_elements (demo_fifo ! 2))) demo_fifo"
    by code_simp
  then show ?thesis using fifo_ready_iff_readable [OF demo_fifo_inv, of 2 demo_tag] demo_fifo_inv by simp
qed


end
