(* ===== verification/Cluster_State.thy ===== *)
theory Cluster_State
  imports Cluster_Base
begin

text \<open>
  \<open>AttentionClusterState\<close> of \<^verbatim>\<open>golem/attention/attentionCluster.h\<close>: the split of the 64 compute
  arrays between QK and PV, the context tables of the four stages and the reference counted
  leases on operand banks, all under one generation. \<open>drained\<close> returns an error value where
  the code reads outside \<open>bankLeases_\<close>.
\<close>

section \<open>State\<close>

datatype array_owner = OwnerNone | OwnerQk | OwnerPv
datatype context_kind = KindQk | KindScore | KindPv | KindO

record cluster_context =
  ctx_valid :: bool
  ctx_tag :: cluster_tag
  ctx_operandBank :: nat
  ctx_creditsHeld :: nat

definition no_context :: cluster_context where
  "no_context = \<lparr>ctx_valid = False, ctx_tag = default_tag, ctx_operandBank = 0, ctx_creditsHeld = 0\<rparr>"

record bank_lease =
  lease_tag :: cluster_tag
  lease_refs :: nat

definition no_lease :: bank_lease where
  "no_lease = \<lparr>lease_tag = default_tag, lease_refs = 0\<rparr>"

definition kArrayCount :: nat where "kArrayCount = 64"
definition kQkArrayCount :: nat where "kQkArrayCount = 16"
definition kOperandBanks :: nat where "kOperandBanks = 1"

record cluster_state =
  cs_enabled :: bool
  cs_generation :: nat
  cs_owners :: "array_owner list"
  cs_bankLeases :: "bank_lease list list"
  cs_qkContexts :: "cluster_context list"
  cs_scoreContexts :: "cluster_context list"
  cs_pvContexts :: "cluster_context list"
  cs_oContexts :: "cluster_context list"

definition cs_init :: cluster_state where
  "cs_init = \<lparr>cs_enabled = False, cs_generation = 0, cs_owners = replicate kArrayCount OwnerNone,
     cs_bankLeases = replicate kArrayCount (replicate kOperandBanks no_lease),
     cs_qkContexts = replicate 4 no_context, cs_scoreContexts = replicate 4 no_context,
     cs_pvContexts = replicate 4 no_context, cs_oContexts = replicate 4 no_context\<rparr>"

definition cs_capacity :: "context_kind \<Rightarrow> nat" where
  "cs_capacity k = (if k = KindQk \<or> k = KindPv then 2 else 4)"

primrec contextArray :: "context_kind \<Rightarrow> cluster_state \<Rightarrow> cluster_context list" where
  "contextArray KindQk s = cs_qkContexts s"
| "contextArray KindScore s = cs_scoreContexts s"
| "contextArray KindPv s = cs_pvContexts s"
| "contextArray KindO s = cs_oContexts s"

primrec set_contextArray :: "context_kind \<Rightarrow> cluster_context list \<Rightarrow> cluster_state \<Rightarrow> cluster_state" where
  "set_contextArray KindQk cs s = s\<lparr>cs_qkContexts := cs\<rparr>"
| "set_contextArray KindScore cs s = s\<lparr>cs_scoreContexts := cs\<rparr>"
| "set_contextArray KindPv cs s = s\<lparr>cs_pvContexts := cs\<rparr>"
| "set_contextArray KindO cs s = s\<lparr>cs_oContexts := cs\<rparr>"

section \<open>Operations\<close>

definition cs_cancel :: "cluster_state \<Rightarrow> nat \<times> cluster_state" where
  "cs_cancel s =
    (count_if ctx_valid (cs_qkContexts s) + count_if ctx_valid (cs_scoreContexts s) +
     count_if ctx_valid (cs_pvContexts s) + count_if ctx_valid (cs_oContexts s),
     s\<lparr>cs_qkContexts := map (\<lambda>_. no_context) (cs_qkContexts s),
       cs_scoreContexts := map (\<lambda>_. no_context) (cs_scoreContexts s),
       cs_pvContexts := map (\<lambda>_. no_context) (cs_pvContexts s),
       cs_oContexts := map (\<lambda>_. no_context) (cs_oContexts s),
       cs_bankLeases := map (map (\<lambda>_. no_lease)) (cs_bankLeases s),
       cs_owners := map (\<lambda>_. OwnerNone) (cs_owners s),
       cs_enabled := False, cs_generation := 0\<rparr>)"

definition cs_configure :: "nat \<Rightarrow> nat \<Rightarrow> cluster_state \<Rightarrow> bool \<times> cluster_state" where
  "cs_configure generation qkArrays s =
    (if generation = 0 \<or>
        (qkArrays \<noteq> 16 \<and> qkArrays \<noteq> 24 \<and> qkArrays \<noteq> 32 \<and> qkArrays \<noteq> 40) then (False, s)
     else (True, (snd (cs_cancel s))\<lparr>cs_enabled := True, cs_generation := generation,
             cs_owners := map (\<lambda>i. if i < qkArrays then OwnerQk else OwnerPv) [0..<kArrayCount]\<rparr>))"

definition cs_owns :: "nat \<Rightarrow> array_owner \<Rightarrow> cluster_state \<Rightarrow> bool" where
  "cs_owns arrayId own s \<longleftrightarrow>
     cs_enabled s \<and> arrayId < length (cs_owners s) \<and> cs_owners s ! arrayId = own"

text \<open>The loop over the first \<open>capacity(kind)\<close> entries: the first free one.\<close>

definition first_free :: "nat \<Rightarrow> cluster_context list \<Rightarrow> nat option" where
  "first_free cap cs = List.find (\<lambda>i. \<not> ctx_valid (cs ! i)) [0..<cap]"

definition cs_reserve ::
  "context_kind \<Rightarrow> cluster_tag \<Rightarrow> nat \<Rightarrow> cluster_state \<Rightarrow> int \<times> cluster_state" where
  "cs_reserve kind tag operandBank s =
    (if \<not> cs_enabled s \<or> tag_generation tag \<noteq> cs_generation s \<or> operandBank \<ge> kOperandBanks
     then (-1, s)
     else case first_free (cs_capacity kind) (contextArray kind s) of
            None \<Rightarrow> (-1, s)
          | Some i \<Rightarrow> (int i, set_contextArray kind
              ((contextArray kind s)[i := \<lparr>ctx_valid = True, ctx_tag = tag,
                 ctx_operandBank = operandBank, ctx_creditsHeld = 0\<rparr>]) s))"

definition callbackMatches :: "context_kind \<Rightarrow> nat \<Rightarrow> cluster_tag \<Rightarrow> cluster_state \<Rightarrow> bool" where
  "callbackMatches kind slot tag s \<longleftrightarrow>
     slot < length (contextArray kind s) \<and> ctx_valid (contextArray kind s ! slot) \<and>
     tag_eq (ctx_tag (contextArray kind s ! slot)) tag \<and> tag_generation tag = cs_generation s"

definition cs_release ::
  "context_kind \<Rightarrow> nat \<Rightarrow> cluster_tag \<Rightarrow> cluster_state \<Rightarrow> bool \<times> cluster_state" where
  "cs_release kind slot tag s =
    (if \<not> callbackMatches kind slot tag s then (False, s)
     else (True, set_contextArray kind ((contextArray kind s)[slot := no_context]) s))"

definition set_lease :: "nat \<Rightarrow> nat \<Rightarrow> bank_lease \<Rightarrow> cluster_state \<Rightarrow> cluster_state" where
  "set_lease i b l s = s\<lparr>cs_bankLeases := (cs_bankLeases s)[i := (cs_bankLeases s ! i)[b := l]]\<rparr>"

abbreviation the_lease :: "nat \<Rightarrow> nat \<Rightarrow> cluster_state \<Rightarrow> bank_lease" where
  "the_lease i b s \<equiv> cs_bankLeases s ! i ! b"

definition acquireBank ::
  "nat \<Rightarrow> nat \<Rightarrow> array_owner \<Rightarrow> cluster_tag \<Rightarrow> cluster_state \<Rightarrow> bool \<times> cluster_state" where
  "acquireBank i b own tag s =
    (if \<not> cs_owns i own s \<or> b \<ge> kOperandBanks then (False, s)
     else if lease_refs (the_lease i b s) \<noteq> 0 \<or> tag_generation tag \<noteq> cs_generation s then (False, s)
     else (True, set_lease i b \<lparr>lease_tag = tag, lease_refs = 1\<rparr> s))"

definition bankMatches :: "nat \<Rightarrow> nat \<Rightarrow> array_owner \<Rightarrow> cluster_tag \<Rightarrow> cluster_state \<Rightarrow> bool" where
  "bankMatches i b own tag s \<longleftrightarrow>
     cs_owns i own s \<and> b < kOperandBanks \<and> lease_refs (the_lease i b s) \<noteq> 0 \<and>
     tag_eq (lease_tag (the_lease i b s)) tag"

definition retainBank ::
  "nat \<Rightarrow> nat \<Rightarrow> array_owner \<Rightarrow> cluster_tag \<Rightarrow> cluster_state \<Rightarrow> bool \<times> cluster_state" where
  "retainBank i b own tag s =
    (if \<not> cs_owns i own s \<or> b \<ge> kOperandBanks \<or> lease_refs (the_lease i b s) = 0 \<or>
        \<not> tag_eq (lease_tag (the_lease i b s)) tag then (False, s)
     else (True, set_lease i b ((the_lease i b s)\<lparr>lease_refs := u32 (lease_refs (the_lease i b s) + 1)\<rparr>) s))"

definition releaseBank ::
  "nat \<Rightarrow> nat \<Rightarrow> array_owner \<Rightarrow> cluster_tag \<Rightarrow> cluster_state \<Rightarrow> bool \<times> cluster_state" where
  "releaseBank i b own tag s =
    (if \<not> cs_owns i own s \<or> b \<ge> kOperandBanks \<or> lease_refs (the_lease i b s) = 0 \<or>
        \<not> tag_eq (lease_tag (the_lease i b s)) tag then (False, s)
     else (let refs = lease_refs (the_lease i b s) - 1
           in (True, set_lease i b (if refs = 0 then no_lease
                                    else (the_lease i b s)\<lparr>lease_refs := refs\<rparr>) s)))"

definition bankRefcount :: "nat \<Rightarrow> nat \<Rightarrow> cluster_state \<Rightarrow> nat" where
  "bankRefcount i b s =
    (if i < kArrayCount \<and> b < kOperandBanks then lease_refs (the_lease i b s) else 0)"

definition liveBankRefs :: "cluster_state \<Rightarrow> nat" where
  "liveBankRefs s = u32 (sum_list (map (\<lambda>ls. sum_list (map lease_refs ls)) (cs_bankLeases s)))"

definition liveContexts :: "context_kind \<Rightarrow> cluster_state \<Rightarrow> nat" where
  "liveContexts kind s = count_if ctx_valid (take (cs_capacity kind) (contextArray kind s))"

definition liveContexts_all :: "cluster_state \<Rightarrow> nat" where
  "liveContexts_all s = liveContexts KindQk s + liveContexts KindScore s +
     liveContexts KindPv s + liveContexts KindO s"

text \<open>\<open>drained\<close>: the lambda reads \<open>leases[0]\<close> and then \<open>leases[1]\<close> of an array with
  \<open>kOperandBanks\<close> entries. A read past the end is \<open>OutOfBounds\<close>.\<close>

definition lease_at :: "bank_lease list \<Rightarrow> nat \<Rightarrow> golem_error + nat" where
  "lease_at ls b = (if b < length ls then Inr (lease_refs (ls ! b)) else Inl OutOfBounds)"

definition array_noBanks :: "bank_lease list \<Rightarrow> golem_error + bool" where
  "array_noBanks ls =
    (case lease_at ls 0 of Inl e \<Rightarrow> Inl e
     | Inr r0 \<Rightarrow> if r0 \<noteq> 0 then Inr False
                 else (case lease_at ls 1 of Inl e \<Rightarrow> Inl e | Inr r1 \<Rightarrow> Inr (r1 = 0)))"

primrec noBanks :: "bank_lease list list \<Rightarrow> golem_error + bool" where
  "noBanks [] = Inr True"
| "noBanks (ls # rest) =
    (case array_noBanks ls of Inl e \<Rightarrow> Inl e
     | Inr ok \<Rightarrow> if ok then noBanks rest else Inr False)"

definition cs_drained :: "cluster_state \<Rightarrow> golem_error + bool" where
  "cs_drained s =
    (case noBanks (cs_bankLeases s) of Inl e \<Rightarrow> Inl e
     | Inr ok \<Rightarrow> Inr (list_all (\<lambda>c. \<not> ctx_valid c)
         (cs_qkContexts s @ cs_scoreContexts s @ cs_pvContexts s @ cs_oContexts s) \<and> ok))"

section \<open>Invariant\<close>

datatype cs_op =
    CsConfigure nat nat
  | CsReserve context_kind cluster_tag nat
  | CsRelease context_kind nat cluster_tag
  | CsAcquireBank nat nat array_owner cluster_tag
  | CsRetainBank nat nat array_owner cluster_tag
  | CsReleaseBank nat nat array_owner cluster_tag
  | CsCancel

primrec cs_step :: "cs_op \<Rightarrow> cluster_state \<Rightarrow> cluster_state" where
  "cs_step (CsConfigure g qk) s = snd (cs_configure g qk s)"
| "cs_step (CsReserve k t b) s = snd (cs_reserve k t b s)"
| "cs_step (CsRelease k i t) s = snd (cs_release k i t s)"
| "cs_step (CsAcquireBank i b own t) s = snd (acquireBank i b own t s)"
| "cs_step (CsRetainBank i b own t) s = snd (retainBank i b own t s)"
| "cs_step (CsReleaseBank i b own t) s = snd (releaseBank i b own t s)"
| "cs_step CsCancel s = snd (cs_cancel s)"

definition contexts_ok :: "context_kind \<Rightarrow> cluster_state \<Rightarrow> bool" where
  "contexts_ok k s \<longleftrightarrow> length (contextArray k s) = 4 \<and>
     (\<forall>i < 4. ctx_valid (contextArray k s ! i) \<longrightarrow>
        i < cs_capacity k \<and> cs_enabled s \<and> tag_generation (ctx_tag (contextArray k s ! i)) = cs_generation s \<and>
        ctx_operandBank (contextArray k s ! i) < kOperandBanks)"

definition cs_inv :: "cluster_state \<Rightarrow> bool" where
  "cs_inv s \<longleftrightarrow> (\<forall>k. contexts_ok k s) \<and> length (cs_owners s) = kArrayCount \<and>
     (cs_enabled s \<longleftrightarrow> cs_generation s \<noteq> 0) \<and>
     length (cs_bankLeases s) = kArrayCount \<and> (\<forall>ls \<in> set (cs_bankLeases s). length ls = kOperandBanks) \<and>
     (\<forall>ls \<in> set (cs_bankLeases s). \<forall>l \<in> set ls. lease_refs l \<noteq> 0 \<longrightarrow>
        cs_enabled s \<and> tag_generation (lease_tag l) = cs_generation s)"

lemma contextArray_set [simp]:
  "contextArray k (set_contextArray k' cs s) = (if k = k' then cs else contextArray k s)"
  by (cases k; cases k') auto

lemma set_contextArray_frame [simp]:
  "cs_enabled (set_contextArray k cs s) = cs_enabled s"
  "cs_generation (set_contextArray k cs s) = cs_generation s"
  "cs_owners (set_contextArray k cs s) = cs_owners s"
  "cs_bankLeases (set_contextArray k cs s) = cs_bankLeases s"
  by (cases k; simp)+

lemma set_lease_frame [simp]:
  "cs_enabled (set_lease i b l s) = cs_enabled s" "cs_generation (set_lease i b l s) = cs_generation s"
  "cs_owners (set_lease i b l s) = cs_owners s" "contextArray k (set_lease i b l s) = contextArray k s"
  by (simp_all add: set_lease_def) (cases k; simp)

lemma first_free_Some:
  "first_free cap cs = Some i \<Longrightarrow> i < cap \<and> \<not> ctx_valid (cs ! i) \<and> (\<forall>j < i. ctx_valid (cs ! j))"
  by (auto simp: first_free_def find_Some_iff)

lemma first_free_None: "first_free cap cs = None \<longleftrightarrow> (\<forall>i < cap. ctx_valid (cs ! i))"
  by (auto simp: first_free_def find_None_iff)

lemma cs_capacity_le: "cs_capacity k \<le> 4"
  by (simp add: cs_capacity_def)

lemma cs_init_inv: "cs_inv cs_init"
proof -
  have "contexts_ok k cs_init" for k
    by (cases k) (auto simp: contexts_ok_def cs_init_def no_context_def)
  then show ?thesis by (auto simp: cs_inv_def cs_init_def no_lease_def)
qed

lemma cs_cancel_cleared:
  assumes "cs_inv s"
  shows "contextArray k (snd (cs_cancel s)) = replicate 4 no_context"
    "cs_bankLeases (snd (cs_cancel s)) = replicate kArrayCount (replicate kOperandBanks no_lease)"
    "\<not> cs_enabled (snd (cs_cancel s))" "cs_generation (snd (cs_cancel s)) = 0"
    "cs_owners (snd (cs_cancel s)) = replicate kArrayCount OwnerNone"
proof -
  have len: "length (contextArray k s) = 4" for k using assms by (simp add: cs_inv_def contexts_ok_def)
  show "contextArray k (snd (cs_cancel s)) = replicate 4 no_context"
    using len [of k] by (cases k) (auto simp: cs_cancel_def map_replicate_const)
  show "cs_bankLeases (snd (cs_cancel s)) = replicate kArrayCount (replicate kOperandBanks no_lease)"
    using assms unfolding cs_inv_def by (intro nth_equalityI) (auto simp: cs_cancel_def map_replicate_const)
  show "\<not> cs_enabled (snd (cs_cancel s))" "cs_generation (snd (cs_cancel s)) = 0"
    "cs_owners (snd (cs_cancel s)) = replicate kArrayCount OwnerNone"
    using assms by (auto simp: cs_cancel_def map_replicate_const cs_inv_def)
qed

lemma cs_cancel_inv: "cs_inv s \<Longrightarrow> cs_inv (snd (cs_cancel s))"
  by (simp add: cs_inv_def [of "snd (cs_cancel s)"] contexts_ok_def cs_cancel_cleared)
     (simp add: no_context_def no_lease_def)

lemma cs_configure_inv:
  assumes "cs_inv s"
  shows "cs_inv (snd (cs_configure g qk s))"
proof -
  have c: "contextArray k ((snd (cs_cancel s))\<lparr>cs_enabled := True, cs_generation := g, cs_owners := os\<rparr>) =
      replicate 4 no_context" for k os
    using cs_cancel_cleared(1) [OF assms, of k] by (cases k) auto
  show ?thesis
    using assms c cs_cancel_cleared(2) [OF assms]
    by (auto simp: cs_configure_def cs_inv_def [of "cs_owners_update _ _"] contexts_ok_def no_context_def no_lease_def)
qed

lemma cs_reserve_inv:
  assumes inv: "cs_inv s"
  shows "cs_inv (snd (cs_reserve k t b s))"
proof (cases "snd (cs_reserve k t b s) = s")
  case False
  then obtain i where i: "first_free (cs_capacity k) (contextArray k s) = Some i"
    and en: "cs_enabled s" "tag_generation t = cs_generation s" "b < kOperandBanks"
    by (auto simp: cs_reserve_def split: if_splits option.splits)
  let ?c = "\<lparr>ctx_valid = True, ctx_tag = t, ctx_operandBank = b, ctx_creditsHeld = 0\<rparr>"
  have out: "snd (cs_reserve k t b s) = set_contextArray k ((contextArray k s)[i := ?c]) s"
    using i en by (simp add: cs_reserve_def)
  have i4: "i < cs_capacity k" "i < 4" using first_free_Some [OF i] cs_capacity_le [of k] by auto
  have "contexts_ok k' (snd (cs_reserve k t b s))" for k'
    using inv en i4 unfolding out
    by (cases "k' = k") (auto simp: cs_inv_def contexts_ok_def nth_list_update)
  then show ?thesis using inv by (auto simp: cs_inv_def out)
qed (simp add: inv)

lemma cs_release_inv:
  assumes inv: "cs_inv s"
  shows "cs_inv (snd (cs_release k i t s))"
proof -
  have "contexts_ok k' (snd (cs_release k i t s))" for k'
  proof -
    have ok: "contexts_ok k' s" using inv by (simp add: cs_inv_def)
    have "ctx_valid ((contextArray k s)[i := no_context] ! j) \<Longrightarrow>
        (contextArray k s)[i := no_context] ! j = contextArray k s ! j" for j
      by (cases "i < length (contextArray k s)"; cases "j = i") (auto simp: no_context_def list_update_beyond)
    with ok show ?thesis by (auto simp: cs_release_def contexts_ok_def)
  qed
  then show ?thesis using inv by (auto simp: cs_inv_def cs_release_def)
qed

lemma set_lease_inv:
  assumes "cs_inv s" "lease_refs l \<noteq> 0 \<Longrightarrow> cs_enabled s \<and> tag_generation (lease_tag l) = cs_generation s"
  shows "cs_inv (set_lease i b l s)"
proof (cases "i < kArrayCount")
  case True
  then have mem: "cs_bankLeases s ! i \<in> set (cs_bankLeases s)" using assms(1) by (simp add: cs_inv_def)
  then have "\<forall>l' \<in> set ((cs_bankLeases s ! i)[b := l]). lease_refs l' \<noteq> 0 \<longrightarrow>
      cs_enabled s \<and> tag_generation (lease_tag l') = cs_generation s"
    using assms by (auto simp: cs_inv_def dest!: set_update_subset_insert [THEN subsetD])
  moreover have "length ((cs_bankLeases s ! i)[b := l]) = kOperandBanks"
    using assms(1) mem by (simp add: cs_inv_def)
  moreover have "contexts_ok k (set_lease i b l s)" for k
    using assms(1) by (auto simp: cs_inv_def contexts_ok_def)
  moreover have "set (cs_bankLeases (set_lease i b l s)) \<subseteq> insert ((cs_bankLeases s ! i)[b := l]) (set (cs_bankLeases s))"
    by (simp add: set_lease_def set_update_subset_insert)
  moreover have "length (cs_bankLeases (set_lease i b l s)) = length (cs_bankLeases s)"
    by (simp add: set_lease_def)
  ultimately show ?thesis
    using assms(1) unfolding cs_inv_def set_lease_frame by (metis (no_types, lifting) insertE subsetD)
next
  case False
  then have "set_lease i b l s = s" using assms(1) by (simp add: set_lease_def cs_inv_def list_update_beyond)
  then show ?thesis using assms(1) by simp
qed

lemma lease_generation:
  assumes "cs_inv s" "cs_owns i own s" "b < kOperandBanks" "lease_refs (the_lease i b s) \<noteq> 0"
  shows "cs_enabled s \<and> tag_generation (lease_tag (the_lease i b s)) = cs_generation s"
proof -
  have ls: "cs_bankLeases s ! i \<in> set (cs_bankLeases s)" using assms(1,2) by (simp add: cs_inv_def cs_owns_def)
  then have "the_lease i b s \<in> set (cs_bankLeases s ! i)" using assms(1,3) by (simp add: cs_inv_def)
  with ls assms(1,4) show ?thesis unfolding cs_inv_def by blast
qed

lemma bank_ops_inv:
  assumes "cs_inv s"
  shows "cs_inv (snd (acquireBank i b own t s))" "cs_inv (snd (retainBank i b own t s))"
    "cs_inv (snd (releaseBank i b own t s))"
  using assms lease_generation [OF assms, of i own b]
  by (auto simp: acquireBank_def retainBank_def releaseBank_def Let_def cs_owns_def no_lease_def
      intro!: set_lease_inv)

lemmas cs_preserve [golem_inv] = cs_configure_inv cs_reserve_inv cs_release_inv bank_ops_inv cs_cancel_inv

lemma cs_step_inv: "cs_inv s \<Longrightarrow> cs_inv (cs_step x s)"
  by (cases x) (simp_all add: golem_inv)

lemma cs_run_inv: "cs_inv s \<Longrightarrow> cs_inv (fold cs_step ops s)"
  by (induction ops arbitrary: s) (simp_all add: cs_step_inv)

section \<open>What the state guarantees\<close>

text \<open>C19: in every reachable state only the current generation is live: a context or bank lease
  whose tag belongs to another generation matches no callback and no bank query, no stage holds
  more contexts than its capacity (2 for QK and PV, 4 for score and O), and after \<open>cancel\<close>
  nothing is left: no live context, no bank reference, no array owner.\<close>

theorem cluster_state_one_generation:
  "let s = fold cs_step ops cs_init; s' = snd (cs_cancel s) in
     \<not> (\<exists>k slot tag. callbackMatches k slot tag s \<and> tag_generation tag \<noteq> cs_generation s) \<and>
     \<not> (\<exists>k slot tag. callbackMatches k slot tag s \<and> cs_capacity k \<le> slot) \<and>
     \<not> (\<exists>i b own tag. bankMatches i b own tag s \<and> tag_generation tag \<noteq> cs_generation s) \<and>
     liveContexts KindQk s \<le> 2 \<and> liveContexts KindPv s \<le> 2 \<and>
     liveContexts KindScore s \<le> 4 \<and> liveContexts KindO s \<le> 4 \<and>
     fst (cs_cancel s) = liveContexts_all s \<and>
     liveContexts_all s' = 0 \<and> liveBankRefs s' = 0 \<and> \<not> (\<exists>i own. cs_owns i own s')"
proof -
  define s where "s = fold cs_step ops cs_init"
  have inv: "cs_inv s" unfolding s_def by (rule cs_run_inv [OF cs_init_inv])
  have len: "length (contextArray k s) = 4" for k using inv by (simp add: cs_inv_def contexts_ok_def)
  have cb: "tag_generation tag = cs_generation s \<and> slot < cs_capacity k" if "callbackMatches k slot tag s" for k slot tag
    using that inv len [of k] by (auto simp: callbackMatches_def cs_inv_def contexts_ok_def)
  have bm: "tag_generation tag = cs_generation s" if "bankMatches i b own tag s" for i b own tag
    using that lease_generation [OF inv, of i own b] by (auto simp: bankMatches_def)
  have le: "liveContexts k s \<le> cs_capacity k" for k
    unfolding liveContexts_def using count_if_le [of ctx_valid "take (cs_capacity k) (contextArray k s)"] by simp
  have live: "count_if ctx_valid (contextArray k s) = liveContexts k s" for k
  proof -
    have "\<not> ctx_valid (contextArray k s ! (cs_capacity k + i))" if "cs_capacity k + i < 4" for i
      using inv that unfolding cs_inv_def contexts_ok_def by (meson not_add_less1)
    then have "filter ctx_valid (drop (cs_capacity k) (contextArray k s)) = []"
      using len [of k] by (auto simp: filter_empty_conv in_set_conv_nth)
    then have "filter ctx_valid (contextArray k s) = filter ctx_valid (take (cs_capacity k) (contextArray k s))"
      by (metis append_Nil2 append_take_drop_id filter_append)
    then show ?thesis by (simp add: count_if_def liveContexts_def)
  qed
  have tot: "fst (cs_cancel s) = liveContexts_all s"
    using live [of KindQk] live [of KindScore] live [of KindPv] live [of KindO]
    by (simp add: cs_cancel_def liveContexts_all_def)
  let ?s' = "snd (cs_cancel s)"
  have "liveContexts k ?s' = 0" for k
    using cs_cancel_cleared(1) [OF inv, of k] by (simp add: liveContexts_def take_replicate no_context_def)
  moreover have "liveBankRefs ?s' = 0"
    using cs_cancel_cleared(2) [OF inv] by (simp add: liveBankRefs_def no_lease_def sum_list_replicate)
  moreover have "\<not> (\<exists>i own. cs_owns i own ?s')" using cs_cancel_cleared(3) [OF inv] by (simp add: cs_owns_def)
  ultimately show ?thesis
    using cb bm le [of KindQk] le [of KindPv] le [of KindScore] le [of KindO] tot
    unfolding Let_def s_def [symmetric] by (fastforce simp: cs_capacity_def liveContexts_all_def)
qed

text \<open>An accepted \<open>configure\<close> splits the 64 arrays: QK owns exactly the first
  \<open>qkArrays\<close>, PV exactly the rest, and every table starts empty under the new generation.\<close>

theorem configure_partitions:
  assumes "fst (cs_configure g qk (fold cs_step ops cs_init))"
  shows "let s = snd (cs_configure g qk (fold cs_step ops cs_init)) in
     {i. cs_owns i OwnerQk s} = {..<qk} \<and> {i. cs_owns i OwnerPv s} = {qk..<64} \<and> qk \<in> {16, 24, 32, 40} \<and>
     cs_generation s = g \<and> liveContexts_all s = 0 \<and> liveBankRefs s = 0"
proof -
  define s0 where "s0 = fold cs_step ops cs_init"
  have inv: "cs_inv s0" unfolding s0_def by (rule cs_run_inv [OF cs_init_inv])
  have qk: "qk = 16 \<or> qk = 24 \<or> qk = 32 \<or> qk = 40" and g: "g \<noteq> 0"
    using assms unfolding s0_def [symmetric] by (auto simp: cs_configure_def split: if_splits)
  let ?s = "snd (cs_configure g qk s0)"
  have s: "?s = (snd (cs_cancel s0))\<lparr>cs_enabled := True, cs_generation := g,
      cs_owners := map (\<lambda>i. if i < qk then OwnerQk else OwnerPv) [0..<kArrayCount]\<rparr>"
    using qk g by (auto simp: cs_configure_def)
  have ctx: "contextArray k ?s = replicate 4 no_context" for k
    unfolding s using cs_cancel_cleared(1) [OF inv, of k] by (cases k) auto
  have "liveContexts_all ?s = 0"
    by (simp add: liveContexts_all_def liveContexts_def ctx take_replicate no_context_def)
  moreover have "liveBankRefs ?s = 0"
    using cs_cancel_cleared(2) [OF inv] by (simp add: s liveBankRefs_def no_lease_def sum_list_replicate)
  moreover have "{i. cs_owns i OwnerQk ?s} = {..<qk}" "{i. cs_owns i OwnerPv ?s} = {qk..<64}"
    using qk by (auto simp: s cs_owns_def kArrayCount_def split: if_splits)
  ultimately show ?thesis using qk unfolding s0_def [symmetric] Let_def by (auto simp: s)
qed

theorem configure_partitions_witness:
  "let s = snd (cs_configure 3 24 (fold cs_step [CsConfigure 1 16, CsCancel] cs_init)) in
     {i. cs_owns i OwnerQk s} = {..<24} \<and> cs_generation s = 3"
proof -
  have "fst (cs_configure 3 24 (fold cs_step [CsConfigure 1 16, CsCancel] cs_init))"
    by (simp add: cs_configure_def)
  from configure_partitions [OF this] show ?thesis unfolding Let_def by blast
qed

text \<open>Operations that may end or change a lease held under \<open>tag\<close> on bank \<open>b\<close> of array \<open>i\<close>.\<close>

definition ends_lease :: "nat \<Rightarrow> nat \<Rightarrow> cluster_tag \<Rightarrow> cs_op \<Rightarrow> bool" where
  "ends_lease i b tag x \<longleftrightarrow>
     (case x of CsReleaseBank i' b' _ tag' \<Rightarrow> i' = i \<and> b' = b \<and> tag' = tag
      | CsConfigure _ _ \<Rightarrow> True | CsCancel \<Rightarrow> True | _ \<Rightarrow> False)"

definition retains :: "nat \<Rightarrow> nat \<Rightarrow> array_owner \<Rightarrow> cluster_tag \<Rightarrow> cs_op \<Rightarrow> bool" where
  "retains i b own tag x \<longleftrightarrow> x = CsRetainBank i b own tag"

lemma the_lease_set:
  assumes "cs_inv s" "i < kArrayCount" "b < kOperandBanks"
  shows "the_lease i b (set_lease i' b' l s) = (if i' = i \<and> b' = b then l else the_lease i b s)"
proof -
  have "length (cs_bankLeases s) = kArrayCount" "length (cs_bankLeases s ! i) = kOperandBanks"
    using assms by (auto simp: cs_inv_def)
  with assms(2,3) show ?thesis by (cases "i' = i"; cases "b' = b") (auto simp: set_lease_def)
qed

lemma lease_step:
  assumes inv: "cs_inv s" and i: "i < kArrayCount" "b < kOperandBanks"
    and held: "cs_owns i own s" "lease_refs (the_lease i b s) = n" "0 < n" "n + 1 < 2 ^ 32"
      "lease_tag (the_lease i b s) = tag"
    and x: "\<not> ends_lease i b tag x"
  shows "cs_owns i own (cs_step x s) \<and> lease_tag (the_lease i b (cs_step x s)) = tag \<and>
    lease_refs (the_lease i b (cs_step x s)) = n + (if retains i b own tag x then 1 else 0)"
proof (cases x)
  case (CsAcquireBank i' b' own' t')
  then show ?thesis
    using inv i held by (auto simp: acquireBank_def the_lease_set retains_def cs_owns_def)
next
  case (CsRetainBank i' b' own' t')
  then show ?thesis
    using inv i held by (auto simp: retainBank_def the_lease_set retains_def cs_owns_def)
next
  case (CsReleaseBank i' b' own' t')
  then show ?thesis
    using inv i held x by (auto simp: releaseBank_def the_lease_set retains_def cs_owns_def ends_lease_def Let_def)
next
  case (CsReserve k t bk)
  then show ?thesis using held by (auto simp: cs_reserve_def retains_def cs_owns_def split: option.splits)
next
  case (CsRelease k j t)
  then show ?thesis using held by (auto simp: cs_release_def retains_def cs_owns_def)
qed (use x in \<open>auto simp: ends_lease_def\<close>)

lemma lease_run:
  assumes "cs_inv s" "i < kArrayCount" "b < kOperandBanks" "cs_owns i own s"
    "lease_refs (the_lease i b s) = n" "0 < n" "n + length ops < 2 ^ 32"
    "lease_tag (the_lease i b s) = tag" "\<forall>x \<in> set ops. \<not> ends_lease i b tag x"
  shows "bankMatches i b own tag (fold cs_step ops s) \<and>
    bankRefcount i b (fold cs_step ops s) = n + count_if (retains i b own tag) ops"
  using assms
proof (induction ops arbitrary: s n)
  case Nil
  then show ?case by (simp add: bankMatches_def bankRefcount_def)
next
  case (Cons x ops)
  let ?k = "if retains i b own tag x then 1 else 0 :: nat"
  have step: "cs_owns i own (cs_step x s) \<and> lease_tag (the_lease i b (cs_step x s)) = tag \<and>
      lease_refs (the_lease i b (cs_step x s)) = n + ?k"
    by (rule lease_step) (use Cons.prems in auto)
  have "bankMatches i b own tag (fold cs_step ops (cs_step x s)) \<and>
      bankRefcount i b (fold cs_step ops (cs_step x s)) = (n + ?k) + count_if (retains i b own tag) ops"
    by (rule Cons.IH) (use Cons.prems step cs_step_inv in auto)
  then show ?case by simp
qed



text \<open>\<open>drained\<close> never returns true. In every reachable state it either reads past the end
  of a bank table (\<open>leases[1]\<close> of a one-element array), which happens whenever array 0 holds
  no bank reference and so in particular in the idle state, or it returns false.\<close>

theorem drained_out_of_bounds:
  "let s = fold cs_step ops cs_init in
     cs_drained s = (if bankRefcount 0 0 s = 0 then Inl OutOfBounds else Inr False)"
proof -
  define s where "s = fold cs_step ops cs_init"
  have inv: "cs_inv s" unfolding s_def by (rule cs_run_inv [OF cs_init_inv])
  then obtain ls rest where l: "cs_bankLeases s = ls # rest" "length ls = 1"
    by (cases "cs_bankLeases s") (auto simp: cs_inv_def kArrayCount_def kOperandBanks_def)
  then show ?thesis
    unfolding Let_def s_def [symmetric]
    by (simp add: cs_drained_def array_noBanks_def lease_at_def bankRefcount_def kArrayCount_def kOperandBanks_def)
qed

end
