(* ===== verification/Byte_Codec.thy ===== *)
theory Byte_Codec
  imports Golem_Prelude
begin

text \<open>
  Little-endian images of machine words, as \<open>memcpy\<close> of a struct of integers produces them
  on the simulated little-endian host, and their round trip.
\<close>

unbundle bit_operations_syntax

definition le_bytes :: "nat \<Rightarrow> 'a::len word \<Rightarrow> byte list" where
  "le_bytes n w = map (\<lambda>i. ucast (drop_bit (8 * i) w)) [0..<n]"

definition le_word :: "byte list \<Rightarrow> 'a::len word" where
  "le_word bs = foldr (\<lambda>b acc. push_bit 8 acc OR ucast b) bs 0"

lemma length_le_bytes [simp]: "length (le_bytes n w) = n"
  by (simp add: le_bytes_def)

lemma le_word_simps [simp]:
  "le_word [] = 0" "le_word (b # bs) = push_bit 8 (le_word bs) OR ucast b"
  by (simp_all add: le_word_def)

lemma bit_le_word:
  "bit (le_word bs :: 'a::len word) k \<longleftrightarrow>
     k < LENGTH('a) \<and> k div 8 < length bs \<and> bit (bs ! (k div 8)) (k mod 8)"
proof (induction bs arbitrary: k)
  case Nil
  then show ?case by simp
next
  case (Cons b bs)
  show ?case
  proof (cases "k < 8")
    case True
    then show ?thesis by (auto simp: bit_simps bit_imp_le_length dest: bit_imp_le_length)
  next
    case False
    then have "k div 8 = Suc ((k - 8) div 8)" "k mod 8 = (k - 8) mod 8"
      by (simp_all add: le_div_geq le_mod_geq)
    with False Cons.IH [of "k - 8"] show ?thesis
      by (auto simp: bit_simps dest: bit_imp_le_length)
  qed
qed

lemma le_roundtrip:
  assumes "LENGTH('a) \<le> 8 * n"
  shows "le_word (le_bytes n (w :: 'a::len word)) = w"
proof (rule bit_eqI)
  fix k assume "possible_bit TYPE('a word) k"
  then have k: "k < LENGTH('a)" by simp
  then have d: "k div 8 < n" using assms by (metis less_mult_imp_div_less mult.commute order_less_le_trans)
  then have "bit (le_bytes n w ! (k div 8)) (k mod 8) = bit w (8 * (k div 8) + k mod 8)"
    using k by (simp add: le_bytes_def bit_simps)
  then show "bit (le_word (le_bytes n w) :: 'a word) k = bit w k"
    using k d by (simp add: bit_le_word)
qed

lemma le_bytes_inj:
  assumes "LENGTH('a) \<le> 8 * n" "le_bytes n (v :: 'a::len word) = le_bytes n w"
  shows "v = w"
  using assms le_roundtrip by metis

text \<open>An array of 64-bit fields laid out one after the other.\<close>

definition fields_bytes :: "64 word list \<Rightarrow> byte list" where
  "fields_bytes fs = concat (map (le_bytes 8) fs)"

definition field_at :: "byte list \<Rightarrow> nat \<Rightarrow> 64 word" where
  "field_at bs i = le_word (range_of bs (8 * i) 8)"

lemma length_fields_bytes [simp]: "length (fields_bytes fs) = 8 * length fs"
  by (induction fs) (simp_all add: fields_bytes_def)

lemma field_at_fields_bytes:
  "i < length fs \<Longrightarrow> field_at (fields_bytes fs) i = fs ! i"
proof (induction fs arbitrary: i)
  case Nil
  then show ?case by simp
next
  case (Cons f fs)
  show ?case
  proof (cases i)
    case 0
    have "take 8 (fields_bytes (f # fs)) = le_bytes 8 f" by (simp add: fields_bytes_def)
    with 0 show ?thesis by (simp add: field_at_def range_of_def le_roundtrip)
  next
    case (Suc j)
    then have "range_of (fields_bytes (f # fs)) (8 * i) 8 = range_of (fields_bytes fs) (8 * j) 8"
      by (simp add: range_of_def fields_bytes_def)
    with Suc Cons show ?thesis by (simp add: field_at_def)
  qed
qed

end
