(* ===== verification/Decoder_Layout.thy ===== *)
theory Decoder_Layout
  imports Byte_Codec
begin

text \<open>
  \<^verbatim>\<open>golem/attention/decoderMemoryLayout.h\<close>: the HBM allocator that guest, accelerator and host
  share, and the static map of a worker's global memory; with
  \<^verbatim>\<open>golem/attention/softwareLayerResidency.h\<close>, the 64-byte ownership record of a layer's
  resident activation, and \<^verbatim>\<open>golem/workercmdproc/partialCPrefetch.h\<close>.

  The source's \<open>m.field = alloc(name, bytes, layer)\<close> is \<open>assign field_update name bytes layer\<close>
  on the layout record.
\<close>

unbundle bit_operations_syntax

section \<open>The worker's global memory map\<close>

definition node_stride :: nat where "node_stride = 0x08000000"
definition gm_stride :: nat where "gm_stride = 0x00200000"

definition release_flags :: "nat list" where
  "release_flags = [0x1008, 0x1010, 0x1018, 0x1020, 0x1028, 0x1030]"

definition gm_descriptor :: nat where "gm_descriptor = 0x3000"
definition gm_topology :: nat where "gm_topology = 0x1100"
definition gm_attention_descriptor :: nat where "gm_attention_descriptor = 0x2000"
definition projection_scratch :: nat where "projection_scratch = 0x8000"
definition decoder_input_gm :: nat where "decoder_input_gm = 0x10000"
definition decoder_weight_gm :: nat where "decoder_weight_gm = 0x110000"
definition decoder_epilogue_gm :: nat where "decoder_epilogue_gm = decoder_input_gm + 64 * 2048 * 2"
definition decoder_shared_weight_gm :: nat where "decoder_shared_weight_gm = decoder_input_gm + 0x60000"
definition decoder_pipeline_producer_c_gm :: nat where "decoder_pipeline_producer_c_gm = 0x80000"
definition decoder_pipeline_down_c_gm :: nat where "decoder_pipeline_down_c_gm = 0x90000"
definition decoder_norm_handoff_gm :: nat where "decoder_norm_handoff_gm = 0xb0000"
definition decoder_norm_handoff_bytes :: nat where "decoder_norm_handoff_bytes = 64 * 2048 * 2"
definition decoder_pv_wo_landing_gm :: nat where "decoder_pv_wo_landing_gm = 0x1a0000"
definition decoder_pv_wo_landing_bytes :: nat where "decoder_pv_wo_landing_bytes = 64 * 2048 * 2"
definition decoder_pv_wo_weight_gm :: nat where "decoder_pv_wo_weight_gm = decoder_input_gm"
definition decoder_pv_wo_weight_bytes :: nat where "decoder_pv_wo_weight_bytes = 4 * 8192"
definition decoder_wo_handoff_gm :: nat where "decoder_wo_handoff_gm = 0x70000"
definition decoder_wo_handoff_bytes :: nat where "decoder_wo_handoff_bytes = 64 * 2048 * 2"
definition decoder_output_gm :: nat where "decoder_output_gm = 0x112000"
definition decoder_panel_bytes :: nat where "decoder_panel_bytes = 64 * 1024 * 2"
definition decoder_prefetch_slots :: nat where "decoder_prefetch_slots = 8"
definition decoder_prefetch_gm :: nat where
  "decoder_prefetch_gm = decoder_output_gm + 2 * decoder_panel_bytes"
definition decoder_ffn_up_gm :: nat where
  "decoder_ffn_up_gm = decoder_prefetch_gm + decoder_prefetch_slots * 8192"
definition decoder_required_gm :: nat where
  "decoder_required_gm = decoder_ffn_up_gm + 2 * decoder_panel_bytes"
definition decoder_down_weight_gm :: nat where "decoder_down_weight_gm = decoder_required_gm"
definition decoder_down_output_gm :: nat where
  "decoder_down_output_gm = decoder_down_weight_gm + decoder_prefetch_slots * 8192"
definition decoder_down_required_gm :: nat where
  "decoder_down_required_gm = decoder_down_output_gm + 2 * decoder_panel_bytes"

lemmas gm_consts = node_stride_def gm_stride_def gm_descriptor_def gm_topology_def
  gm_attention_descriptor_def projection_scratch_def decoder_input_gm_def decoder_weight_gm_def
  decoder_epilogue_gm_def decoder_shared_weight_gm_def decoder_pipeline_producer_c_gm_def
  decoder_pipeline_down_c_gm_def decoder_norm_handoff_gm_def decoder_norm_handoff_bytes_def
  decoder_pv_wo_landing_gm_def decoder_pv_wo_landing_bytes_def decoder_pv_wo_weight_gm_def
  decoder_pv_wo_weight_bytes_def decoder_wo_handoff_gm_def decoder_wo_handoff_bytes_def
  decoder_output_gm_def decoder_panel_bytes_def decoder_prefetch_slots_def decoder_prefetch_gm_def
  decoder_ffn_up_gm_def decoder_required_gm_def decoder_down_weight_gm_def
  decoder_down_output_gm_def decoder_down_required_gm_def release_flags_def

text \<open>The ranges (offset, bytes) of the fused FFN path, which are live at the same time: the op9
  input, the residual epilogue, the shared cohort weights, the two C scratches, the retained
  Norm2 rows, the weight slot, the output panels, the prefetch slots, the up panels, the down
  weights and the down output.\<close>

definition ffn_ranges :: "(nat \<times> nat) list" where
  "ffn_ranges =
    [(decoder_input_gm, 64 * 2048 * 2), (decoder_epilogue_gm, 8192), (decoder_shared_weight_gm, 8 * 8192),
     (decoder_pipeline_producer_c_gm, 4 * 64 * 256), (decoder_pipeline_down_c_gm, 4 * 64 * 256),
     (decoder_norm_handoff_gm, decoder_norm_handoff_bytes), (decoder_weight_gm, 8192),
     (decoder_output_gm, 2 * decoder_panel_bytes), (decoder_prefetch_gm, decoder_prefetch_slots * 8192),
     (decoder_ffn_up_gm, 2 * decoder_panel_bytes), (decoder_down_weight_gm, decoder_prefetch_slots * 8192),
     (decoder_down_output_gm, 2 * decoder_panel_bytes)]"

text \<open>The PV to Wo path: direct Wo weights, Wo handoff, retained residual input, V cache and
  staging, landing.\<close>

definition pv_wo_ranges :: "(nat \<times> nat) list" where
  "pv_wo_ranges =
    [(decoder_pv_wo_weight_gm, decoder_pv_wo_weight_bytes), (decoder_wo_handoff_gm, decoder_wo_handoff_bytes),
     (decoder_norm_handoff_gm, decoder_norm_handoff_bytes), (0x100000, 0x80000), (0x180000, 0x8000),
     (decoder_pv_wo_landing_gm, decoder_pv_wo_landing_bytes)]"

definition ranges_fit :: "nat \<Rightarrow> (nat \<times> nat) list \<Rightarrow> bool" where
  "ranges_fit limit rs \<longleftrightarrow>
     sorted_wrt (\<lambda>(a, n) (b, m). a + n \<le> b) rs \<and> list_all (\<lambda>(a, n). 0 < n \<and> a + n \<le> limit) rs"

section \<open>The HBM allocator\<close>

record dmem_layer =
  ly_input :: nat
  ly_output :: nat
  ly_gamma1 :: nat
  ly_gamma2 :: nat
  ly_qkv_weight :: nat
  ly_wo_weight :: nat
  ly_gate_weight :: nat
  ly_up_weight :: nat
  ly_down_weight :: nat

record dmem_region =
  rg_name :: string
  rg_layer :: nat
  rg_offset :: nat
  rg_bytes :: nat

record decoder_layout =
  dl_activation0 :: nat
  dl_activation1 :: nat
  dl_projection_done :: nat
  dl_decoder_done :: nat
  dl_norm1 :: nat
  dl_q :: nat
  dl_k :: nat
  dl_v :: nat
  dl_o :: nat
  dl_q_panel :: nat
  dl_k_panel :: nat
  dl_v_panel :: nat
  dl_rope :: nat
  dl_wo :: nat
  dl_h1 :: nat
  dl_norm2 :: nat
  dl_gate :: nat
  dl_up :: nat
  dl_act :: nat
  dl_gated :: nat
  dl_down :: nat
  dl_used_bytes :: nat
  dl_final_gamma :: nat
  dl_final_output :: nat
  dl_final_done :: nat
  dl_hbm_node_stride :: nat
  dl_lm_weight :: nat
  dl_lm_output :: nat
  dl_lm_done :: nat
  dl_vocab :: nat
  dl_sequence :: nat
  dl_embedding_tokens :: nat
  dl_embedding_weight :: nat
  dl_embedding_output :: nat
  dl_embedding_done :: nat
  dl_valid :: bool
  dl_layers :: "dmem_layer list"
  dl_regions :: "dmem_region list"

definition empty_layout :: decoder_layout where
  "empty_layout = \<lparr>dl_activation0 = 0, dl_activation1 = 0, dl_projection_done = 0,
     dl_decoder_done = 0, dl_norm1 = 0, dl_q = 0, dl_k = 0, dl_v = 0, dl_o = 0, dl_q_panel = 0,
     dl_k_panel = 0, dl_v_panel = 0, dl_rope = 0, dl_wo = 0, dl_h1 = 0, dl_norm2 = 0, dl_gate = 0,
     dl_up = 0, dl_act = 0, dl_gated = 0, dl_down = 0, dl_used_bytes = 0, dl_final_gamma = 0,
     dl_final_output = 0, dl_final_done = 0, dl_hbm_node_stride = node_stride, dl_lm_weight = 0,
     dl_lm_output = 0, dl_lm_done = 0, dl_vocab = 0, dl_sequence = 0, dl_embedding_tokens = 0,
     dl_embedding_weight = 0, dl_embedding_output = 0, dl_embedding_done = 0, dl_valid = False,
     dl_layers = [], dl_regions = []\<rparr>"

text \<open>\<open>(used + 4095) & ~4095\<close> on 64 bits.\<close>

definition align4k :: "nat \<Rightarrow> nat" where
  "align4k used = unat ((of_nat (used + 4095) :: 64 word) AND NOT 4095)"

definition alloc :: "string \<Rightarrow> nat \<Rightarrow> nat \<Rightarrow> decoder_layout \<Rightarrow> nat \<times> decoder_layout" where
  "alloc name bytes layer m =
    (let offset = align4k (dl_used_bytes m)
     in (offset, m\<lparr>dl_used_bytes := u64 (offset + bytes),
           dl_regions := dl_regions m @
             [\<lparr>rg_name = name, rg_layer = layer, rg_offset = offset, rg_bytes = bytes\<rparr>]\<rparr>))"

definition assign ::
  "((nat \<Rightarrow> nat) \<Rightarrow> decoder_layout \<Rightarrow> decoder_layout) \<Rightarrow> string \<Rightarrow> nat \<Rightarrow> nat \<Rightarrow> decoder_layout \<Rightarrow> decoder_layout"
where
  "assign field_update name bytes layer m =
    (case alloc name bytes layer m of (offset, m') \<Rightarrow> field_update (\<lambda>_. offset) m')"

definition fixed_regions :: "nat \<Rightarrow> nat \<Rightarrow> nat \<Rightarrow> decoder_layout \<Rightarrow> decoder_layout" where
  "fixed_regions q kv ropeBytes = fold (\<lambda>f m. f m)
    [assign dl_activation0_update ''activation0'' q 0, assign dl_activation1_update ''activation1'' q 0,
     assign dl_projection_done_update ''projection_done'' 32 0,
     assign dl_decoder_done_update ''decoder_done'' 32 0,
     assign dl_norm1_update ''norm1'' q 0, assign dl_q_update ''q'' q 0,
     assign dl_k_update ''k'' kv 0, assign dl_v_update ''v'' kv 0, assign dl_o_update ''o'' q 0,
     assign dl_q_panel_update ''q_panel'' q 0, assign dl_k_panel_update ''k_panel'' kv 0,
     assign dl_v_panel_update ''v_panel'' kv 0, assign dl_rope_update ''rope'' ropeBytes 0,
     assign dl_wo_update ''wo'' q 0, assign dl_h1_update ''h1'' q 0, assign dl_norm2_update ''norm2'' q 0,
     assign dl_gate_update ''gate'' (u64 (4 * q)) 0, assign dl_up_update ''up'' (u64 (4 * q)) 0,
     assign dl_act_update ''act'' (u64 (4 * q)) 0, assign dl_gated_update ''gated'' (u64 (4 * q)) 0,
     assign dl_down_update ''down'' q 0]"

definition activation :: "decoder_layout \<Rightarrow> nat \<Rightarrow> nat" where
  "activation m i = (if i = 0 then dl_activation0 m else dl_activation1 m)"

text \<open>One iteration of the layer loop. \<open>qkv\<close> is \<open>(hq + 2 * hkv) * dim\<close>, a 32-bit product.\<close>

definition layer_step :: "bool \<Rightarrow> nat \<Rightarrow> nat \<Rightarrow> nat \<Rightarrow> nat \<Rightarrow> decoder_layout \<Rightarrow> decoder_layout" where
  "layer_step retain q hidden qkv layer m =
    (let intermediate = u64 (4 * hidden);
         input = (if retain \<and> layer \<noteq> 0 then ly_output (last (dl_layers m)) else activation m (layer mod 2));
         (output, m0) = (if retain \<and> layer \<noteq> 0 then alloc ''retained_output'' q (layer + 1) m
                         else (activation m ((layer + 1) mod 2), m));
         (gamma1, m1) = alloc ''gamma1'' (u64 (hidden * 2)) (layer + 1) m0;
         (gamma2, m2) = alloc ''gamma2'' (u64 (hidden * 2)) (layer + 1) m1;
         (qkv_weight, m3) = alloc ''qkv_weight'' (u64 (qkv * hidden * 2)) (layer + 1) m2;
         (wo_weight, m4) = alloc ''wo_weight'' (u64 (hidden * hidden * 2) div 4) (layer + 1) m3;
         (gate_weight, m5) = alloc ''gate_weight'' (u64 (intermediate * hidden * 2) div 4) (layer + 1) m4;
         (up_weight, m6) = alloc ''up_weight'' (u64 (intermediate * hidden * 2) div 4) (layer + 1) m5;
         (down_weight, m7) = alloc ''down_weight'' (u64 (hidden * intermediate * 2) div 4) (layer + 1) m6
     in m7\<lparr>dl_layers := dl_layers m7 @
          [\<lparr>ly_input = input, ly_output = output, ly_gamma1 = gamma1, ly_gamma2 = gamma2,
            ly_qkv_weight = qkv_weight, ly_wo_weight = wo_weight, ly_gate_weight = gate_weight,
            ly_up_weight = up_weight, ly_down_weight = down_weight\<rparr>]\<rparr>)"

definition final_regions :: "nat \<Rightarrow> nat \<Rightarrow> decoder_layout \<Rightarrow> decoder_layout" where
  "final_regions q hidden = fold (\<lambda>f m. f m)
    [assign dl_final_gamma_update ''final_gamma'' (u64 (hidden * 2)) 0,
     assign dl_final_output_update ''final_output'' q 0, assign dl_final_done_update ''final_done'' 32 0]"

definition lm_regions :: "nat \<Rightarrow> nat \<Rightarrow> decoder_layout \<Rightarrow> decoder_layout" where
  "lm_regions vocab hidden =
    (let tiles = (vocab + 63) div 64
     in fold (\<lambda>f m. f m)
       [assign dl_lm_weight_update ''lm_weight'' (u64 (((tiles + 3) div 4) * hidden * 64 * 2)) 0,
        assign dl_lm_output_update ''lm_output'' (u64 (((vocab + 63) div 64) * 64 * 2)) 0,
        assign dl_lm_done_update ''lm_done'' 32 0])"

definition embedding_regions :: "nat \<Rightarrow> nat \<Rightarrow> nat \<Rightarrow> nat \<Rightarrow> decoder_layout \<Rightarrow> decoder_layout" where
  "embedding_regions sequence vocab q hidden m =
    (let m' = fold (\<lambda>f m. f m)
       [assign dl_embedding_tokens_update ''embedding_tokens'' (u64 ((sequence div 4) * 4)) 0,
        assign dl_embedding_weight_update ''embedding_weight'' (u64 (((vocab + 3) div 4) * hidden * 2)) 0,
        assign dl_embedding_output_update ''embedding_output'' q 0,
        assign dl_embedding_done_update ''embedding_done'' 32 0] m
     in m'\<lparr>dl_layers := (dl_layers m')[0 := (dl_layers m' ! 0)\<lparr>ly_input := dl_embedding_output m'\<rparr>]\<rparr>)"

definition layout_refused ::
  "nat \<Rightarrow> nat \<Rightarrow> nat \<Rightarrow> nat \<Rightarrow> nat \<Rightarrow> bool \<Rightarrow> nat \<Rightarrow> nat \<Rightarrow> bool \<Rightarrow> bool" where
  "layout_refused sequence hq hkv dim layers final_norm vocab node_bytes embedding \<longleftrightarrow>
    (let hidden = u64 (hq * dim)
     in sequence = 0 \<or> sequence mod 1024 \<noteq> 0 \<or> sequence > 8192 \<or> dim \<noteq> 64 \<or>
        (hidden \<noteq> 256 \<and> hidden \<noteq> 2048) \<or> hkv = 0 \<or> hq mod hkv \<noteq> 0 \<or> layers = 0 \<or> layers > 32 \<or>
        (vocab \<noteq> 0 \<and> \<not> final_norm) \<or> (embedding \<and> vocab = 0) \<or> vocab > 1048576 \<or>
        node_bytes < node_stride \<or> and node_bytes (node_bytes - 1) \<noteq> 0)"

definition makeDecoderMemoryLayout ::
  "nat \<Rightarrow> nat \<Rightarrow> nat \<Rightarrow> nat \<Rightarrow> nat \<Rightarrow> bool \<Rightarrow> nat \<Rightarrow> nat \<Rightarrow> bool \<Rightarrow> bool \<Rightarrow> decoder_layout" where
  "makeDecoderMemoryLayout sequence hq hkv dim layers final_norm vocab node_bytes embedding retain =
    (let m = empty_layout\<lparr>dl_hbm_node_stride := node_bytes, dl_vocab := vocab, dl_sequence := sequence\<rparr>;
         hidden = u64 (hq * dim)
     in if layout_refused sequence hq hkv dim layers final_norm vocab node_bytes embedding then m
        else
          let q = u64 ((sequence div 4) * hidden * 2);
              kv = u64 ((sequence div 4) * hkv * dim * 2);
              m1 = fixed_regions q kv (u64 (sequence * dim * 2)) m;
              m2 = fold (layer_step retain q hidden (u32 ((hq + 2 * hkv) * dim))) [0..<layers] m1;
              m3 = (if final_norm then final_regions q hidden m2 else m2);
              m4 = (if vocab \<noteq> 0 then lm_regions vocab hidden m3 else m3);
              m5 = (if embedding then embedding_regions sequence vocab q hidden m4 else m4)
          in m5\<lparr>dl_valid := dl_used_bytes m5 \<le> dl_hbm_node_stride m5\<rparr>)"

section \<open>The abstract allocation plan\<close>

text \<open>A plan is the sequence of (name, layer, bytes) requests; \<open>place\<close> puts them one after the
  other on 4 KiB boundaries.\<close>

type_synonym request = "string \<times> nat \<times> nat"

definition place_one :: "request \<Rightarrow> nat \<times> dmem_region list \<Rightarrow> nat \<times> dmem_region list" where
  "place_one r ur =
    (case r of (name, layer, bytes) \<Rightarrow> case ur of (used, rs) \<Rightarrow>
       let offset = align4k used
       in (u64 (offset + bytes),
           rs @ [\<lparr>rg_name = name, rg_layer = layer, rg_offset = offset, rg_bytes = bytes\<rparr>]))"

definition core :: "decoder_layout \<Rightarrow> nat \<times> dmem_region list" where
  "core m = (dl_used_bytes m, dl_regions m)"

definition fixed_plan :: "nat \<Rightarrow> nat \<Rightarrow> nat \<Rightarrow> request list" where
  "fixed_plan q kv ropeBytes =
    [(''activation0'', 0, q), (''activation1'', 0, q), (''projection_done'', 0, 32),
     (''decoder_done'', 0, 32), (''norm1'', 0, q), (''q'', 0, q), (''k'', 0, kv), (''v'', 0, kv),
     (''o'', 0, q), (''q_panel'', 0, q), (''k_panel'', 0, kv), (''v_panel'', 0, kv),
     (''rope'', 0, ropeBytes), (''wo'', 0, q), (''h1'', 0, q), (''norm2'', 0, q),
     (''gate'', 0, u64 (4 * q)), (''up'', 0, u64 (4 * q)), (''act'', 0, u64 (4 * q)),
     (''gated'', 0, u64 (4 * q)), (''down'', 0, q)]"

definition layer_plan :: "bool \<Rightarrow> nat \<Rightarrow> nat \<Rightarrow> nat \<Rightarrow> nat \<Rightarrow> request list" where
  "layer_plan retain q hidden qkv layer =
    (if retain \<and> layer \<noteq> 0 then [(''retained_output'', layer + 1, q)] else []) @
    [(''gamma1'', layer + 1, u64 (hidden * 2)), (''gamma2'', layer + 1, u64 (hidden * 2)),
     (''qkv_weight'', layer + 1, u64 (qkv * hidden * 2)),
     (''wo_weight'', layer + 1, u64 (hidden * hidden * 2) div 4),
     (''gate_weight'', layer + 1, u64 (u64 (4 * hidden) * hidden * 2) div 4),
     (''up_weight'', layer + 1, u64 (u64 (4 * hidden) * hidden * 2) div 4),
     (''down_weight'', layer + 1, u64 (hidden * u64 (4 * hidden) * 2) div 4)]"

definition tail_plan :: "nat \<Rightarrow> nat \<Rightarrow> nat \<Rightarrow> bool \<Rightarrow> nat \<Rightarrow> bool \<Rightarrow> request list" where
  "tail_plan sequence q hidden final_norm vocab embedding =
    (if final_norm then [(''final_gamma'', 0, u64 (hidden * 2)), (''final_output'', 0, q), (''final_done'', 0, 32)] else []) @
    (if vocab \<noteq> 0 then
       [(''lm_weight'', 0, u64 ((((vocab + 63) div 64 + 3) div 4) * hidden * 64 * 2)),
        (''lm_output'', 0, u64 (((vocab + 63) div 64) * 64 * 2)), (''lm_done'', 0, 32)] else []) @
    (if embedding then
       [(''embedding_tokens'', 0, u64 ((sequence div 4) * 4)),
        (''embedding_weight'', 0, u64 (((vocab + 3) div 4) * hidden * 2)),
        (''embedding_output'', 0, q), (''embedding_done'', 0, 32)] else [])"

lemma core_alloc: "core (snd (alloc name bytes layer m)) = place_one (name, layer, bytes) (core m)"
  by (simp add: alloc_def core_def place_one_def Let_def)

lemma alloc_frame:
  "dl_layers (snd (alloc n b l m)) = dl_layers m"
  "activation (snd (alloc n b l m)) i = activation m i"
  "dl_hbm_node_stride (snd (alloc n b l m)) = dl_hbm_node_stride m"
  by (simp_all add: alloc_def Let_def activation_def)

lemma core_assign:
  "(\<And>g m. core (f g m) = core m) \<Longrightarrow> core (assign f n b l m) = place_one (n, l, b) (core m)"
  using core_alloc [of n b l m] by (simp add: assign_def case_prod_beta)

lemma core_fields [simp]:
  "core (dl_activation0_update g m) = core m" "core (dl_activation1_update g m) = core m"
  "core (dl_projection_done_update g m) = core m" "core (dl_decoder_done_update g m) = core m"
  "core (dl_norm1_update g m) = core m" "core (dl_q_update g m) = core m" "core (dl_k_update g m) = core m"
  "core (dl_v_update g m) = core m" "core (dl_o_update g m) = core m" "core (dl_q_panel_update g m) = core m"
  "core (dl_k_panel_update g m) = core m" "core (dl_v_panel_update g m) = core m"
  "core (dl_rope_update g m) = core m" "core (dl_wo_update g m) = core m" "core (dl_h1_update g m) = core m"
  "core (dl_norm2_update g m) = core m" "core (dl_gate_update g m) = core m" "core (dl_up_update g m) = core m"
  "core (dl_act_update g m) = core m" "core (dl_gated_update g m) = core m" "core (dl_down_update g m) = core m"
  "core (dl_final_gamma_update g m) = core m" "core (dl_final_output_update g m) = core m"
  "core (dl_final_done_update g m) = core m" "core (dl_lm_weight_update g m) = core m"
  "core (dl_lm_output_update g m) = core m" "core (dl_lm_done_update g m) = core m"
  "core (dl_embedding_tokens_update g m) = core m" "core (dl_embedding_weight_update g m) = core m"
  "core (dl_embedding_output_update g m) = core m" "core (dl_embedding_done_update g m) = core m"
  "core (dl_layers_update h m) = core m" "core (dl_valid_update b m) = core m"
  by (simp_all add: core_def)

lemma core_fixed:
  "core (fixed_regions q kv r m) = fold place_one (fixed_plan q kv r) (core m)"
  by (simp add: fixed_regions_def fixed_plan_def core_assign)

lemma core_layer:
  "core (layer_step retain q hidden qkv layer m) = fold place_one (layer_plan retain q hidden qkv layer) (core m)"
  by (simp add: layer_step_def layer_plan_def Let_def case_prod_beta core_alloc)

lemma core_layers:
  "core (fold (layer_step retain q hidden qkv) ls m) =
    fold place_one (concat (map (layer_plan retain q hidden qkv) ls)) (core m)"
  by (induction ls arbitrary: m) (simp_all add: core_layer)

lemma core_tail:
  "core (final_regions q hidden m) =
    fold place_one [(''final_gamma'', 0, u64 (hidden * 2)), (''final_output'', 0, q), (''final_done'', 0, 32)] (core m)"
  "core (lm_regions vocab hidden m) =
    fold place_one [(''lm_weight'', 0, u64 ((((vocab + 63) div 64 + 3) div 4) * hidden * 64 * 2)),
        (''lm_output'', 0, u64 (((vocab + 63) div 64) * 64 * 2)), (''lm_done'', 0, 32)] (core m)"
  "core (embedding_regions s vocab q hidden m) =
    fold place_one [(''embedding_tokens'', 0, u64 ((s div 4) * 4)),
        (''embedding_weight'', 0, u64 (((vocab + 3) div 4) * hidden * 2)),
        (''embedding_output'', 0, q), (''embedding_done'', 0, 32)] (core m)"
  by (simp_all add: final_regions_def lm_regions_def embedding_regions_def core_assign Let_def)

definition layout_plan :: "nat \<Rightarrow> nat \<Rightarrow> nat \<Rightarrow> nat \<Rightarrow> bool \<Rightarrow> nat \<Rightarrow> bool \<Rightarrow> bool \<Rightarrow> request list" where
  "layout_plan sequence hq hkv layers final_norm vocab embedding retain =
    (let hidden = u64 (hq * 64); q = u64 ((sequence div 4) * hidden * 2)
     in fixed_plan q (u64 ((sequence div 4) * hkv * 64 * 2)) (u64 (sequence * 64 * 2)) @
        concat (map (layer_plan retain q hidden (u32 ((hq + 2 * hkv) * 64))) [0..<layers]) @
        tail_plan sequence q hidden final_norm vocab embedding)"

lemma layout_core:
  assumes "\<not> layout_refused sequence hq hkv dim layers final_norm vocab node_bytes embedding"
  shows "core (makeDecoderMemoryLayout sequence hq hkv dim layers final_norm vocab node_bytes embedding retain) =
    fold place_one (layout_plan sequence hq hkv layers final_norm vocab embedding retain) (0, [])"
proof -
  have dim: "dim = 64" using assms by (simp add: layout_refused_def Let_def)

  have init: "core (empty_layout\<lparr>dl_hbm_node_stride := a, dl_vocab := b, dl_sequence := c\<rparr>) = (0, [])" for a b c
    by (simp add: core_def empty_layout_def)
  show ?thesis
    using assms
    by (simp add: makeDecoderMemoryLayout_def Let_def dim init core_fixed core_layers layout_plan_def
        core_tail tail_plan_def)
qed

section \<open>Placement\<close>

lemma align4k_ge: "used + 4095 < 2 ^ 64 \<Longrightarrow> used \<le> align4k used \<and> align4k used \<le> used + 4095 \<and> align4k used mod 4096 = 0"
proof -
  assume u: "used + 4095 < 2 ^ 64"
  let ?w = "of_nat (used + 4095) :: 64 word"
  have w: "unat ?w = used + 4095" using u by (simp only: unat_of_nat) (simp add: mod_less)
  have "?w AND NOT 4095 = push_bit 12 (drop_bit 12 ?w)"
  proof (rule bit_eqI)
    fix n assume "possible_bit TYPE(64 word) n"
    have m: "(4095 :: 64 word) = mask 12" by (simp add: mask_eq_exp_minus_1)
    show "bit (?w AND NOT 4095) n = bit (push_bit 12 (drop_bit 12 ?w)) n"
      unfolding m by (auto simp: bit_simps simp del: of_nat_add)
  qed
  moreover have "unat (push_bit 12 (drop_bit 12 ?w)) = (used + 4095) div 4096 * 4096"
  proof -
    have "unat (drop_bit 12 ?w) = (used + 4095) div 4096"
      using u by (simp only: unsigned_drop_bit_eq w) (simp add: drop_bit_eq_div take_bit_nat_eq_self)
    moreover have "(used + 4095) div 4096 * 4096 < 2 ^ 64" using u by linarith
    ultimately show ?thesis
      by (simp add: push_bit_eq_mult unat_mult_lem [THEN iffD1] unat_word_ariths)
  qed
  ultimately have "align4k used = (used + 4095) div 4096 * 4096" by (simp add: align4k_def)
  then show ?thesis by (simp add: div_mult_mod_eq [symmetric])
qed

definition before :: "dmem_region \<Rightarrow> dmem_region \<Rightarrow> bool" where
  "before r s \<longleftrightarrow> rg_offset r + rg_bytes r \<le> rg_offset s"

definition placed :: "nat \<times> dmem_region list \<Rightarrow> bool" where
  "placed ur \<longleftrightarrow> sorted_wrt before (snd ur) \<and>
     (\<forall>r \<in> set (snd ur). rg_offset r mod 4096 = 0 \<and> rg_offset r + rg_bytes r \<le> fst ur) \<and>
     fst ur \<le> length (snd ur) * 2 ^ 31"

definition small :: "request list \<Rightarrow> bool" where
  "small p \<longleftrightarrow> (\<forall>(name, layer, bytes) \<in> set p. bytes \<le> 2 ^ 30)"

lemma place_one_placed:
  assumes "placed ur" "length (snd ur) < 1000" "bytes \<le> 2 ^ 30"
  shows "placed (place_one (name, layer, bytes) ur)"
proof -
  obtain used rs where ur: "ur = (used, rs)" by (cases ur)
  have used: "used \<le> length rs * 2 ^ 31" "length rs < 1000" using assms ur by (auto simp: placed_def)
  then have "used \<le> 1000 * 2 ^ 31" by simp
  then have a: "used \<le> align4k used" "align4k used \<le> used + 4095" "align4k used mod 4096 = 0"
    using align4k_ge [of used] by auto
  have s: "u64 (align4k used + bytes) = align4k used + bytes"
    using a \<open>used \<le> 1000 * 2 ^ 31\<close> assms(3) by (intro u64_id) simp
  have bound: "align4k used + bytes \<le> (length rs + 1) * 2 ^ 31"
    using a used(1) assms(3) by (simp add: algebra_simps)
  have old: "before r \<lparr>rg_name = name, rg_layer = layer, rg_offset = align4k used, rg_bytes = bytes\<rparr>"
    if "r \<in> set rs" for r
    using assms(1) that a(1) by (auto simp: placed_def ur before_def)
  have le: "rg_offset r + rg_bytes r \<le> align4k used + bytes" if "r \<in> set rs" for r
    using assms(1) that a(1) by (fastforce simp: placed_def ur)
  show ?thesis
    using assms(1) a(3) s bound old le
    by (auto simp: place_one_def ur Let_def placed_def sorted_wrt_append)
qed

lemma place_one_regions:
  "map (\<lambda>r. (rg_name r, rg_layer r, rg_bytes r)) (snd (place_one p ur)) =
    map (\<lambda>r. (rg_name r, rg_layer r, rg_bytes r)) (snd ur) @ [p]"
  by (cases p; cases ur) (simp add: place_one_def Let_def)

lemma place_placed:
  assumes "placed ur" "length (snd ur) + length p \<le> 1000" "small p"
  shows "placed (fold place_one p ur) \<and>
    map (\<lambda>r. (rg_name r, rg_layer r, rg_bytes r)) (snd (fold place_one p ur)) =
    map (\<lambda>r. (rg_name r, rg_layer r, rg_bytes r)) (snd ur) @ p"
  using assms
proof (induction p arbitrary: ur)
  case Nil
  then show ?case by simp
next
  case (Cons x p)
  obtain n l b where x: "x = (n, l, b)" by (cases x)
  have "placed (place_one x ur)"
    unfolding x by (rule place_one_placed) (use Cons.prems x in \<open>auto simp: small_def\<close>)
  moreover have "length (snd (place_one x ur)) = Suc (length (snd ur))"
    by (cases ur) (simp add: x place_one_def Let_def)
  moreover have "small p" using Cons.prems(3) by (simp add: small_def)
  ultimately have "placed (fold place_one p (place_one x ur)) \<and>
      map (\<lambda>r. (rg_name r, rg_layer r, rg_bytes r)) (snd (fold place_one p (place_one x ur))) =
      map (\<lambda>r. (rg_name r, rg_layer r, rg_bytes r)) (snd (place_one x ur)) @ p"
    using Cons.prems(2) by (intro Cons.IH) simp_all
  then show ?case unfolding place_one_regions [of x ur] by simp
qed

lemma accepted_geometry:
  assumes "\<not> layout_refused sequence hq hkv dim layers final_norm vocab node_bytes embedding" "hq < 2 ^ 32"
  shows "dim = 64 \<and> (hq = 4 \<or> hq = 32) \<and> 1 \<le> hkv \<and> hkv \<le> hq \<and> hkv dvd hq \<and> 1024 \<le> sequence \<and> sequence \<le> 8192 \<and>
    1 \<le> layers \<and> layers \<le> 32 \<and> vocab \<le> 1048576 \<and> node_stride \<le> node_bytes"
proof -
  from assms(1) have dim: "dim = 64" and hkv: "hkv \<noteq> 0" "hq mod hkv = 0"
    and hid: "u64 (hq * 64) = 256 \<or> u64 (hq * 64) = 2048"
    and rest: "sequence \<noteq> 0" "sequence mod 1024 = 0" "sequence \<le> 8192" "layers \<noteq> 0" "layers \<le> 32"
      "vocab \<le> 1048576" "node_stride \<le> node_bytes"
    by (auto simp: layout_refused_def Let_def not_le not_less)
  have "u64 (hq * 64) = hq * 64" using assms(2) by (intro u64_id) simp
  with hid have hq: "hq = 4 \<or> hq = 32" by auto
  moreover have "hkv dvd hq" using hkv by (simp add: mod_eq_0_iff_dvd)
  moreover from this hq have "hkv \<le> hq" by (auto dest: dvd_imp_le)
  moreover have "1024 \<le> sequence" using rest(1,2) by (metis dvd_imp_le mod_eq_0_iff_dvd neq0_conv)
  ultimately show ?thesis using dim hkv rest by auto
qed

lemma layout_plan_small:
  assumes "hq = 4 \<or> hq = 32" "hkv \<le> hq" "sequence \<le> 8192" "vocab \<le> 1048576" "layers \<le> 32"
  shows "small (layout_plan sequence hq hkv layers final_norm vocab embedding retain)"
    "length (layout_plan sequence hq hkv layers final_norm vocab embedding retain) \<le> 1000"
proof -
  define hidden where "hidden = hq * 64"
  have h: "u64 (hq * 64) = hidden" "hidden = 256 \<or> hidden = 2048" "hidden \<le> 2048"
    using assms(1) by (auto simp: hidden_def)
  define s where "s = sequence div 4"
  have s: "s \<le> 2048" using assms(3) by (simp add: s_def)
  have sq: "s * hidden * 2 \<le> 2048 * 2048 * 2" by (intro mult_le_mono) (use s h in auto)
  then have q: "u64 (s * hidden * 2) = s * hidden * 2" by (intro u64_id) simp
  have kv: "s * hkv * 64 * 2 \<le> 2048 * 32 * 64 * 2" by (intro mult_le_mono) (use s assms in auto)
  then have kv': "u64 (s * hkv * 64 * 2) = s * hkv * 64 * 2" by (intro u64_id) simp
  have qkv: "(hq + 2 * hkv) * 64 \<le> 96 * 64" using assms by auto
  then have qkv': "u32 ((hq + 2 * hkv) * 64) = (hq + 2 * hkv) * 64" by (intro u32_id) simp
  have w: "(hq + 2 * hkv) * 64 * hidden * 2 \<le> 96 * 64 * 2048 * 2" by (intro mult_le_mono) (use qkv h in auto)
  have lm: "(((vocab + 63) div 64 + 3) div 4) * hidden * 64 * 2 \<le> 4096 * 2048 * 64 * 2"
    by (intro mult_le_mono) (use assms(4) h in auto)
  have em: "((vocab + 3) div 4) * hidden * 2 \<le> 262144 * 2048 * 2"
    by (intro mult_le_mono) (use assms(4) h in auto)
  have u: "u64 n \<le> n" for n by (simp add: u64_def)
  have le: "u64 n \<le> 2 ^ 30" if "n \<le> 2 ^ 30" for n using u [of n] that by linarith
  have layer: "small (layer_plan retain (s * hidden * 2) hidden ((hq + 2 * hkv) * 64) l)" for l
    using h(2) sq w le by (auto simp: layer_plan_def small_def)
  have fixed: "small (fixed_plan (s * hidden * 2) (s * hkv * 64 * 2) (u64 (sequence * 64 * 2)))"
    using sq kv assms(3) le by (auto simp: fixed_plan_def small_def)
  have tail: "small (tail_plan sequence (s * hidden * 2) hidden final_norm vocab embedding)"
    unfolding tail_plan_def small_def
    using sq lm em assms(3,4) h(2) s by (auto simp: s_def intro!: le)
  have conc: "small (concat (map f xs)) = (\<forall>x \<in> set xs. small (f x))" for f and xs :: "nat list"
    by (auto simp: small_def)
  have app: "small (xs @ ys) = (small xs \<and> small ys)" for xs ys
    by (simp add: small_def ball_Un)
  show "small (layout_plan sequence hq hkv layers final_norm vocab embedding retain)"
    using layer fixed tail unfolding layout_plan_def Let_def h(1) s_def [symmetric] q kv' qkv' app conc by simp
  have "length (concat (map (layer_plan retain a b c) [0..<n])) \<le> 8 * n" for a b c n
    by (induction n) (auto simp: layer_plan_def)
  then have "length (concat (map (layer_plan retain (s * hidden * 2) hidden ((hq + 2 * hkv) * 64)) [0..<layers])) \<le> 8 * 32"
    using assms(5) by (meson le_trans mult_le_mono2)
  moreover have "length (tail_plan sequence (s * hidden * 2) hidden final_norm vocab embedding) \<le> 10"
    by (simp add: tail_plan_def)
  ultimately show "length (layout_plan sequence hq hkv layers final_norm vocab embedding retain) \<le> 1000"
    unfolding layout_plan_def Let_def h(1) s_def [symmetric] q kv' qkv' by (simp add: fixed_plan_def)
qed

section \<open>The layers\<close>

definition region :: "string \<Rightarrow> nat \<Rightarrow> nat \<Rightarrow> nat \<Rightarrow> dmem_region" where
  "region n l off b = \<lparr>rg_name = n, rg_layer = l, rg_offset = off, rg_bytes = b\<rparr>"

definition weights_ok :: "nat \<Rightarrow> nat \<Rightarrow> nat \<Rightarrow> dmem_layer \<Rightarrow> dmem_region set \<Rightarrow> bool" where
  "weights_ok hidden qkv layer L R \<longleftrightarrow>
     region ''gamma1'' (layer + 1) (ly_gamma1 L) (u64 (hidden * 2)) \<in> R \<and>
     region ''gamma2'' (layer + 1) (ly_gamma2 L) (u64 (hidden * 2)) \<in> R \<and>
     region ''qkv_weight'' (layer + 1) (ly_qkv_weight L) (u64 (qkv * hidden * 2)) \<in> R \<and>
     region ''wo_weight'' (layer + 1) (ly_wo_weight L) (u64 (hidden * hidden * 2) div 4) \<in> R \<and>
     region ''gate_weight'' (layer + 1) (ly_gate_weight L) (u64 (u64 (4 * hidden) * hidden * 2) div 4) \<in> R \<and>
     region ''up_weight'' (layer + 1) (ly_up_weight L) (u64 (u64 (4 * hidden) * hidden * 2) div 4) \<in> R \<and>
     region ''down_weight'' (layer + 1) (ly_down_weight L) (u64 (hidden * u64 (4 * hidden) * 2) div 4) \<in> R"

text \<open>Name and layer of the region that holds a layer's input and output activation.\<close>

definition act_name :: "nat \<Rightarrow> string" where
  "act_name i = (if i mod 2 = 0 then ''activation0'' else ''activation1'')"

definition out_name :: "bool \<Rightarrow> nat \<Rightarrow> string \<times> nat" where
  "out_name retain layer =
    (if retain \<and> layer \<noteq> 0 then (''retained_output'', layer + 1) else (act_name (layer + 1), 0))"

definition in_name :: "bool \<Rightarrow> nat \<Rightarrow> string \<times> nat" where
  "in_name retain layer = (if retain \<and> layer \<noteq> 0 then out_name retain (layer - 1) else (act_name layer, 0))"

definition layer_ok :: "bool \<Rightarrow> nat \<Rightarrow> nat \<Rightarrow> nat \<Rightarrow> nat \<Rightarrow> dmem_layer \<Rightarrow> dmem_region set \<Rightarrow> bool" where
  "layer_ok retain q hidden qkv layer L R \<longleftrightarrow> weights_ok hidden qkv layer L R \<and>
     (case out_name retain layer of (n, l) \<Rightarrow> region n l (ly_output L) q \<in> R) \<and>
     (case in_name retain layer of (n, l) \<Rightarrow> region n l (ly_input L) q \<in> R)"

lemma layer_ok_mono: "layer_ok r q h k l L R \<Longrightarrow> R \<subseteq> R' \<Longrightarrow> layer_ok r q h k l L R'"
  unfolding layer_ok_def weights_ok_def by (auto split: prod.splits)

lemma alloc_spec:
  assumes "alloc n b l m = (off, m')"
  shows "region n l off b \<in> set (dl_regions m')" "set (dl_regions m) \<subseteq> set (dl_regions m')"
    "dl_layers m' = dl_layers m" "activation m' i = activation m i"
  using assms by (auto simp: alloc_def Let_def activation_def region_def)

lemma layer_step_ok:
  assumes acts: "region ''activation0'' 0 (activation m 0) q \<in> set (dl_regions m)"
      "region ''activation1'' 0 (activation m 1) q \<in> set (dl_regions m)"
    and prev: "layer \<noteq> 0 \<Longrightarrow> dl_layers m \<noteq> [] \<and>
      (case out_name retain (layer - 1) of (n, l) \<Rightarrow> region n l (ly_output (last (dl_layers m))) q \<in> set (dl_regions m))"
  shows "\<exists>L. dl_layers (layer_step retain q hidden qkv layer m) = dl_layers m @ [L] \<and>
    layer_ok retain q hidden qkv layer L (set (dl_regions (layer_step retain q hidden qkv layer m))) \<and>
    (retain \<longrightarrow> layer \<noteq> 0 \<longrightarrow> ly_input L = ly_output (last (dl_layers m))) \<and>
    (retain \<and> layer \<noteq> 0 \<or> ly_input L = activation m (layer mod 2) \<and> ly_output L = activation m ((layer + 1) mod 2)) \<and>
    set (dl_regions m) \<subseteq> set (dl_regions (layer_step retain q hidden qkv layer m)) \<and>
    activation (layer_step retain q hidden qkv layer m) = activation m"
proof -
  let ?keep = "retain \<and> layer \<noteq> 0"
  let ?i = "u64 (4 * hidden)"
  define input where "input = (if ?keep then ly_output (last (dl_layers m)) else activation m (layer mod 2))"
  obtain out m0 where a0: "(if ?keep then alloc ''retained_output'' q (layer + 1) m
      else (activation m ((layer + 1) mod 2), m)) = (out, m0)" by fastforce
  obtain g1 m1 where a1: "alloc ''gamma1'' (u64 (hidden * 2)) (layer + 1) m0 = (g1, m1)" by fastforce
  obtain g2 m2 where a2: "alloc ''gamma2'' (u64 (hidden * 2)) (layer + 1) m1 = (g2, m2)" by fastforce
  obtain w3 m3 where a3: "alloc ''qkv_weight'' (u64 (qkv * hidden * 2)) (layer + 1) m2 = (w3, m3)" by fastforce
  obtain w4 m4 where a4: "alloc ''wo_weight'' (u64 (hidden * hidden * 2) div 4) (layer + 1) m3 = (w4, m4)" by fastforce
  obtain w5 m5 where a5: "alloc ''gate_weight'' (u64 (?i * hidden * 2) div 4) (layer + 1) m4 = (w5, m5)" by fastforce
  obtain w6 m6 where a6: "alloc ''up_weight'' (u64 (?i * hidden * 2) div 4) (layer + 1) m5 = (w6, m6)" by fastforce
  obtain w7 m7 where a7: "alloc ''down_weight'' (u64 (hidden * ?i * 2) div 4) (layer + 1) m6 = (w7, m7)" by fastforce
  define L where "L = \<lparr>ly_input = input, ly_output = out, ly_gamma1 = g1, ly_gamma2 = g2,
      ly_qkv_weight = w3, ly_wo_weight = w4, ly_gate_weight = w5, ly_up_weight = w6, ly_down_weight = w7\<rparr>"
  have out: "layer_step retain q hidden qkv layer m = m7\<lparr>dl_layers := dl_layers m7 @ [L]\<rparr>"
    unfolding layer_step_def Let_def input_def [symmetric] a0 prod.case a1 a2 a3 a4 a5 a6 a7 L_def ..
  note spec = alloc_spec [OF a1] alloc_spec [OF a2] alloc_spec [OF a3] alloc_spec [OF a4]
    alloc_spec [OF a5] alloc_spec [OF a6] alloc_spec [OF a7]
  have m0: "set (dl_regions m) \<subseteq> set (dl_regions m0)" "dl_layers m0 = dl_layers m" "activation m0 = activation m"
    "?keep \<Longrightarrow> region ''retained_output'' (layer + 1) out q \<in> set (dl_regions m0)"
    "\<not> ?keep \<Longrightarrow> out = activation m ((layer + 1) mod 2)"
    using a0 alloc_spec by (auto split: if_splits intro!: ext)
  have mono6: "set (dl_regions m6) \<subseteq> set (dl_regions m7)" by (rule spec(26))
  have mono5: "set (dl_regions m5) \<subseteq> set (dl_regions m7)" using spec(22) mono6 by simp
  have mono4: "set (dl_regions m4) \<subseteq> set (dl_regions m7)" using spec(18) mono5 by simp
  have mono3: "set (dl_regions m3) \<subseteq> set (dl_regions m7)" using spec(14) mono4 by simp
  have mono2: "set (dl_regions m2) \<subseteq> set (dl_regions m7)" using spec(10) mono3 by simp
  have mono1: "set (dl_regions m1) \<subseteq> set (dl_regions m7)" using spec(6) mono2 by simp
  have mono: "set (dl_regions m0) \<subseteq> set (dl_regions m7)" using spec(2) mono1 by simp
  have w: "weights_ok hidden qkv layer L (set (dl_regions m7))"
    unfolding weights_ok_def L_def dmem_layer.select_convs
    by (intro conjI; rule spec(1) [THEN mono1 [THEN subsetD]] spec(5) [THEN mono2 [THEN subsetD]]
        spec(9) [THEN mono3 [THEN subsetD]] spec(13) [THEN mono4 [THEN subsetD]]
        spec(17) [THEN mono5 [THEN subsetD]] spec(21) [THEN mono6 [THEN subsetD]] spec(25))
  have acts7: "region ''activation0'' 0 (activation m 0) q \<in> set (dl_regions m7)"
    "region ''activation1'' 0 (activation m 1) q \<in> set (dl_regions m7)" using acts m0(1) mono by auto
  have m2: "n mod 2 = 0 \<or> n mod 2 = 1" for n :: nat by linarith
  have slot: "region (act_name n) 0 (activation m (n mod 2)) q \<in> set (dl_regions m7)" for n
    using acts7 m2 [of n] by (auto simp: act_name_def)
  have o: "case out_name retain layer of (n, l) \<Rightarrow> region n l (ly_output L) q \<in> set (dl_regions m7)"
    using m0(4,5) mono slot [of "layer + 1"] by (auto simp: out_name_def L_def)
  have i: "case in_name retain layer of (n, l) \<Rightarrow> region n l (ly_input L) q \<in> set (dl_regions m7)"
  proof (cases ?keep)
    case True
    then show ?thesis using prev m0(1) mono by (auto simp: in_name_def L_def input_def split: prod.splits)
  next
    case False
    have "in_name retain layer = (act_name layer, 0)" using False by (auto simp: in_name_def)
    moreover have "ly_input L = activation m (layer mod 2)" using False by (auto simp: L_def input_def)
    ultimately show ?thesis using slot [of layer] by simp
  qed
  have upd: "activation (m'\<lparr>dl_layers := x\<rparr>) i = activation m' i" for m' x i by (simp add: activation_def)
  have "activation (m7\<lparr>dl_layers := x\<rparr>) = activation m" for x
  proof
    fix i
    show "activation (m7\<lparr>dl_layers := x\<rparr>) i = activation m i"
      unfolding upd spec(4,8,12,16,20,24,28) m0(3) ..
  qed
  moreover have "dl_layers m7 = dl_layers m" unfolding spec(3,7,11,15,19,23,27) m0(2) ..
  ultimately show ?thesis
    unfolding out using w o i m0 mono by (intro exI [of _ L]) (auto simp: layer_ok_def L_def input_def)
qed

lemma layers_run:
  fixes retain :: bool and q hidden qkv :: nat
  assumes acts: "region ''activation0'' 0 (activation m 0) q \<in> set (dl_regions m)"
      "region ''activation1'' 0 (activation m 1) q \<in> set (dl_regions m)"
    and none: "dl_layers m = []"
  defines "run n \<equiv> fold (layer_step retain q hidden qkv) [0..<n] m"
  shows "length (dl_layers (run n)) = n \<and> activation (run n) = activation m \<and>
    set (dl_regions m) \<subseteq> set (dl_regions (run n)) \<and>
    (\<forall>j < n. layer_ok retain q hidden qkv j (dl_layers (run n) ! j) (set (dl_regions (run n)))) \<and>
    (\<forall>j. Suc j < n \<longrightarrow> ly_input (dl_layers (run n) ! Suc j) = ly_output (dl_layers (run n) ! j)) \<and>
    (0 < n \<longrightarrow> ly_input (dl_layers (run n) ! 0) = activation m 0) \<and>
    (\<forall>j < n. \<not> (retain \<and> j \<noteq> 0) \<longrightarrow> ly_output (dl_layers (run n) ! j) = activation m ((j + 1) mod 2))"
proof (induction n)
  case 0
  then show ?case by (simp add: run_def none)
next
  case (Suc n)
  let ?m = "run n" and ?m' = "run (Suc n)"
  have m': "?m' = layer_step retain q hidden qkv n ?m" by (simp add: run_def)
  have len: "length (dl_layers ?m) = n" using Suc.IH by blast
  have prev: "dl_layers ?m \<noteq> [] \<and> (case out_name retain (n - 1) of (nm, l) \<Rightarrow>
      region nm l (ly_output (last (dl_layers ?m))) q \<in> set (dl_regions ?m))" if "n \<noteq> 0"
  proof -
    have "layer_ok retain q hidden qkv (n - 1) (dl_layers ?m ! (n - 1)) (set (dl_regions ?m))"
      using Suc.IH that by simp
    moreover have "dl_layers ?m \<noteq> []" using len that by auto
    ultimately show ?thesis using len by (simp add: layer_ok_def last_conv_nth)
  qed
  have acts': "region ''activation0'' 0 (activation ?m 0) q \<in> set (dl_regions ?m)"
    "region ''activation1'' 0 (activation ?m 1) q \<in> set (dl_regions ?m)"
    using acts Suc.IH by auto
  obtain L where L: "dl_layers ?m' = dl_layers ?m @ [L]"
      "layer_ok retain q hidden qkv n L (set (dl_regions ?m'))"
      "retain \<longrightarrow> n \<noteq> 0 \<longrightarrow> ly_input L = ly_output (last (dl_layers ?m))"
      "retain \<and> n \<noteq> 0 \<or> ly_input L = activation ?m (n mod 2) \<and> ly_output L = activation ?m ((n + 1) mod 2)"
      "set (dl_regions ?m) \<subseteq> set (dl_regions ?m')" "activation ?m' = activation ?m"
    using layer_step_ok [OF acts' prev, where hidden = hidden and qkv = qkv] unfolding m' by blast
  have nth: "dl_layers ?m' ! j = (if j = n then L else dl_layers ?m ! j)" if "j < Suc n" for j
    using that len by (auto simp: L(1) nth_append)
  have act: "activation ?m = activation m" using Suc.IH by blast
  have chain: "ly_input L = ly_output (dl_layers ?m ! (n - 1))" if "n \<noteq> 0"
  proof (cases retain)
    case True
    have "dl_layers ?m \<noteq> []" using len that by auto
    with True L(3) that len show ?thesis by (simp add: last_conv_nth)
  next
    case False
    then have "ly_output (dl_layers ?m ! (n - 1)) = activation m ((n - 1 + 1) mod 2)"
      using Suc.IH that by simp
    with False L(4) act that show ?thesis by simp
  qed
  show ?case
  proof (intro conjI allI impI)
    fix j assume j: "j < Suc n"
    show "layer_ok retain q hidden qkv j (dl_layers ?m' ! j) (set (dl_regions ?m'))"
    proof (cases "j = n")
      case True
      then show ?thesis using L(2) nth [OF j] by simp
    next
      case False
      then have "layer_ok retain q hidden qkv j (dl_layers ?m ! j) (set (dl_regions ?m))"
        using Suc.IH j by simp
      from layer_ok_mono [OF this L(5)] False show ?thesis using nth [OF j] by simp
    qed
  next
    fix j assume j: "Suc j < Suc n"
    show "ly_input (dl_layers ?m' ! Suc j) = ly_output (dl_layers ?m' ! j)"
      using j Suc.IH chain nth [of j] nth [of "Suc j"] by (cases "Suc j = n") auto
  next
    show "ly_input (dl_layers ?m' ! 0) = activation m 0"
      using Suc.IH L(4) act nth [of 0] by (cases "n = 0") auto
  next
    fix j assume j: "j < Suc n" "\<not> (retain \<and> j \<noteq> 0)"
    show "ly_output (dl_layers ?m' ! j) = activation m ((j + 1) mod 2)"
      using j Suc.IH L(4) act nth [OF j(1)] by (cases "j = n") auto
  qed (use Suc.IH L len act in auto)
qed

lemma place_mono: "set (snd ur) \<subseteq> set (snd (fold place_one p ur))"
proof (induction p arbitrary: ur)
  case Nil
  then show ?case by simp
next
  case (Cons x p)
  have "set (snd ur) \<subseteq> set (snd (place_one x ur))"
    by (cases x; cases ur) (auto simp: place_one_def Let_def)
  with Cons [of "place_one x ur"] show ?case by auto
qed

lemma assign_frames:
  "(\<And>g m. dl_activation0 (f g m) = dl_activation0 m) \<Longrightarrow> dl_activation0 (assign f n b l m) = dl_activation0 m"
  "(\<And>g m. dl_activation1 (f g m) = dl_activation1 m) \<Longrightarrow> dl_activation1 (assign f n b l m) = dl_activation1 m"
  "(\<And>g m. dl_layers (f g m) = dl_layers m) \<Longrightarrow> dl_layers (assign f n b l m) = dl_layers m"
  "(\<And>g m. dl_embedding_output (f g m) = dl_embedding_output m) \<Longrightarrow>
     dl_embedding_output (assign f n b l m) = dl_embedding_output m"
  "(\<And>g m. dl_hbm_node_stride (f g m) = dl_hbm_node_stride m) \<Longrightarrow>
     dl_hbm_node_stride (assign f n b l m) = dl_hbm_node_stride m"
  by (simp_all add: assign_def alloc_def Let_def)

lemma assign_own:
  "dl_activation0 (assign dl_activation0_update n b l m) = align4k (dl_used_bytes m)"
  "dl_activation1 (assign dl_activation1_update n b l m) = align4k (dl_used_bytes m)"
  "dl_embedding_output (assign dl_embedding_output_update n b l m) = align4k (dl_used_bytes m)"
  by (simp_all add: assign_def alloc_def Let_def)

lemma place_one_region: "region n l (align4k (fst ur)) b \<in> set (snd (place_one (n, l, b) ur))"
  by (cases ur) (simp add: place_one_def Let_def region_def)

lemma core_sel: "dl_used_bytes m = fst (core m)" "dl_regions m = snd (core m)"
  by (simp_all add: core_def)

lemma fixed_acts:
  "region ''activation0'' 0 (activation (fixed_regions q kv r m) 0) q \<in> set (dl_regions (fixed_regions q kv r m))"
  "region ''activation1'' 0 (activation (fixed_regions q kv r m) 1) q \<in> set (dl_regions (fixed_regions q kv r m))"
  "dl_layers (fixed_regions q kv r m) = dl_layers m"
  "dl_hbm_node_stride (fixed_regions q kv r m) = dl_hbm_node_stride m"
proof -
  let ?f = "fixed_regions q kv r m"
  have a: "activation ?f 0 = align4k (dl_used_bytes m)"
    "activation ?f 1 = align4k (dl_used_bytes (assign dl_activation0_update ''activation0'' q 0 m))"
    by (simp_all add: activation_def fixed_regions_def assign_frames assign_own)
  obtain rest where plan: "fixed_plan q kv r = (''activation0'', 0, q) # (''activation1'', 0, q) # rest"
    by (simp add: fixed_plan_def)
  let ?u1 = "place_one (''activation0'', 0, q) (core m)"
  have core: "core ?f = fold place_one rest (place_one (''activation1'', 0, q) ?u1)"
    by (simp add: core_fixed plan)
  have "region ''activation0'' 0 (activation ?f 0) q \<in> set (snd ?u1)"
    unfolding a core_sel by (rule place_one_region)
  then show "region ''activation0'' 0 (activation ?f 0) q \<in> set (dl_regions ?f)"
    unfolding core_sel(2) core using place_mono [of ?u1 "(''activation1'', 0, q) # rest"] by auto
  have "region ''activation1'' 0 (activation ?f 1) q \<in> set (snd (place_one (''activation1'', 0, q) ?u1))"
    unfolding a core_sel using place_one_region [of _ _ ?u1] by (simp add: core_assign)
  then show "region ''activation1'' 0 (activation ?f 1) q \<in> set (dl_regions ?f)"
    unfolding core_sel(2) core using place_mono by blast
  show "dl_layers ?f = dl_layers m" "dl_hbm_node_stride ?f = dl_hbm_node_stride m"
    by (simp_all add: fixed_regions_def assign_frames)
qed

lemma tail_frames:
  "dl_layers (final_regions q hidden m) = dl_layers m" "dl_layers (lm_regions vocab hidden m) = dl_layers m"
  "activation (final_regions q hidden m) i = activation m i" "activation (lm_regions vocab hidden m) i = activation m i"
  "set (dl_regions m) \<subseteq> set (dl_regions (final_regions q hidden m))"
  "set (dl_regions m) \<subseteq> set (dl_regions (lm_regions vocab hidden m))"
  "set (dl_regions m) \<subseteq> set (dl_regions (embedding_regions s vocab q hidden m))"
  "dl_layers (embedding_regions s vocab q hidden m) =
    (dl_layers m)[0 := (dl_layers m ! 0)\<lparr>ly_input := dl_embedding_output (embedding_regions s vocab q hidden m)\<rparr>]"
  "region ''embedding_output'' 0 (dl_embedding_output (embedding_regions s vocab q hidden m)) q \<in>
    set (dl_regions (embedding_regions s vocab q hidden m))"
proof -
  show "set (dl_regions m) \<subseteq> set (dl_regions (final_regions q hidden m))"
    "set (dl_regions m) \<subseteq> set (dl_regions (lm_regions vocab hidden m))"
    "set (dl_regions m) \<subseteq> set (dl_regions (embedding_regions s vocab q hidden m))"
    unfolding core_sel core_tail by (rule place_mono)+
  let ?e = "embedding_regions s vocab q hidden m"
  let ?m = "assign dl_embedding_weight_update ''embedding_weight'' (u64 (((vocab + 3) div 4) * hidden * 2)) 0
    (assign dl_embedding_tokens_update ''embedding_tokens'' (u64 ((s div 4) * 4)) 0 m)"
  have off: "dl_embedding_output ?e = align4k (fst (core ?m))"
    by (simp add: embedding_regions_def Let_def assign_frames assign_own core_sel(1))
  let ?u = "place_one (''embedding_output'', 0, q) (core ?m)"
  have e: "core ?e = fold place_one [(''embedding_done'', 0, 32)] ?u"
    by (simp add: core_tail core_assign)
  show "region ''embedding_output'' 0 (dl_embedding_output ?e) q \<in> set (dl_regions ?e)"
    unfolding core_sel(2) off e by (rule subsetD [OF place_mono place_one_region])
qed (simp_all add: activation_def final_regions_def lm_regions_def embedding_regions_def Let_def assign_frames)

text \<open>C21: the layout of an accepted model is a sequence of disjoint, 4 KiB aligned regions in
  allocation order, one per tensor of the plan with exactly the requested size (no 32-bit or
  64-bit computation wraps); it is marked valid exactly when the last region ends within the
  node's HBM slice, and then every region lies inside it.\<close>

theorem layout_regions_disjoint:
  assumes "\<not> layout_refused sequence hq hkv dim layers final_norm vocab node_bytes embedding" "hq < 2 ^ 32"
  shows "let m = makeDecoderMemoryLayout sequence hq hkv dim layers final_norm vocab node_bytes embedding retain in
    map (\<lambda>r. (rg_name r, rg_layer r, rg_bytes r)) (dl_regions m) =
      layout_plan sequence hq hkv layers final_norm vocab embedding retain \<and>
    sorted_wrt before (dl_regions m) \<and>
    (\<forall>r \<in> set (dl_regions m). rg_offset r mod 4096 = 0 \<and> rg_offset r + rg_bytes r \<le> dl_used_bytes m) \<and>
    (dl_valid m \<longleftrightarrow> dl_used_bytes m \<le> node_bytes)"
proof -
  let ?m = "makeDecoderMemoryLayout sequence hq hkv dim layers final_norm vocab node_bytes embedding retain"
  let ?p = "layout_plan sequence hq hkv layers final_norm vocab embedding retain"
  note geo = accepted_geometry [OF assms]
  have "small ?p" "length ?p \<le> 1000" using geo layout_plan_small by auto
  then have pl: "placed (core ?m)" "map (\<lambda>r. (rg_name r, rg_layer r, rg_bytes r)) (snd (core ?m)) = ?p"
    unfolding layout_core [OF assms(1)] using place_placed [of "(0, [])" ?p] by (auto simp: placed_def)
  have "dl_hbm_node_stride (fold (layer_step r a b c) ls m) = dl_hbm_node_stride m" for r a b c ls m
    by (induction ls arbitrary: m) (simp_all add: layer_step_def Let_def case_prod_beta alloc_frame)
  then have "dl_valid ?m \<longleftrightarrow> dl_used_bytes ?m \<le> node_bytes"
    using assms(1)
    by (simp add: makeDecoderMemoryLayout_def Let_def final_regions_def lm_regions_def
        embedding_regions_def assign_frames fixed_acts)
  with pl show ?thesis unfolding Let_def core_sel placed_def by simp
qed

lemma distinct_regions_disjoint:
  assumes "sorted_wrt before R" "r \<in> set R" "s \<in> set R" "(rg_name r, rg_layer r) \<noteq> (rg_name s, rg_layer s)"
  shows "before r s \<or> before s r"
proof -
  obtain i j where "i < length R" "R ! i = r" "j < length R" "R ! j = s" using assms(2,3) by (meson in_set_conv_nth)
  moreover have "i \<noteq> j" using assms(4) calculation by auto
  ultimately show ?thesis using assms(1) by (metis linorder_neqE_nat sorted_wrt_nth_less)
qed

lemma in_out_differ: "in_name retain layer \<noteq> out_name retain layer"
proof -
  have "act_name n \<noteq> act_name (Suc n)" for n by (simp add: act_name_def mod_Suc)
  moreover have "act_name n \<noteq> ''retained_output''" for n by (simp add: act_name_def)
  ultimately show ?thesis by (auto simp: in_name_def out_name_def)
qed

lemma layers_final:
  fixes retain :: bool
  assumes ok: "\<not> layout_refused sequence hq hkv dim layers final_norm vocab node_bytes embedding" and hq: "hq < 2 ^ 32"
  defines "m \<equiv> makeDecoderMemoryLayout sequence hq hkv dim layers final_norm vocab node_bytes embedding retain"
    and "q \<equiv> (sequence div 4) * (hq * 64) * 2"
  shows "length (dl_layers m) = layers"
    and "\<And>j. Suc j < layers \<Longrightarrow> ly_input (dl_layers m ! Suc j) = ly_output (dl_layers m ! j)"
    and "ly_input (dl_layers m ! 0) = (if embedding then dl_embedding_output m else dl_activation0 m)"
    and "\<And>j. j < layers \<Longrightarrow> weights_ok (hq * 64) ((hq + 2 * hkv) * 64) j (dl_layers m ! j) (set (dl_regions m))"
    and "\<And>j. j < layers \<Longrightarrow> \<exists>r \<in> set (dl_regions m). \<exists>s \<in> set (dl_regions m).
           (rg_name r, rg_layer r) \<noteq> (rg_name s, rg_layer s) \<and> rg_offset r = ly_input (dl_layers m ! j) \<and>
           rg_offset s = ly_output (dl_layers m ! j) \<and> rg_bytes r = q \<and> rg_bytes s = q"
proof -
  note geo = accepted_geometry [OF ok hq]
  have dim: "dim = 64" and lay: "0 < layers" using geo by auto
  have hid: "u64 (hq * 64) = hq * 64" using geo by auto
  have "q \<le> 2048 * (32 * 64) * 2" unfolding q_def by (intro mult_le_mono) (use geo in auto)
  then have qq: "u64 ((sequence div 4) * (hq * 64) * 2) = q" unfolding q_def by (intro u64_id) simp
  have qk: "u32 ((hq + 2 * hkv) * 64) = (hq + 2 * hkv) * 64" using geo by (intro u32_id) auto
  define m1 where "m1 = fixed_regions q (u64 ((sequence div 4) * hkv * 64 * 2)) (u64 (sequence * 64 * 2))
      (empty_layout\<lparr>dl_hbm_node_stride := node_bytes, dl_vocab := vocab, dl_sequence := sequence\<rparr>)"
  define m2 where "m2 = fold (layer_step retain q (hq * 64) ((hq + 2 * hkv) * 64)) [0..<layers] m1"
  define m3 where "m3 = (if final_norm then final_regions q (hq * 64) m2 else m2)"
  define m4 where "m4 = (if vocab \<noteq> 0 then lm_regions vocab (hq * 64) m3 else m3)"
  define m5 where "m5 = (if embedding then embedding_regions sequence vocab q (hq * 64) m4 else m4)"
  have m: "m = m5\<lparr>dl_valid := dl_used_bytes m5 \<le> dl_hbm_node_stride m5\<rparr>"
    using ok unfolding m_def makeDecoderMemoryLayout_def Let_def dim hid qq qk
    by (simp add: m5_def m4_def m3_def m2_def m1_def)
  have none: "dl_layers m1 = []" by (simp add: m1_def fixed_acts empty_layout_def)
  have acts: "region ''activation0'' 0 (activation m1 0) q \<in> set (dl_regions m1)"
    "region ''activation1'' 0 (activation m1 1) q \<in> set (dl_regions m1)"
    unfolding m1_def by (rule fixed_acts)+

  note run = layers_run [OF acts none, where retain = retain and hidden = "hq * 64" and qkv = "(hq + 2 * hkv) * 64" and n = layers, folded m2_def]
  have l4: "dl_layers m4 = dl_layers m2" "activation m4 = activation m2" "set (dl_regions m2) \<subseteq> set (dl_regions m4)"
    by (auto simp: m4_def m3_def tail_frames fun_eq_iff subset_iff intro: subsetD [OF tail_frames(5)] subsetD [OF tail_frames(6)])
  have sub: "set (dl_regions m2) \<subseteq> set (dl_regions m)"
    using l4(3) tail_frames(7) [of m4 sequence vocab q "hq * 64"] by (auto simp: m m5_def)
  have nth: "dl_layers m ! j = (if embedding \<and> j = 0 then (dl_layers m2 ! j)\<lparr>ly_input := dl_embedding_output m\<rparr> else dl_layers m2 ! j)"
    "length (dl_layers m) = length (dl_layers m2)" if "j < layers" for j
    using that run lay by (auto simp: m m5_def l4(1) tail_frames(8) nth_list_update)
  show "length (dl_layers m) = layers" using nth(2) lay run by auto
  show "ly_input (dl_layers m ! Suc j) = ly_output (dl_layers m ! j)" if "Suc j < layers" for j
    using that nth(1) [of j] nth(1) [of "Suc j"] run by simp
  have "activation m1 0 = activation m2 0" using run by simp
  moreover have "activation m2 0 = dl_activation0 m" if "\<not> embedding"
    using that fun_cong [OF l4(2), of 0] by (simp add: m m5_def activation_def)
  ultimately show "ly_input (dl_layers m ! 0) = (if embedding then dl_embedding_output m else dl_activation0 m)"
    using nth(1) [of 0] lay run by auto
  fix j assume j: "j < layers"
  have lok: "layer_ok retain q (hq * 64) ((hq + 2 * hkv) * 64) j (dl_layers m2 ! j) (set (dl_regions m))"
    using layer_ok_mono [OF _ sub] run j by blast
  then show "weights_ok (hq * 64) ((hq + 2 * hkv) * 64) j (dl_layers m ! j) (set (dl_regions m))"
    using nth(1) [OF j] by (auto simp: layer_ok_def weights_ok_def)
  obtain n l where on: "out_name retain j = (n, l)" by fastforce
  obtain n' l' where inn: "in_name retain j = (n', l')" by fastforce
  have o: "region n l (ly_output (dl_layers m ! j)) q \<in> set (dl_regions m)"
    using lok nth(1) [OF j] on by (auto simp: layer_ok_def)
  show "\<exists>r \<in> set (dl_regions m). \<exists>s \<in> set (dl_regions m).
     (rg_name r, rg_layer r) \<noteq> (rg_name s, rg_layer s) \<and> rg_offset r = ly_input (dl_layers m ! j) \<and>
     rg_offset s = ly_output (dl_layers m ! j) \<and> rg_bytes r = q \<and> rg_bytes s = q"
  proof (cases "embedding \<and> j = 0")
    case True
    then have "region ''embedding_output'' 0 (ly_input (dl_layers m ! j)) q \<in> set (dl_regions m)"
      using nth(1) [OF j] tail_frames(9) [of sequence vocab q "hq * 64" m4] by (simp add: m m5_def)
    moreover have "n \<noteq> ''embedding_output''" using on True by (auto simp: out_name_def act_name_def split: if_splits)
    ultimately show ?thesis using o by (force simp: region_def)
  next
    case False
    then have i: "region n' l' (ly_input (dl_layers m ! j)) q \<in> set (dl_regions m)"
      using lok nth(1) [OF j] inn by (auto simp: layer_ok_def)
    moreover have "(n', l') \<noteq> (n, l)" using in_out_differ [of retain j] on inn by simp
    ultimately show ?thesis using o by (force simp: region_def)
  qed
qed

text \<open>C22: the layers of an accepted model are chained through memory: every layer reads what the
  previous one wrote, the first one reads the embedding output or activation slot 0, no layer
  reads and writes overlapping buffers, and each weight pointer is the offset of the layer's own
  weight region of the right size.\<close>

theorem layout_layer_chain:
  assumes "\<not> layout_refused sequence hq hkv dim layers final_norm vocab node_bytes embedding" "hq < 2 ^ 32"
  shows "let m = makeDecoderMemoryLayout sequence hq hkv dim layers final_norm vocab node_bytes embedding retain;
             q = (sequence div 4) * (hq * 64) * 2; L = (\<lambda>j. dl_layers m ! j) in
    length (dl_layers m) = layers \<and>
    (\<forall>j. Suc j < layers \<longrightarrow> ly_input (L (Suc j)) = ly_output (L j)) \<and>
    ly_input (L 0) = (if embedding then dl_embedding_output m else dl_activation0 m) \<and>
    (\<forall>j < layers. ly_input (L j) + q \<le> ly_output (L j) \<or> ly_output (L j) + q \<le> ly_input (L j)) \<and>
    (\<forall>j < layers. weights_ok (hq * 64) ((hq + 2 * hkv) * 64) j (L j) (set (dl_regions m)))"
proof -
  let ?m = "makeDecoderMemoryLayout sequence hq hkv dim layers final_norm vocab node_bytes embedding retain"
  let ?q = "(sequence div 4) * (hq * 64) * 2"
  note f = layers_final [OF assms, where retain = retain]
  have sorted: "sorted_wrt before (dl_regions ?m)"
  proof -
    let ?p = "layout_plan sequence hq hkv layers final_norm vocab embedding retain"
    have "small ?p" "length ?p \<le> 1000" using accepted_geometry [OF assms] layout_plan_small by auto
    then have "placed (core ?m)"
      unfolding layout_core [OF assms(1)] using place_placed [of "(0, [])" ?p] by (auto simp: placed_def)
    then show ?thesis by (simp add: placed_def core_def)
  qed
  have dis: "ly_input (dl_layers ?m ! j) + ?q \<le> ly_output (dl_layers ?m ! j) \<or>
      ly_output (dl_layers ?m ! j) + ?q \<le> ly_input (dl_layers ?m ! j)" if j: "j < layers" for j
  proof -
    obtain r s where rs: "r \<in> set (dl_regions ?m)" "s \<in> set (dl_regions ?m)"
      "(rg_name r, rg_layer r) \<noteq> (rg_name s, rg_layer s)"
      "rg_offset r = ly_input (dl_layers ?m ! j)" "rg_offset s = ly_output (dl_layers ?m ! j)"
      "rg_bytes r = ?q" "rg_bytes s = ?q" using f(5) [OF j] by blast
    from distinct_regions_disjoint [OF sorted rs(1-3)] rs(4-7) show ?thesis by (simp add: before_def)
  qed
  show ?thesis unfolding Let_def using f(1-4) dis by blast
qed

lemma demo_accepted: "\<not> layout_refused 1024 32 8 64 16 True 128256 (2 ^ 30) True"
proof -
  have "(2 ^ 30 :: nat) - 1 = mask 30" by (simp add: mask_eq_exp_minus_1)
  moreover have "and (2 ^ 30 :: nat) (mask 30) = take_bit 30 (2 ^ 30)" by (simp only: take_bit_eq_mask)
  ultimately have "and (2 ^ 30 :: nat) (2 ^ 30 - 1) = 0" by (simp add: take_bit_eq_mod)
  then show ?thesis by (simp add: layout_refused_def node_stride_def u64_def Let_def)
qed

lemma layout_plan_length:
  "length (layout_plan s hq hkv n f v e False) =
    21 + 7 * n + (if f then 3 else 0) + (if v \<noteq> 0 then 3 else 0) + (if e then 4 else 0)"
proof -
  have "length (concat (map (layer_plan False a b c) [0..<n])) = 7 * n" for a b c n
    by (induction n) (auto simp: layer_plan_def)
  then show ?thesis by (simp add: layout_plan_def fixed_plan_def tail_plan_def Let_def)
qed

lemma hq_demo: "(32 :: nat) < 2 ^ 32"
  by simp

theorem layout_regions_disjoint_witness:
  "let m = makeDecoderMemoryLayout 1024 32 8 64 16 True 128256 (2 ^ 30) True False in
     length (dl_regions m) = 143 \<and> sorted_wrt before (dl_regions m)"
proof -
  let ?m = "makeDecoderMemoryLayout 1024 32 8 64 16 True 128256 (2 ^ 30) True False"
  have eq: "map (\<lambda>r. (rg_name r, rg_layer r, rg_bytes r)) (dl_regions ?m) =
      layout_plan 1024 32 8 16 True 128256 True False" and s: "sorted_wrt before (dl_regions ?m)"
    using layout_regions_disjoint [OF demo_accepted hq_demo, of False] unfolding Let_def by blast+
  from arg_cong [OF eq, of length]
  have "length (dl_regions ?m) = length (layout_plan 1024 32 8 16 True 128256 True False)"
    unfolding length_map .
  also have "\<dots> = 143"
    unfolding layout_plan_length by simp
  finally show ?thesis using s by (simp add: Let_def)
qed

theorem layout_layer_chain_witness:
  "let m = makeDecoderMemoryLayout 1024 32 8 64 16 True 128256 (2 ^ 30) True False in
     length (dl_layers m) = 16 \<and> ly_input (dl_layers m ! 15) = ly_output (dl_layers m ! 14) \<and>
     ly_input (dl_layers m ! 0) = dl_embedding_output m"
proof -
  let ?m = "makeDecoderMemoryLayout 1024 32 8 64 16 True 128256 (2 ^ 30) True False"
  have c: "length (dl_layers ?m) = 16"
      "\<forall>j. Suc j < 16 \<longrightarrow> ly_input (dl_layers ?m ! Suc j) = ly_output (dl_layers ?m ! j)"
      "ly_input (dl_layers ?m ! 0) = (if True then dl_embedding_output ?m else dl_activation0 ?m)"
    using layout_layer_chain [OF demo_accepted hq_demo, of False] unfolding Let_def by blast+
  have "Suc 14 = (15 :: nat)" "(15 :: nat) < 16" by simp_all
  then have "ly_input (dl_layers ?m ! 15) = ly_output (dl_layers ?m ! 14)" using spec [OF c(2), of 14] by metis
  with c(1,3) show ?thesis unfolding Let_def by simp
qed


section \<open>SoftwareLayerResidency\<close>

definition residency_record :: nat where "residency_record = 0x3400"
definition residency_payload :: nat where "residency_payload = 0xb0000"
definition residency_magic :: "64 word" where "residency_magic = 0x594c415945523031"

definition residency_bytes :: "32 word \<Rightarrow> 32 word \<Rightarrow> 32 word \<Rightarrow> 64 word" where
  "residency_bytes rows hidden lane = ucast (min 64 (rows - lane * 64)) * ucast hidden * 2"

definition residency_encode ::
  "64 word \<Rightarrow> 64 word \<Rightarrow> 32 word \<Rightarrow> 32 word \<Rightarrow> 32 word \<Rightarrow> 32 word \<Rightarrow> byte list" where
  "residency_encode epoch address rows hidden lane manager =
    fields_bytes [residency_magic, epoch, address, ucast rows, ucast hidden, ucast lane, ucast manager,
      residency_bytes rows hidden lane]"

definition residency_matches ::
  "byte list \<Rightarrow> 64 word \<Rightarrow> 64 word \<Rightarrow> 32 word \<Rightarrow> 32 word \<Rightarrow> 32 word \<Rightarrow> 32 word \<Rightarrow> bool" where
  "residency_matches bytes nextEpoch address rows hidden lane manager =
    (if length bytes \<noteq> 64 \<or> nextEpoch = 0 \<or> rows \<le> lane * 64 then False
     else field_at bytes 0 = residency_magic \<and> field_at bytes 1 + 1 = nextEpoch \<and>
       field_at bytes 2 = address \<and> field_at bytes 3 = ucast rows \<and> field_at bytes 4 = ucast hidden \<and>
       field_at bytes 5 = ucast lane \<and> field_at bytes 6 = ucast manager \<and>
       field_at bytes 7 = residency_bytes rows hidden lane)"

lemma ucast_32_64_inj: "(ucast (x :: 32 word) :: 64 word) = ucast y \<longleftrightarrow> x = y"
proof
  assume "(ucast x :: 64 word) = ucast y"
  then have eq: "bit (ucast x :: 64 word) n = bit (ucast y :: 64 word) n" for n by simp
  have "bit x n = bit y n" if "n < 32" for n using that eq [of n] by (simp add: bit_simps)
  then show "x = y" by (intro bit_eqI) simp
qed simp

text \<open>C24: the residency record is authentic: a consumer accepts a record exactly when it was
  published for the previous epoch (its epoch plus one is the consumer's, which is not zero)
  with the same address, shape, lane and manager, and the lane holds at least one row.\<close>

theorem residency_roundtrip:
  "residency_matches (residency_encode epoch address rows hidden lane manager)
     nextEpoch address' rows' hidden' lane' manager' \<longleftrightarrow>
   nextEpoch = epoch + 1 \<and> nextEpoch \<noteq> 0 \<and> address' = address \<and> rows' = rows \<and> hidden' = hidden \<and>
   lane' = lane \<and> manager' = manager \<and> lane * 64 < rows"
  by (auto simp: residency_matches_def residency_encode_def field_at_fields_bytes ucast_32_64_inj not_le
      nth_Cons' ucast_32_64_inj [THEN iffD1])

section \<open>firstPartialReadyForNextWindow\<close>

definition firstPartialReadyForNextWindow :: "bool list \<Rightarrow> nat \<Rightarrow> bool" where
  "firstPartialReadyForNextWindow finished current =
    (if finished = [] \<or> \<not> finished ! 0 then False
     else list_all (\<lambda>index. index = current \<or> finished ! index) [0..<length finished])"

end
