(* ===== verification/Gm_Bank_Scheduler.thy ===== *)
theory Gm_Bank_Scheduler
  imports Golem_Prelude
begin

text \<open>
  \<^verbatim>\<open>golem/globalmemory/localGmBankScheduler.h\<close>: beat arbitration of a worker's banked global
  memory. Two ingress FIFOs (0: compute and control, 1: DMA) compete for banks; each cycle at
  most one line-sized beat per lane is granted, to different banks, while response slots last.
  A C++ exception is the \<open>Inl\<close> of the result. Byte addresses are naturals (they stay far
  below \<open>2^64\<close>).
\<close>

unbundle bit_operations_syntax

section \<open>State and operations\<close>

record bank_config =
  bc_banks :: nat
  bc_lineBytes :: nat
  bc_responseCycles :: nat
  bc_responseCapacity :: nat
  bc_requestCapacity :: nat

definition default_bank_config :: bank_config where
  "default_bank_config = \<lparr>bc_banks = 8, bc_lineBytes = 128, bc_responseCycles = 1,
     bc_responseCapacity = 32, bc_requestCapacity = 256\<rparr>"

record gm_request =
  rq_id :: nat
  rq_address :: addr
  rq_length :: nat
  rq_eligibleCycle :: cycle
  rq_offset :: nat

record gm_grant =
  gr_id :: nat
  gr_address :: addr
  gr_offset :: nat
  gr_bytes :: nat
  gr_readyCycle :: cycle
  gr_lane :: nat
  gr_bank :: nat
  gr_last :: bool

record bank_stats =
  bs_laneBeats :: "nat list"
  bs_bankBeats :: "nat list"
  bs_payloadBytes :: nat
  bs_bankConflictCycles :: nat
  bs_responseBlockedLaneCycles :: nat
  bs_responseHighWater :: nat

record bank_sched =
  sd_config :: bank_config
  sd_stats :: bank_stats
  sd_queues :: "gm_request list list"
  sd_responses :: "cycle list"
  sd_lastCycle :: cycle
  sd_stepped :: bool

definition pow2 :: "nat \<Rightarrow> bool" where
  "pow2 x \<longleftrightarrow> x \<noteq> 0 \<and> and x (x - 1) = 0"

definition make_bank_sched :: "bank_config \<Rightarrow> golem_error + bank_sched" where
  "make_bank_sched c =
    (if \<not> pow2 (bc_banks c) \<or> \<not> pow2 (bc_lineBytes c) \<or> bc_responseCycles c = 0 \<or>
        bc_responseCapacity c = 0 \<or> bc_requestCapacity c = 0
     then Inl (InvalidArgument ''invalid local GM bank configuration'')
     else Inr \<lparr>sd_config = c,
       sd_stats = \<lparr>bs_laneBeats = [0, 0], bs_bankBeats = replicate (bc_banks c) 0, bs_payloadBytes = 0,
         bs_bankConflictCycles = 0, bs_responseBlockedLaneCycles = 0, bs_responseHighWater = 0\<rparr>,
       sd_queues = [[], []], sd_responses = [], sd_lastCycle = 0, sd_stepped = False\<rparr>)"

definition gm_queued :: "bank_sched \<Rightarrow> nat" where
  "gm_queued s = length (sd_queues s ! 0) + length (sd_queues s ! 1)"

definition gm_busy :: "bank_sched \<Rightarrow> bool" where
  "gm_busy s \<longleftrightarrow> gm_queued s \<noteq> 0 \<or> sd_responses s \<noteq> []"

definition gm_enqueue :: "nat \<Rightarrow> gm_request \<Rightarrow> bank_sched \<Rightarrow> bool \<times> bank_sched" where
  "gm_enqueue lane r s =
    (if lane \<ge> 2 \<or> rq_length r = 0 \<or> gm_queued s \<ge> bc_requestCapacity (sd_config s) then (False, s)
     else (True, s\<lparr>sd_queues := (sd_queues s)[lane := sd_queues s ! lane @ [r]]\<rparr>))"

text \<open>The beat that the head request of a lane asks for.\<close>

definition beat_bytes :: "nat \<Rightarrow> gm_request \<Rightarrow> nat" where
  "beat_bytes line r =
    min (rq_length r - rq_offset r) (line - (rq_address r + rq_offset r) mod line)"

definition beat_bank :: "bank_config \<Rightarrow> gm_request \<Rightarrow> nat" where
  "beat_bank c r = (rq_address r + rq_offset r) div bc_lineBytes c mod bc_banks c"

definition gm_grant_of :: "bank_config \<Rightarrow> nat \<Rightarrow> cycle \<Rightarrow> gm_request \<Rightarrow> gm_grant" where
  "gm_grant_of c lane cycle r =
    (let bytes = beat_bytes (bc_lineBytes c) r
     in \<lparr>gr_id = rq_id r, gr_address = rq_address r + rq_offset r, gr_offset = rq_offset r,
         gr_bytes = bytes, gr_readyCycle = cycle + bc_responseCycles c, gr_lane = lane,
         gr_bank = beat_bank c r, gr_last = (rq_offset r + bytes = rq_length r)\<rparr>)"

text \<open>One iteration of the lane loop; \<open>granted\<close> is the bank already granted in this cycle.\<close>

definition lane_step ::
  "cycle \<Rightarrow> nat \<Rightarrow> nat option \<times> gm_grant list \<times> bank_sched \<Rightarrow> nat option \<times> gm_grant list \<times> bank_sched"
where
  "lane_step cycle lane st =
    (case st of (granted, result, s) \<Rightarrow>
     case sd_queues s ! lane of
       [] \<Rightarrow> st
     | r # rest \<Rightarrow>
         let c = sd_config s; stats = sd_stats s in
         if rq_eligibleCycle r > cycle then st
         else if granted = Some (beat_bank c r) then
           (granted, result, s\<lparr>sd_stats := stats\<lparr>bs_bankConflictCycles := bs_bankConflictCycles stats + 1\<rparr>\<rparr>)
         else if length (sd_responses s) \<ge> bc_responseCapacity c then
           (granted, result, s\<lparr>sd_stats := stats\<lparr>bs_responseBlockedLaneCycles :=
              bs_responseBlockedLaneCycles stats + 1\<rparr>\<rparr>)
         else
           let g = gm_grant_of c lane cycle r;
               responses = sd_responses s @ [gr_readyCycle g];
               r' = r\<lparr>rq_offset := rq_offset r + gr_bytes g\<rparr>
           in (Some (gr_bank g), result @ [g],
               s\<lparr>sd_responses := responses,
                 sd_stats := stats\<lparr>
                   bs_laneBeats := (bs_laneBeats stats)[lane := bs_laneBeats stats ! lane + 1],
                   bs_bankBeats := (bs_bankBeats stats)[gr_bank g := bs_bankBeats stats ! gr_bank g + 1],
                   bs_payloadBytes := bs_payloadBytes stats + gr_bytes g,
                   bs_responseHighWater := max (bs_responseHighWater stats) (length responses)\<rparr>,
                 sd_queues := (sd_queues s)[lane := (if gr_last g then rest else r' # rest)]\<rparr>))"

definition gm_step :: "cycle \<Rightarrow> bank_sched \<Rightarrow> golem_error + (gm_grant list \<times> bank_sched)" where
  "gm_step cycle s =
    (if sd_stepped s \<and> cycle \<le> sd_lastCycle s
     then Inl (LogicError ''GM bank edges must be strictly increasing'')
     else
       let s0 = s\<lparr>sd_stepped := True, sd_lastCycle := cycle,
                  sd_responses := dropWhile (\<lambda>t. t \<le> cycle) (sd_responses s)\<rparr>
       in case lane_step cycle 1 (lane_step cycle 0 (None, [], s0)) of (_, result, s') \<Rightarrow> Inr (result, s'))"

section \<open>Reference: a request as a sequence of beats\<close>

text \<open>The beats (id, address, offset, bytes, last) into which a request is cut at line
  boundaries, from its current offset on.\<close>

type_synonym beat = "nat \<times> addr \<times> nat \<times> nat \<times> bool"

function beats_from :: "nat \<Rightarrow> gm_request \<Rightarrow> beat list" where
  "beats_from line r =
    (if 0 < line \<and> rq_offset r < rq_length r then
       let bytes = beat_bytes line r in
       (rq_id r, rq_address r + rq_offset r, rq_offset r, bytes, rq_offset r + bytes = rq_length r) #
       beats_from line (r\<lparr>rq_offset := rq_offset r + bytes\<rparr>)
     else [])"
  by auto
termination
proof (relation "measure (\<lambda>(line, r). rq_length r - rq_offset r)")
  fix line r x
  assume a: "0 < line \<and> rq_offset r < rq_length r" and x: "x = beat_bytes line (r :: gm_request)"
  have "0 < line - (rq_address r + rq_offset r) mod line" using a by (simp add: mod_less_divisor)
  then have "0 < x" using a unfolding x beat_bytes_def by simp
  with a show "((line, r\<lparr>rq_offset := rq_offset r + x\<rparr>), line, r) \<in> measure (\<lambda>(line, r). rq_length r - rq_offset r)"
    by (simp add: diff_less_mono2)
qed simp

declare beats_from.simps [simp del]

definition remaining :: "nat \<Rightarrow> bank_sched \<Rightarrow> beat list" where
  "remaining lane s = concat (map (beats_from (bc_lineBytes (sd_config s))) (sd_queues s ! lane))"

definition beat_of :: "gm_grant \<Rightarrow> beat" where
  "beat_of g = (gr_id g, gr_address g, gr_offset g, gr_bytes g, gr_last g)"

definition lane_beats :: "nat \<Rightarrow> gm_grant list \<Rightarrow> beat list" where
  "lane_beats lane gs = map beat_of (filter (\<lambda>g. gr_lane g = lane) gs)"

section \<open>Invariant\<close>

definition sched_inv :: "bank_sched \<Rightarrow> bool" where
  "sched_inv s \<longleftrightarrow>
     0 < bc_banks (sd_config s) \<and> 0 < bc_lineBytes (sd_config s) \<and> 0 < bc_responseCycles (sd_config s) \<and>
     0 < bc_responseCapacity (sd_config s) \<and> length (sd_queues s) = 2 \<and>
     length (bs_bankBeats (sd_stats s)) = bc_banks (sd_config s) \<and> length (bs_laneBeats (sd_stats s)) = 2 \<and>
     (\<forall>lane < 2. \<forall>r \<in> set (sd_queues s ! lane). rq_offset r < rq_length r) \<and>
     gm_queued s \<le> bc_requestCapacity (sd_config s) \<and>
     sorted (sd_responses s) \<and> length (sd_responses s) \<le> bc_responseCapacity (sd_config s) \<and>
     bs_responseHighWater (sd_stats s) \<le> bc_responseCapacity (sd_config s) \<and>
     (\<forall>t \<in> set (sd_responses s). sd_stepped s \<and> t \<le> sd_lastCycle s + bc_responseCycles (sd_config s))"

lemma make_inv: "make_bank_sched c = Inr s \<Longrightarrow> sched_inv s"
  by (auto simp: make_bank_sched_def sched_inv_def pow2_def gm_queued_def nth_Cons' split: if_splits)

lemma enqueue_inv:
  assumes "sched_inv s" "rq_offset r = 0"
  shows "sched_inv (snd (gm_enqueue lane r s))"
proof (cases "fst (gm_enqueue lane r s)")
  case True
  then have l: "lane = 0 \<or> lane = 1" and r: "0 < rq_length r"
    and q: "gm_queued s < bc_requestCapacity (sd_config s)"
    and out: "snd (gm_enqueue lane r s) = s\<lparr>sd_queues := (sd_queues s)[lane := sd_queues s ! lane @ [r]]\<rparr>"
    by (auto simp: gm_enqueue_def split: if_splits)
  have "length (sd_queues s) = 2" using assms by (simp add: sched_inv_def)
  then show ?thesis
    using assms l r q unfolding out
    by (auto simp: sched_inv_def gm_queued_def nth_list_update less_2_cases_iff split: if_splits)
next
  case False
  then show ?thesis using assms by (auto simp: gm_enqueue_def split: if_splits)
qed

lemma beat_bytes_pos: "0 < line \<Longrightarrow> rq_offset r < rq_length r \<Longrightarrow> 0 < beat_bytes line r"
  by (simp add: beat_bytes_def)

lemma beat_bytes_line:
  "0 < line \<Longrightarrow> (rq_address r + rq_offset r) mod line + beat_bytes line r \<le> line"
  using mod_less_divisor [of line "rq_address r + rq_offset r"] unfolding beat_bytes_def by linarith

lemma beat_bytes_le: "rq_offset r \<le> rq_length r \<Longrightarrow> rq_offset r + beat_bytes line r \<le> rq_length r"
  by (simp add: beat_bytes_def)

text \<open>What one lane iteration does: nothing but statistics, or one grant for its head.\<close>

definition lane_blocked :: "cycle \<Rightarrow> nat \<Rightarrow> nat option \<Rightarrow> bank_sched \<Rightarrow> bool" where
  "lane_blocked cycle lane granted s \<longleftrightarrow>
     (case sd_queues s ! lane of [] \<Rightarrow> True
      | r # _ \<Rightarrow> rq_eligibleCycle r > cycle \<or> granted = Some (beat_bank (sd_config s) r) \<or>
                length (sd_responses s) \<ge> bc_responseCapacity (sd_config s))"

definition same_queues :: "bank_sched \<Rightarrow> bank_sched \<Rightarrow> bool" where
  "same_queues s s' \<longleftrightarrow> sd_config s' = sd_config s \<and> sd_queues s' = sd_queues s \<and>
     sd_responses s' = sd_responses s \<and> sd_lastCycle s' = sd_lastCycle s \<and> sd_stepped s' = sd_stepped s"

lemma lane_step_blocked:
  assumes "lane_blocked cycle lane granted s" "lane_step cycle lane (granted, result, s) = (granted', result', s')"
  shows "granted' = granted" "result' = result" "same_queues s s'" "sched_inv s \<Longrightarrow> sched_inv s'"
  using assms
  by (auto simp: lane_step_def lane_blocked_def same_queues_def Let_def sched_inv_def gm_queued_def
      split: list.splits if_splits)

lemma lane_step_grant:
  assumes "\<not> lane_blocked cycle lane granted s" "lane_step cycle lane (granted, result, s) = (granted', result', s')"
    and inv: "sched_inv s" and now: "sd_stepped s" "sd_lastCycle s = cycle" and lane: "lane < 2"
  shows "sched_inv s' \<and> sd_config s' = sd_config s \<and> sd_lastCycle s' = cycle \<and> sd_stepped s' \<and>
    (\<exists>r rest g. sd_queues s ! lane = r # rest \<and> g = gm_grant_of (sd_config s) lane cycle r \<and>
       result' = result @ [g] \<and> granted' = Some (gr_bank g) \<and> granted \<noteq> Some (gr_bank g) \<and>
       sd_queues s' = (sd_queues s)[lane :=
         (if gr_last g then rest else r\<lparr>rq_offset := rq_offset r + gr_bytes g\<rparr> # rest)] \<and>
       sd_responses s' = sd_responses s @ [cycle + bc_responseCycles (sd_config s)])"
proof -
  let ?c = "sd_config s"
  obtain r rest where q: "sd_queues s ! lane = r # rest" using assms(1) by (auto simp: lane_blocked_def split: list.splits)
  define g where "g = gm_grant_of ?c lane cycle r"
  have free: "rq_eligibleCycle r \<le> cycle" "granted \<noteq> Some (beat_bank ?c r)"
      "length (sd_responses s) < bc_responseCapacity ?c"
    using assms(1) q by (auto simp: lane_blocked_def)
  define q' where "q' = (if gr_last g then rest else r\<lparr>rq_offset := rq_offset r + gr_bytes g\<rparr> # rest)"
  have out: "granted' = Some (gr_bank g)" "result' = result @ [g]" "sd_config s' = ?c"
      "sd_queues s' = (sd_queues s)[lane := q']" "sd_lastCycle s' = cycle" "sd_stepped s'"
      "sd_responses s' = sd_responses s @ [cycle + bc_responseCycles ?c]"
      "length (bs_bankBeats (sd_stats s')) = length (bs_bankBeats (sd_stats s))"
      "length (bs_laneBeats (sd_stats s')) = length (bs_laneBeats (sd_stats s))"
      "bs_responseHighWater (sd_stats s') = max (bs_responseHighWater (sd_stats s)) (length (sd_responses s) + 1)"
    using assms(2) q free now
    by (auto simp: lane_step_def Let_def g_def q'_def gm_grant_of_def)
  have r: "rq_offset r < rq_length r" using inv lane q by (auto simp: sched_inv_def)
  have bytes: "gr_bytes g = beat_bytes (bc_lineBytes ?c) r" by (simp add: g_def gm_grant_of_def Let_def)
  have "rq_offset r + gr_bytes g \<le> rq_length r" using r beat_bytes_le by (simp add: bytes)
  then have "rq_offset r + gr_bytes g < rq_length r" if "\<not> gr_last g"
    using that by (auto simp: g_def gm_grant_of_def Let_def)
  then have q'_ok: "\<forall>x \<in> set q'. rq_offset x < rq_length x"
    using inv lane q by (auto simp: q'_def sched_inv_def)
  have len: "length (sd_queues s) = 2" using inv by (simp add: sched_inv_def)
  have "length q' \<le> length (sd_queues s ! lane)" by (simp add: q'_def q)
  moreover have "lane = 0 \<or> lane = 1" using lane by auto
  ultimately have "gm_queued s' \<le> gm_queued s" using len by (auto simp: gm_queued_def out(4))
  moreover have "\<forall>l < 2. \<forall>x \<in> set (sd_queues s' ! l). rq_offset x < rq_length x"
    using inv q'_ok len lane by (auto simp: out(4) sched_inv_def nth_list_update)
  moreover have "sorted (sd_responses s')" using inv now by (auto simp: out(7) sched_inv_def sorted_append)
  ultimately have "sched_inv s'"
    using inv free(3) now unfolding sched_inv_def out by (auto simp: out(6))
  moreover have "granted \<noteq> Some (gr_bank g)" using free(2) by (simp add: g_def gm_grant_of_def Let_def)
  ultimately show ?thesis using out q g_def q'_def by blast
qed

lemma remaining_step:
  assumes "sd_queues s ! lane = r # rest" "0 < bc_lineBytes (sd_config s)" "rq_offset r < rq_length r"
    "g = gm_grant_of (sd_config s) lane cycle r" "sd_config s' = sd_config s" "lane < length (sd_queues s)"
    "sd_queues s' = (sd_queues s)[lane :=
         (if gr_last g then rest else r\<lparr>rq_offset := rq_offset r + gr_bytes g\<rparr> # rest)]"
  shows "remaining lane s = beat_of g # remaining lane s'"
    and "l \<noteq> lane \<Longrightarrow> remaining l s' = remaining l s"
proof -
  let ?line = "bc_lineBytes (sd_config s)"
  let ?r' = "r\<lparr>rq_offset := rq_offset r + beat_bytes ?line r\<rparr>"
  have g: "gr_bytes g = beat_bytes ?line r" "gr_last g = (rq_offset r + beat_bytes ?line r = rq_length r)"
    "beat_of g = (rq_id r, rq_address r + rq_offset r, rq_offset r, beat_bytes ?line r,
       rq_offset r + beat_bytes ?line r = rq_length r)"
    by (auto simp: assms(4) gm_grant_of_def Let_def beat_of_def)
  have b: "beats_from ?line r = beat_of g # beats_from ?line ?r'"
    using assms(2,3) by (subst beats_from.simps) (simp add: g Let_def)
  have "beats_from ?line ?r' = []" if "gr_last g"
    using that by (subst beats_from.simps) (simp add: g)
  then show "remaining lane s = beat_of g # remaining lane s'"
    using b assms(1,5-7) g by (simp add: remaining_def)
  show "l \<noteq> lane \<Longrightarrow> remaining l s' = remaining l s" using assms(5,7) by (simp add: remaining_def)
qed

definition grant_ok :: "bank_config \<Rightarrow> cycle \<Rightarrow> gm_grant \<Rightarrow> bool" where
  "grant_ok c cycle g \<longleftrightarrow> 0 < gr_bytes g \<and> gr_address g mod bc_lineBytes c + gr_bytes g \<le> bc_lineBytes c \<and>
     gr_bank g = gr_address g div bc_lineBytes c mod bc_banks c \<and> gr_readyCycle g = cycle + bc_responseCycles c"

lemma gm_grant_of_ok:
  assumes "sched_inv s" "rq_offset r < rq_length r"
  shows "grant_ok (sd_config s) cycle (gm_grant_of (sd_config s) lane cycle r)"
  using assms beat_bytes_pos beat_bytes_line
  by (auto simp: grant_ok_def gm_grant_of_def Let_def sched_inv_def beat_bank_def)

lemma lane_step_spec:
  assumes step: "lane_step cycle lane (granted, result, s) = (granted', result', s')"
    and inv: "sched_inv s" and now: "sd_stepped s" "sd_lastCycle s = cycle" and lane: "lane < 2"
  obtains new where "result' = result @ new" "length new \<le> 1" "new = [] \<longleftrightarrow> lane_blocked cycle lane granted s"
    "sched_inv s'" "sd_config s' = sd_config s" "sd_stepped s'" "sd_lastCycle s' = cycle"
    "\<And>g. g \<in> set new \<Longrightarrow> grant_ok (sd_config s) cycle g \<and> gr_lane g = lane \<and> granted \<noteq> Some (gr_bank g) \<and> granted' = Some (gr_bank g)"
    "new = [] \<Longrightarrow> granted' = granted \<and> same_queues s s'"
    "\<And>l. l < 2 \<Longrightarrow> remaining l s = (if l = lane then map beat_of new else []) @ remaining l s'"
    "\<And>t. t \<in> set (sd_responses s') \<Longrightarrow> t \<in> set (sd_responses s) \<or> new \<noteq> []"
proof (cases "lane_blocked cycle lane granted s")
  case True
  note b = lane_step_blocked [OF True step]
  show thesis
    by (rule that [of "[]"])
       (use b inv now True in \<open>auto simp: same_queues_def remaining_def\<close>)
next
  case False
  obtain r rest g where q: "sd_queues s ! lane = r # rest" "g = gm_grant_of (sd_config s) lane cycle r"
      "result' = result @ [g]" "granted' = Some (gr_bank g)" "granted \<noteq> Some (gr_bank g)"
      "sd_queues s' = (sd_queues s)[lane :=
         (if gr_last g then rest else r\<lparr>rq_offset := rq_offset r + gr_bytes g\<rparr> # rest)]"
    and s': "sched_inv s'" "sd_config s' = sd_config s" "sd_lastCycle s' = cycle" "sd_stepped s'"
    using lane_step_grant [OF False step inv now lane] by blast
  have r: "rq_offset r < rq_length r" using inv lane q(1) by (auto simp: sched_inv_def)
  have line: "0 < bc_lineBytes (sd_config s)" "lane < length (sd_queues s)" using inv lane by (auto simp: sched_inv_def)
  note rem = remaining_step [OF q(1) line(1) r q(2) s'(2) line(2) q(6)]
  have lg: "gr_lane g = lane" by (simp add: q(2) gm_grant_of_def Let_def)
  have "grant_ok (sd_config s) cycle g" unfolding q(2) by (rule gm_grant_of_ok [OF inv r])
  then show thesis
    by (intro that [of "[g]"]) (use q(3-5) s' False lg rem in auto)
qed

lemma gm_step_spec:
  assumes step: "gm_step cycle s = Inr (gs, s')" and inv: "sched_inv s"
  shows "sched_inv s'" "sd_config s' = sd_config s" "sd_stepped s'" "sd_lastCycle s' = cycle"
    "length gs \<le> 2" "distinct (map gr_bank gs)" "list_all (grant_ok (sd_config s) cycle) gs"
    "\<And>l. l < 2 \<Longrightarrow> remaining l s = lane_beats l gs @ remaining l s'"
    "sd_stepped s \<Longrightarrow> sd_lastCycle s < cycle"
proof -
  let ?s0 = "s\<lparr>sd_stepped := True, sd_lastCycle := cycle,
                  sd_responses := dropWhile (\<lambda>t. t \<le> cycle) (sd_responses s)\<rparr>"
  have later: "\<not> (sd_stepped s \<and> cycle \<le> sd_lastCycle s)" using step by (auto simp: gm_step_def)
  obtain g1 r1 s1 where l0: "lane_step cycle 0 (None, [], ?s0) = (g1, r1, s1)" by (metis prod_cases3)
  obtain g2 r2 s2 where l1: "lane_step cycle 1 (g1, r1, s1) = (g2, r2, s2)" by (metis prod_cases3)
  have out: "gs = r2" "s' = s2" using step later l0 l1 by (auto simp: gm_step_def Let_def)
  have drop: "set (dropWhile P xs) \<subseteq> set xs" "length (dropWhile P xs) \<le> length xs" for P and xs :: "nat list"
    by (auto dest: set_dropWhileD simp: length_dropWhile_le)
  have "\<forall>t \<in> set (sd_responses ?s0). t \<le> cycle + bc_responseCycles (sd_config s)"
    using inv later drop(1) by (fastforce simp: sched_inv_def)
  then have inv0: "sched_inv ?s0"
    using inv drop(2) [of "\<lambda>t. t \<le> cycle" "sd_responses s"]
    by (auto simp: sched_inv_def gm_queued_def sorted_dropWhile)
  have rem0: "remaining l ?s0 = remaining l s" for l by (simp add: remaining_def)
  obtain n0 where n0: "r1 = [] @ n0" "length n0 \<le> 1" "sched_inv s1" "sd_config s1 = sd_config ?s0"
      "sd_stepped s1" "sd_lastCycle s1 = cycle"
      "\<And>g. g \<in> set n0 \<Longrightarrow> grant_ok (sd_config ?s0) cycle g \<and> gr_lane g = 0 \<and> None \<noteq> Some (gr_bank g) \<and> g1 = Some (gr_bank g)"
      "\<And>l. l < 2 \<Longrightarrow> remaining l ?s0 = (if l = 0 then map beat_of n0 else []) @ remaining l s1"
    by (rule lane_step_spec [OF l0 inv0]) auto
  obtain n1 where n1: "r2 = r1 @ n1" "length n1 \<le> 1" "sched_inv s2" "sd_config s2 = sd_config s1"
      "sd_stepped s2" "sd_lastCycle s2 = cycle"
      "\<And>g. g \<in> set n1 \<Longrightarrow> grant_ok (sd_config s1) cycle g \<and> gr_lane g = 1 \<and> g1 \<noteq> Some (gr_bank g) \<and> g2 = Some (gr_bank g)"
      "\<And>l. l < 2 \<Longrightarrow> remaining l s1 = (if l = 1 then map beat_of n1 else []) @ remaining l s2"
    by (rule lane_step_spec [OF l1 n0(3,5,6)]) auto
  have gs: "gs = n0 @ n1" using out n0(1) n1(1) by simp
  show "sched_inv s'" "sd_config s' = sd_config s" "sd_stepped s'" "sd_lastCycle s' = cycle"
    using out n0 n1 by auto
  show "length gs \<le> 2" using gs n0(2) n1(2) by simp
  show "list_all (grant_ok (sd_config s) cycle) gs"
    using n0(4,7) n1(7) by (auto simp: gs list_all_iff)
  have "distinct (map gr_bank xs)" if "length xs \<le> 1" for xs :: "gm_grant list"
    using that by (cases xs) auto
  then show "distinct (map gr_bank gs)"
    using n0(2,7) n1(2,7) by (auto simp: gs)
  show "remaining l s = lane_beats l gs @ remaining l s'" if l: "l < 2" for l
  proof -
    have "filter (\<lambda>g. gr_lane g = l) n0 = (if l = 0 then n0 else [])"
      "filter (\<lambda>g. gr_lane g = l) n1 = (if l = 1 then n1 else [])"
      using n0(7) n1(7) by (auto simp: filter_id_conv filter_empty_conv)
    then show ?thesis
      using n0(8) [OF l] n1(8) [OF l] rem0 [of l] out by (auto simp: lane_beats_def gs)
  qed
  show "sd_stepped s \<Longrightarrow> sd_lastCycle s < cycle" using later by simp
qed

section \<open>Histories\<close>

datatype gm_op = GmEnqueue nat nat addr nat cycle | GmStep cycle

definition mk_request :: "nat \<Rightarrow> addr \<Rightarrow> nat \<Rightarrow> cycle \<Rightarrow> gm_request" where
  "mk_request i a n e = \<lparr>rq_id = i, rq_address = a, rq_length = n, rq_eligibleCycle = e, rq_offset = 0\<rparr>"

text \<open>Grants so far, accepted requests so far, scheduler. A throwing step changes nothing.\<close>

type_synonym gm_history = "gm_grant list \<times> (nat \<times> gm_request) list \<times> bank_sched"

fun gm_apply :: "gm_op \<Rightarrow> gm_history \<Rightarrow> gm_history" where
  "gm_apply (GmEnqueue lane i a n e) (gs, acc, s) =
    (case gm_enqueue lane (mk_request i a n e) s of (ok, s') \<Rightarrow>
       (gs, if ok then acc @ [(lane, mk_request i a n e)] else acc, s'))"
| "gm_apply (GmStep cycle) (gs, acc, s) =
    (case gm_step cycle s of Inl _ \<Rightarrow> (gs, acc, s) | Inr (g, s') \<Rightarrow> (gs @ g, acc, s'))"

definition requests_of :: "nat \<Rightarrow> (nat \<times> gm_request) list \<Rightarrow> gm_request list" where
  "requests_of lane acc = map snd (filter (\<lambda>x. fst x = lane) acc)"

definition hist_inv :: "bank_config \<Rightarrow> gm_history \<Rightarrow> bool" where
  "hist_inv c h \<longleftrightarrow> (case h of (gs, acc, s) \<Rightarrow> sched_inv s \<and> sd_config s = c \<and>
     (\<forall>lane < 2. lane_beats lane gs @ remaining lane s =
        concat (map (beats_from (bc_lineBytes c)) (requests_of lane acc))))"

lemma gm_apply_inv:
  assumes "hist_inv c h"
  shows "hist_inv c (gm_apply x h)"
proof -
  obtain gs acc s where h: "h = (gs, acc, s)" by (metis prod_cases3)
  have inv: "sched_inv s" "sd_config s = c" and rem: "\<And>lane. lane < 2 \<Longrightarrow> lane_beats lane gs @ remaining lane s =
      concat (map (beats_from (bc_lineBytes c)) (requests_of lane acc))"
    using assms by (auto simp: hist_inv_def h)
  show ?thesis
  proof (cases x)
    case (GmEnqueue lane i a n e)
    let ?r = "mk_request i a n e"
    have inv': "sched_inv (snd (gm_enqueue lane ?r s))"
      by (rule enqueue_inv [OF inv(1)]) (simp add: mk_request_def)
    show ?thesis
    proof (cases "fst (gm_enqueue lane ?r s)")
      case True
      then have l: "lane < 2" and s': "gm_enqueue lane ?r s = (True, s\<lparr>sd_queues := (sd_queues s)[lane := sd_queues s ! lane @ [?r]]\<rparr>)"
        by (auto simp: gm_enqueue_def split: if_splits)
      have "length (sd_queues s) = 2" using inv by (simp add: sched_inv_def)
      then have "remaining l' (snd (gm_enqueue lane ?r s)) =
          remaining l' s @ (if l' = lane then beats_from (bc_lineBytes c) ?r else [])" if "l' < 2" for l'
        using that l inv by (auto simp: s' remaining_def nth_list_update)
      then show ?thesis
        using inv inv' rem s' unfolding h GmEnqueue
        by (simp add: hist_inv_def requests_of_def append_assoc [symmetric] del: append_assoc)
    next
      case False
      then have "gm_enqueue lane ?r s = (False, s)" by (auto simp: gm_enqueue_def split: if_splits)
      then show ?thesis using assms by (simp add: h GmEnqueue)
    qed
  next
    case (GmStep cycle)
    show ?thesis
    proof (cases "gm_step cycle s")
      case (Inl e)
      then show ?thesis using assms by (simp add: h GmStep)
    next
      case (Inr r)
      obtain g s' where r: "r = (g, s')" by (cases r)
      note sp = gm_step_spec [OF Inr [unfolded r] inv(1)]
      have "lane_beats lane (gs @ g) @ remaining lane s' = lane_beats lane gs @ remaining lane s" if "lane < 2" for lane
        using sp(8) [OF that] by (simp add: lane_beats_def)
      then show ?thesis using sp(1,2) inv rem by (simp add: h GmStep Inr r hist_inv_def)
    qed
  qed
qed

lemma gm_run_inv: "hist_inv c h \<Longrightarrow> hist_inv c (fold gm_apply ops h)"
  by (induction ops arbitrary: h) (simp_all add: gm_apply_inv)

lemma gm_start_inv: "make_bank_sched c = Inr s \<Longrightarrow> hist_inv c ([], [], s)"
  using make_inv
  by (auto simp: hist_inv_def lane_beats_def remaining_def requests_of_def make_bank_sched_def
      less_2_cases_iff split: if_splits)

text \<open>The bytes (request id, offset) that a list of beats moves.\<close>

definition bytes_of :: "beat list \<Rightarrow> (nat \<times> nat) list" where
  "bytes_of bs = concat (map (\<lambda>(i, a, off, n, l). map (Pair i) [off..<off + n]) bs)"

lemma bytes_of_beats:
  assumes "0 < line"
  shows "rq_offset r \<le> rq_length r \<Longrightarrow> bytes_of (beats_from line r) = map (Pair (rq_id r)) [rq_offset r..<rq_length r]"
  using assms
proof (induction line r rule: beats_from.induct)
  case (1 line r)
  let ?n = "beat_bytes line r"
  let ?r' = "r\<lparr>rq_offset := rq_offset r + ?n\<rparr>"
  show ?case
  proof (cases "rq_offset r < rq_length r")
    case True
    have le: "rq_offset r + ?n \<le> rq_length r" using beat_bytes_le 1(2) by simp
    have "bytes_of (beats_from line ?r') = map (Pair (rq_id ?r')) [rq_offset ?r'..<rq_length ?r']"
      by (rule 1(1)) (use True 1(3) le in auto)
    moreover have "beats_from line r = (rq_id r, rq_address r + rq_offset r, rq_offset r, ?n,
        rq_offset r + ?n = rq_length r) # beats_from line ?r'"
      using True 1(3) by (subst beats_from.simps) (simp add: Let_def)
    moreover have "[rq_offset r..<rq_length r] = [rq_offset r..<rq_offset r + ?n] @ [rq_offset r + ?n..<rq_length r]"
      using le upt_add_eq_append [of "rq_offset r" "rq_offset r + ?n" "rq_length r - (rq_offset r + ?n)"] by simp
    ultimately show ?thesis by (simp add: bytes_of_def)
  next
    case False
    then show ?thesis using 1(2) by (subst beats_from.simps) (simp add: bytes_of_def)
  qed
qed

lemma bytes_of_append [simp]: "bytes_of (xs @ ys) = bytes_of xs @ bytes_of ys"
  by (simp add: bytes_of_def)

lemma bytes_of_concat: "bytes_of (concat bss) = concat (map bytes_of bss)"
  by (induction bss) (simp_all add: bytes_of_def)

lemma accepted_fresh:
  "\<forall>x \<in> set (fst (snd h)). rq_offset (snd x) = 0 \<Longrightarrow>
    \<forall>x \<in> set (fst (snd (fold gm_apply ops h))). rq_offset (snd x) = 0"
proof (induction ops arbitrary: h)
  case Nil
  then show ?case by simp
next
  case (Cons x ops)
  obtain gs acc s where h: "h = (gs, acc, s)" by (metis prod_cases3)
  have "\<forall>x \<in> set (fst (snd (gm_apply x h))). rq_offset (snd x) = 0"
    using Cons.prems by (cases x) (auto simp: h mk_request_def split: prod.splits sum.splits)
  then show ?case using Cons.IH by simp
qed

text \<open>C25: the scheduler is a FIFO per lane that loses and repeats nothing: at any time the bytes
  granted on a lane followed by the bytes still owed are exactly the bytes of the requests
  accepted on the lane, request after request, each from offset 0 to its length, whatever the
  interleaving of requests, bank conflicts, blocked responses and rejected calls.\<close>

theorem gm_grants_exact:
  assumes "make_bank_sched c = Inr s0" and "fold gm_apply ops ([], [], s0) = (gs, acc, s)" and "lane < 2"
  shows "bytes_of (lane_beats lane gs) @ bytes_of (remaining lane s) =
    concat (map (\<lambda>r. map (Pair (rq_id r)) [0..<rq_length r]) (requests_of lane acc))"
proof -
  have h: "hist_inv c (gs, acc, s)"
    using gm_run_inv [OF gm_start_inv [OF assms(1)], of ops] assms(2) by simp
  have fresh: "\<forall>x \<in> set acc. rq_offset (snd x) = 0"
    using accepted_fresh [of "([], [], s0)" ops] assms(2) by simp
  have line: "0 < bc_lineBytes c" using h by (auto simp: hist_inv_def sched_inv_def)
  have "bytes_of (lane_beats lane gs) @ bytes_of (remaining lane s) =
      bytes_of (concat (map (beats_from (bc_lineBytes c)) (requests_of lane acc)))"
    using h assms(3) by (simp add: hist_inv_def flip: bytes_of_append)
  also have "\<dots> = concat (map (\<lambda>r. map (Pair (rq_id r)) [0..<rq_length r]) (requests_of lane acc))"
    unfolding bytes_of_concat map_map
    using fresh bytes_of_beats [OF line]
    by (intro arg_cong [where f = concat] map_cong) (auto simp: requests_of_def)
  finally show ?thesis .
qed

text \<open>C26: one step grants at most one beat per lane, to different banks; every beat is non-empty,
  stays within one line, goes to the bank that interleaving assigns to its address and becomes
  ready after the response latency; the response slots in use never exceed their capacity and
  the queued requests never exceed theirs.\<close>

theorem gm_step_safe:
  assumes "make_bank_sched c = Inr s0" and "fold gm_apply ops ([], [], s0) = (past, acc, s)"
    and "gm_step cycle s = Inr (gs, s')"
  shows "length gs \<le> 2 \<and> distinct (map gr_bank gs) \<and> list_all (grant_ok c cycle) gs \<and>
    length (sd_responses s') \<le> bc_responseCapacity c \<and>
    bs_responseHighWater (sd_stats s') \<le> bc_responseCapacity c \<and> gm_queued s' \<le> bc_requestCapacity c"
proof -
  have "hist_inv c (past, acc, s)"
    using gm_run_inv [OF gm_start_inv [OF assms(1)], of ops] assms(2) by simp
  then have inv: "sched_inv s" "sd_config s = c" by (auto simp: hist_inv_def)
  note sp = gm_step_spec [OF assms(3) inv(1)]
  show ?thesis using sp(1,2,5-7) inv(2) by (auto simp: sched_inv_def)
qed

text \<open>Stepping through a list of cycles, collecting the grants of each step.\<close>

fun gm_steps :: "cycle list \<Rightarrow> bank_sched \<Rightarrow> gm_grant list \<times> bank_sched" where
  "gm_steps [] s = ([], s)"
| "gm_steps (t # ts) s =
    (case gm_step t s of Inl _ \<Rightarrow> gm_steps ts s
     | Inr (gs, s') \<Rightarrow> (case gm_steps ts s' of (gs', s'') \<Rightarrow> (gs @ gs', s'')))"

lemma gm_step_first:
  assumes "sched_inv s" "\<not> (sd_stepped s \<and> t \<le> sd_lastCycle s)" "sd_queues s ! 0 = r # rest"
    "rq_eligibleCycle r \<le> t"
  shows "(\<exists>gs s'. gm_step t s = Inr (gs, s') \<and> (\<exists>g \<in> set gs. gr_lane g = 0)) \<or>
    (\<exists>s'. gm_step t s = Inr ([], s') \<and> sd_queues s' = sd_queues s \<and> sd_config s' = sd_config s \<and>
       sd_responses s' = dropWhile (\<lambda>u. u \<le> t) (sd_responses s) \<and>
       length (sd_responses s') \<ge> bc_responseCapacity (sd_config s))"
proof -
  let ?s0 = "s\<lparr>sd_stepped := True, sd_lastCycle := t, sd_responses := dropWhile (\<lambda>u. u \<le> t) (sd_responses s)\<rparr>"
  obtain g1 r1 s1 where l0: "lane_step t 0 (None, [], ?s0) = (g1, r1, s1)" by (metis prod_cases3)
  obtain g2 r2 s2 where l1: "lane_step t 1 (g1, r1, s1) = (g2, r2, s2)" by (metis prod_cases3)
  have st: "gm_step t s = Inr (r2, s2)" using assms(2) l0 l1 by (auto simp: gm_step_def Let_def)
  have pre: "\<exists>zs. r2 = r1 @ zs"
    using l1 by (auto simp: lane_step_def Let_def split: list.splits if_splits)
  show ?thesis
  proof (cases "length (sd_responses ?s0) \<ge> bc_responseCapacity (sd_config s)")
    case True
    then have "lane_blocked t 0 None ?s0" using assms(3) by (simp add: lane_blocked_def)
    note b0 = lane_step_blocked [OF this l0]
    have "lane_blocked t 1 g1 s1"
      using True b0 by (auto simp: lane_blocked_def same_queues_def split: list.splits)
    note b1 = lane_step_blocked [OF this l1]
    show ?thesis using st b0 b1 True by (auto simp: same_queues_def)
  next
    case False
    then have "gm_grant_of (sd_config s) 0 t r \<in> set r1"
      using l0 assms(3,4) by (auto simp: lane_step_def Let_def)
    then have "\<exists>g \<in> set r2. gr_lane g = 0" using pre by (force simp: gm_grant_of_def Let_def)
    with st show ?thesis by blast
  qed
qed

lemma lane0_eventually:
  assumes "sched_inv s" "sorted_wrt (<) ts" "ts \<noteq> []" "\<forall>t \<in> set ts. \<not> (sd_stepped s \<and> t \<le> sd_lastCycle s)"
    "sd_queues s ! 0 = r # rest" "rq_eligibleCycle r \<le> hd ts" "\<forall>u \<in> set (sd_responses s). u \<le> last ts"
  shows "\<exists>g \<in> set (fst (gm_steps ts s)). gr_lane g = 0"
  using assms
proof (induction ts arbitrary: s)
  case Nil
  then show ?case by simp
next
  case (Cons t ts)
  from gm_step_first [OF Cons.prems(1), of t r rest] Cons.prems consider
    (grant) gs s' where "gm_step t s = Inr (gs, s')" "\<exists>g \<in> set gs. gr_lane g = 0"
  | (full) s' where "gm_step t s = Inr ([], s')" "sd_queues s' = sd_queues s" "sd_config s' = sd_config s"
      "sd_responses s' = dropWhile (\<lambda>u. u \<le> t) (sd_responses s)"
      "length (sd_responses s') \<ge> bc_responseCapacity (sd_config s)"
    by auto
  then show ?case
  proof cases
    case grant
    then show ?thesis by (auto split: prod.splits)
  next
    case full
    note sp = gm_step_spec [OF full(1) Cons.prems(1)]
    have "sd_responses s' \<noteq> []" using full(5) Cons.prems(1) by (auto simp: sched_inv_def)
    then obtain u where "u \<in> set (sd_responses s)" "t < u"
      unfolding full(4) by (metis dropWhile_eq_Nil_conv not_le)
    then have ts: "ts \<noteq> []" using Cons.prems(7) by auto
    have "\<forall>u \<in> set (sd_responses s'). u \<le> last ts"
      using Cons.prems(7) ts set_dropWhileD unfolding full(4) by fastforce
    moreover have "\<forall>t' \<in> set ts. \<not> (sd_stepped s' \<and> t' \<le> sd_lastCycle s')"
      using Cons.prems(2) sp(4) by auto
    moreover have "rq_eligibleCycle r \<le> hd ts" using Cons.prems(2,6) ts by (cases ts) auto
    ultimately have "\<exists>g \<in> set (fst (gm_steps ts s')). gr_lane g = 0"
      using Cons.IH [OF sp(1)] Cons.prems(2,5) ts full(2) by simp
    then show ?thesis using full(1) by (auto split: prod.splits)
  qed
qed

lemma strict_last: "sorted_wrt (<) ts \<Longrightarrow> ts \<noteq> [] \<Longrightarrow> hd ts + length ts \<le> last ts + 1" for ts :: "nat list"
proof (induction ts)
  case Nil
  then show ?case by simp
next
  case (Cons t ts)
  then show ?case by (cases ts) auto
qed

text \<open>C27: the compute lane does not starve: if its oldest request is eligible, then among any
  \<open>responseCycles\<close> + 1 successive clock edges at least one grants the compute lane a beat,
  whatever the DMA lane holds and however full the response slots were.\<close>

theorem gm_compute_lane_progress:
  assumes "make_bank_sched c = Inr s0" and "fold gm_apply ops ([], [], s0) = (past, acc, s)"
    and "sd_queues s ! 0 = r # rest" and "rq_eligibleCycle r \<le> hd ts"
    and "sorted_wrt (<) ts" and "length ts = bc_responseCycles c + 1" and "sd_lastCycle s < hd ts"
  shows "\<exists>g \<in> set (fst (gm_steps ts s)). gr_lane g = 0"
proof -
  have "hist_inv c (past, acc, s)"
    using gm_run_inv [OF gm_start_inv [OF assms(1)], of ops] assms(2) by simp
  then have inv: "sched_inv s" "sd_config s = c" by (auto simp: hist_inv_def)
  have ne: "ts \<noteq> []" using assms(6) by auto
  have "sd_lastCycle s + bc_responseCycles c \<le> last ts"
    using strict_last [OF assms(5) ne] assms(6,7) by linarith
  then have "\<forall>u \<in> set (sd_responses s). u \<le> last ts"
    using inv by (fastforce simp: sched_inv_def)
  moreover have "\<forall>t \<in> set ts. \<not> (sd_stepped s \<and> t \<le> sd_lastCycle s)"
    using assms(5,7) ne by (cases ts) auto
  ultimately show ?thesis using lane0_eventually [OF inv(1) assms(5) ne _ assms(3,4)] by blast
qed

text \<open>A concrete history: two requests that start in the same bank.\<close>

definition demo_sched :: bank_sched where
  "demo_sched = (case make_bank_sched default_bank_config of Inr s \<Rightarrow> s)"

definition demo_gm_ops :: "gm_op list" where
  "demo_gm_ops = [GmEnqueue 0 1 100 300 0, GmEnqueue 1 2 64 128 0, GmStep 5]"

lemma demo_make: "make_bank_sched default_bank_config = Inr demo_sched"
proof -
  have "pow2 8" "pow2 128" by (simp_all add: pow2_def)
  then show ?thesis by (simp add: demo_sched_def make_bank_sched_def default_bank_config_def)
qed

lemma make_fields:
  "make_bank_sched c = Inr s \<Longrightarrow> sd_config s = c \<and> sd_queues s = [[], []] \<and> sd_responses s = [] \<and>
    \<not> sd_stepped s \<and> sd_lastCycle s = 0"
  by (auto simp: make_bank_sched_def split: if_splits)

lemma demo_fields:
  "sd_config demo_sched = default_bank_config" "sd_queues demo_sched = [[], []]" "sd_responses demo_sched = []"
  "\<not> sd_stepped demo_sched" "sd_lastCycle demo_sched = 0"
  using make_fields [OF demo_make] by auto

definition demo_history :: gm_history where
  "demo_history = fold gm_apply demo_gm_ops ([], [], demo_sched)"

lemma demo_run:
  "map beat_of (fst demo_history) = [(1, 100, 0, 28, False)]"
  "map gr_lane (fst demo_history) = [0]"
  "fst (snd demo_history) = [(0, mk_request 1 100 300 0), (1, mk_request 2 64 128 0)]"
  "sd_queues (snd (snd demo_history)) =
    [[(mk_request 1 100 300 0)\<lparr>rq_offset := 28\<rparr>], [mk_request 2 64 128 0]]"
  "sd_lastCycle (snd (snd demo_history)) = 5" "sd_stepped (snd (snd demo_history))"
  "sd_config (snd (snd demo_history)) = default_bank_config"
  by (simp_all add: demo_history_def demo_gm_ops_def gm_enqueue_def gm_queued_def demo_fields
      default_bank_config_def mk_request_def gm_step_def lane_step_def gm_grant_of_def beat_bank_def
      beat_bytes_def beat_of_def Let_def)

lemma demo_history_split:
  obtains gs s where "fold gm_apply demo_gm_ops ([], [], demo_sched) =
      (gs, [(0, mk_request 1 100 300 0), (1, mk_request 2 64 128 0)], s)"
    "map beat_of gs = [(1, 100, 0, 28, False)]" "map gr_lane gs = [0]"
    "sd_queues s = [[(mk_request 1 100 300 0)\<lparr>rq_offset := 28\<rparr>], [mk_request 2 64 128 0]]"
    "sd_lastCycle s = 5" "sd_stepped s" "s = snd (snd demo_history)"
  using demo_run that [of "fst demo_history" "snd (snd demo_history)"]
  by (simp add: demo_history_def [symmetric]) (metis prod.collapse)

theorem gm_grants_exact_witness:
  "\<exists>gs acc s. fold gm_apply demo_gm_ops ([], [], demo_sched) = (gs, acc, s) \<and>
     map beat_of gs = [(1, 100, 0, 28, False)] \<and>
     bytes_of (lane_beats 0 gs) @ bytes_of (remaining 0 s) = map (Pair 1) [0..<300]"
proof (rule demo_history_split)
  fix gs s
  assume h: "fold gm_apply demo_gm_ops ([], [], demo_sched) =
      (gs, [(0, mk_request 1 100 300 0), (1, mk_request 2 64 128 0)], s)" and b: "map beat_of gs = [(1, 100, 0, 28, False)]"
  have "bytes_of (lane_beats 0 gs) @ bytes_of (remaining 0 s) = map (Pair 1) [0..<300]"
    using gm_grants_exact [OF demo_make h, of 0] by (simp add: requests_of_def mk_request_def)
  with h b show ?thesis by (intro exI conjI)
qed

theorem gm_step_safe_witness:
  "\<exists>gs s'. gm_step 6 (snd (snd demo_history)) = Inr (gs, s') \<and> length gs \<le> 2 \<and>
     distinct (map gr_bank gs)"
proof (rule demo_history_split)
  fix gs s
  assume h: "fold gm_apply demo_gm_ops ([], [], demo_sched) =
      (gs, [(0, mk_request 1 100 300 0), (1, mk_request 2 64 128 0)], s)" and s: "s = snd (snd demo_history)"
    "sd_lastCycle s = 5"
  obtain r where r: "gm_step 6 s = Inr r"
    using s(2) by (cases "gm_step 6 s") (auto simp: gm_step_def Let_def split: prod.splits)
  obtain gs' s' where "r = (gs', s')" by (cases r)
  with gm_step_safe [OF demo_make h, of 6 gs' s'] r s(1) show ?thesis by auto
qed

theorem gm_compute_lane_progress_witness:
  "\<exists>g \<in> set (fst (gm_steps [6, 7] (snd (snd demo_history)))). gr_lane g = 0"
proof (rule demo_history_split)
  fix gs s
  assume h: "fold gm_apply demo_gm_ops ([], [], demo_sched) =
      (gs, [(0, mk_request 1 100 300 0), (1, mk_request 2 64 128 0)], s)" and s: "s = snd (snd demo_history)"
    and q: "sd_queues s = [[(mk_request 1 100 300 0)\<lparr>rq_offset := 28\<rparr>], [mk_request 2 64 128 0]]"
    and l: "sd_lastCycle s = 5"
  have "\<exists>g \<in> set (fst (gm_steps [6, 7] s)). gr_lane g = 0"
    by (rule gm_compute_lane_progress [OF demo_make h])
       (use q l in \<open>auto simp: mk_request_def default_bank_config_def\<close>)
  then show ?thesis using s by simp
qed

end
