(* ===== verification/Native_Isa.thy ===== *)
theory Native_Isa
  imports Byte_Codec
begin

text \<open>
  The native command interface: \<^verbatim>\<open>golem/isa/precision.h\<close> (compute modes),
  \<^verbatim>\<open>golem/isa/nativeDescriptor.h\<close> (command descriptor, checksum and validation) and
  \<^verbatim>\<open>golem/tileengine/workloadPlacement.h\<close> (which node holds which operand tile, and where).
\<close>

unbundle bit_operations_syntax

section \<open>Precision\<close>

datatype compute_mode = Int4 | Int8 | Fp16 | Bf16 | Tf32 | Fp32 | Fp8E4M3 | Fp8E5M2

definition inputBits :: "compute_mode \<Rightarrow> nat" where
  "inputBits m =
    (if m = Int4 then 4
     else if m = Int8 \<or> m = Fp8E4M3 \<or> m = Fp8E5M2 then 8
     else if m = Fp16 \<or> m = Bf16 then 16 else 32)"

definition integerMode :: "compute_mode \<Rightarrow> bool" where
  "integerMode m \<longleftrightarrow> m = Int4 \<or> m = Int8"

definition lanesPerBeat :: "compute_mode \<Rightarrow> nat" where
  "lanesPerBeat m = 32 div inputBits m"

definition packedRowBytes :: "nat \<Rightarrow> compute_mode \<Rightarrow> nat" where
  "packedRowBytes k m = u64 (k * inputBits m + 7) div 8"

definition mode_of :: "nat \<Rightarrow> compute_mode" where
  "mode_of n = [Int4, Int8, Fp16, Bf16, Tf32, Fp32, Fp8E4M3, Fp8E5M2] ! n"

record precision_spec =
  ps_compute_mode :: nat
  ps_input_bits :: nat
  ps_output_kind :: nat
  ps_accumulator_bits :: nat
  ps_arithmetic_version :: nat
  ps_reserved :: "nat list"

definition default_precision :: precision_spec where
  "default_precision = \<lparr>ps_compute_mode = 5, ps_input_bits = 32, ps_output_kind = 1,
     ps_accumulator_bits = 32, ps_arithmetic_version = 1, ps_reserved = [0, 0, 0]\<rparr>"

definition validPrecision :: "precision_spec \<Rightarrow> bool" where
  "validPrecision p \<longleftrightarrow> ps_compute_mode p \<le> 7 \<and>
     ps_input_bits p = inputBits (mode_of (ps_compute_mode p)) \<and>
     ps_output_kind p = (if integerMode (mode_of (ps_compute_mode p)) then 0 else 1) \<and>
     ps_accumulator_bits p = 32 \<and> ps_arithmetic_version p = 1 \<and>
     ps_reserved p ! 0 = 0 \<and> ps_reserved p ! 1 = 0 \<and> ps_reserved p ! 2 = 0"

text \<open>A packed row holds all its \<open>k\<close> elements, and a 32-bit beat is filled exactly.\<close>

lemma packedRowBytes_enough:
  assumes "k * inputBits m + 7 < 2 ^ 64"
  shows "k * inputBits m \<le> 8 * packedRowBytes k m \<and> 8 * packedRowBytes k m < k * inputBits m + 8"
proof -
  have "x \<le> 8 * ((x + 7) div 8) \<and> 8 * ((x + 7) div 8) < x + 8" for x :: nat by presburger
  with assms show ?thesis by (simp add: packedRowBytes_def)
qed

lemma lanesPerBeat_exact: "lanesPerBeat m * inputBits m = 32"
  by (cases m) (simp_all add: lanesPerBeat_def inputBits_def)

section \<open>Native descriptor\<close>

definition native_Magic :: nat where "native_Magic = 0x4e444d47"
definition native_Version :: nat where "native_Version = 1"
definition native_Gemm :: nat where "native_Gemm = 1"
definition MaxCommandBytes :: nat where "MaxCommandBytes = 32768"
definition RegionBytes :: nat where "RegionBytes = 1024 * 1024"
definition native_VirtualAddress :: nat where "native_VirtualAddress = 0x50000000"
definition BundleMagic :: nat where "BundleMagic = 0x4e424d47"
definition sizeof_Command :: nat where "sizeof_Command = 128"

datatype native_status =
  Success | InvalidDescriptor | Unsupported | QueueFull | BadToken | ExecutionFault

record native_command =
  nc_magic :: nat
  nc_version :: nat
  nc_kernel_kind :: nat
  nc_total_bytes :: nat
  nc_checksum :: nat
  nc_flags :: nat
  nc_physical_worker :: nat
  nc_logical_worker :: nat
  nc_worker_count :: nat
  nc_precision :: nat
  nc_m :: nat
  nc_n :: nat
  nc_k :: nat
  nc_reuse :: nat
  nc_node_bytes :: nat
  nc_a_offset :: nat
  nc_b_offset :: nat
  nc_c_offset :: nat
  nc_start_cycle :: nat
  nc_data_map :: nat
  nc_data_count :: nat
  nc_task_map :: nat
  nc_task_count :: nat
  nc_a_map :: nat
  nc_a_count :: nat
  nc_b_map :: nat
  nc_b_count :: nat

record native_bundle =
  nb_magic :: nat
  nb_version :: nat
  nb_total_bytes :: nat
  nb_commands :: nat
  nb_checksum :: nat
  nb_reserved :: nat
  nb_offsets :: "nat list"
  nb_sizes :: "nat list"

text \<open>The FNV-1a loop; the four bytes of the checksum field count as zero.\<close>

definition fnv32 :: "32 word \<Rightarrow> byte \<Rightarrow> 32 word" where
  "fnv32 hash b = (hash XOR ucast b) * 16777619"

fun checksum_loop :: "nat \<Rightarrow> 32 word \<Rightarrow> byte list \<Rightarrow> 32 word" where
  "checksum_loop i hash [] = hash"
| "checksum_loop i hash (b # bs) =
    checksum_loop (Suc i) (fnv32 hash (if 16 \<le> i \<and> i < 20 then 0 else b)) bs"

definition native_checksum :: "byte list \<Rightarrow> 32 word" where
  "native_checksum bytes = checksum_loop 0 2166136261 bytes"

text \<open>The loop over the four maps; \<open>nxt\<close> is the 32-bit counter \<open>next\<close>.\<close>

fun maps_loop :: "nat \<Rightarrow> nat \<Rightarrow> (nat \<times> nat) list \<Rightarrow> nat option" where
  "maps_loop sz nxt [] = Some nxt"
| "maps_loop sz nxt ((first, n) # rest) =
    (if first \<noteq> nxt \<or> first + n * 4 > sz then None
     else maps_loop sz (u32 (nxt + u32 (n * 4))) rest)"

definition command_tasks :: "native_command \<Rightarrow> nat" where
  "command_tasks c = ((nc_m c div 64 + nc_reuse c - 1) div nc_reuse c) *
     ((nc_n c div 64 + nc_reuse c - 1) div nc_reuse c)"

text \<open>The conditions of the three rejections before the map loop.\<close>

definition header_bad :: "native_command \<Rightarrow> nat \<Rightarrow> bool" where
  "header_bad c sz \<longleftrightarrow>
        nc_magic c \<noteq> native_Magic \<or> nc_total_bytes c \<noteq> sz \<or> sz < sizeof_Command \<or>
        sz > MaxCommandBytes \<or> sz mod 8 \<noteq> 0 \<or> (of_nat (nc_flags c) :: 32 word) AND NOT 1 \<noteq> 0 \<or>
        nc_physical_worker c \<ge> 16 \<or> nc_worker_count c = 0 \<or> nc_worker_count c > 16 \<or>
        nc_logical_worker c \<ge> nc_worker_count c \<or> nc_m c = 0 \<or> nc_n c = 0 \<or> nc_k c = 0 \<or>
        nc_m c mod 64 \<noteq> 0 \<or> nc_n c mod 64 \<noteq> 0 \<or> nc_k c mod 64 \<noteq> 0 \<or>
        (nc_reuse c \<noteq> 1 \<and> nc_reuse c \<noteq> 2) \<or>
        nc_node_bytes c \<noteq> 128 * 1024 * 1024 \<or> nc_a_offset c \<ge> nc_b_offset c \<or>
        nc_b_offset c \<ge> nc_c_offset c \<or> nc_c_offset c \<ge> nc_node_bytes c"

definition kind_bad :: "native_command \<Rightarrow> bool" where
  "kind_bad c \<longleftrightarrow> nc_version c \<noteq> native_Version \<or> nc_kernel_kind c \<noteq> native_Gemm \<or> nc_precision c > 7"

definition counts_bad :: "native_command \<Rightarrow> bool" where
  "counts_bad c \<longleftrightarrow>
     nc_data_count c = 0 \<or> nc_data_count c > 4 \<or> nc_task_count c \<noteq> command_tasks c \<or>
     nc_a_count c \<noteq> nc_m c div 64 \<or> nc_b_count c \<noteq> nc_n c div 64"

definition native_validate :: "native_command \<Rightarrow> nat \<Rightarrow> native_status" where
  "native_validate c sz =
    (if header_bad c sz then InvalidDescriptor
     else if kind_bad c then Unsupported
     else if counts_bad c then InvalidDescriptor
     else case maps_loop sz sizeof_Command
            [(nc_data_map c, nc_data_count c), (nc_task_map c, nc_task_count c),
             (nc_a_map c, nc_a_count c), (nc_b_map c, nc_b_count c)] of
            None \<Rightarrow> InvalidDescriptor
          | Some nxt \<Rightarrow> if (nxt + 7) div 8 * 8 \<noteq> sz then InvalidDescriptor else Success)"

text \<open>C28: an accepted descriptor is self-consistent: the four node maps follow the 128-byte
  header back to back without gap or overlap and end, padded to eight bytes, exactly at the
  command's size (at most 32 KiB, no 32-bit offset wraps); every dimension is a positive multiple
  of the 64-tile; there is one A node per row tile, one B node per column tile and one task per
  reuse block of the tile grid; and the three operand regions are ordered within the node.\<close>

theorem native_validate_sound:
  assumes "native_validate c sz = Success"
  shows "nc_data_map c = 128 \<and> nc_task_map c = nc_data_map c + 4 * nc_data_count c \<and>
    nc_a_map c = nc_task_map c + 4 * nc_task_count c \<and> nc_b_map c = nc_a_map c + 4 * nc_a_count c \<and>
    nc_b_map c + 4 * nc_b_count c \<le> sz \<and> sz < nc_b_map c + 4 * nc_b_count c + 8 \<and> sz \<le> 32768 \<and>
    nc_m c = 64 * nc_a_count c \<and> nc_n c = 64 * nc_b_count c \<and> 0 < nc_a_count c \<and> 0 < nc_b_count c \<and>
    nc_task_count c = ((nc_a_count c + nc_reuse c - 1) div nc_reuse c) * ((nc_b_count c + nc_reuse c - 1) div nc_reuse c) \<and>
    nc_a_offset c < nc_b_offset c \<and> nc_b_offset c < nc_c_offset c \<and> nc_c_offset c < 2 ^ 27 \<and>
    nc_logical_worker c < nc_worker_count c \<and> nc_worker_count c \<le> 16"
proof -
  let ?maps = "[(nc_data_map c, nc_data_count c), (nc_task_map c, nc_task_count c),
             (nc_a_map c, nc_a_count c), (nc_b_map c, nc_b_count c)]"
  from assms have ok: "\<not> header_bad c sz" "\<not> counts_bad c"
    by (auto simp: native_validate_def split: if_splits)
  then have sz: "sz \<le> 32768" by (simp add: header_bad_def MaxCommandBytes_def)
  from assms ok obtain nxt where loop: "maps_loop sz 128 ?maps = Some nxt" and pad: "(nxt + 7) div 8 * 8 = sz"
    by (auto simp: native_validate_def sizeof_Command_def simp del: maps_loop.simps split: if_splits option.splits)
  have small: "u32 (x + u32 (n * 4)) = x + n * 4" if "x + n * 4 \<le> sz" for x n
    using that sz by simp
  have step: "maps_loop sz x ((first, n) # rest) = Some y \<Longrightarrow>
      first = x \<and> x + n * 4 \<le> sz \<and> maps_loop sz (x + n * 4) rest = Some y" for x first n rest y
    using small [of x n] by (simp add: not_less split: if_splits)
  have maps: "nc_data_map c = 128" "nc_task_map c = 128 + nc_data_count c * 4"
      "nc_a_map c = nc_task_map c + nc_task_count c * 4" "nc_b_map c = nc_a_map c + nc_a_count c * 4"
      "nxt = nc_b_map c + nc_b_count c * 4" "nc_b_map c + nc_b_count c * 4 \<le> sz"
    using loop by (auto simp del: maps_loop.simps(2) dest!: step)
  have guards: "nc_m c mod 64 = 0" "nc_n c mod 64 = 0" "nc_m c \<noteq> 0" "nc_n c \<noteq> 0" "nc_a_count c = nc_m c div 64"
      "nc_b_count c = nc_n c div 64" "nc_task_count c = command_tasks c" "nc_a_offset c < nc_b_offset c"
      "nc_b_offset c < nc_c_offset c" "nc_c_offset c < nc_node_bytes c" "nc_node_bytes c = 128 * 1024 * 1024"
      "nc_logical_worker c < nc_worker_count c" "nc_worker_count c \<le> 16"
    using ok unfolding header_bad_def counts_bad_def by (simp_all add: not_le not_less)
  have "nc_m c = 64 * nc_a_count c" "nc_n c = 64 * nc_b_count c" using guards(1,2,5,6) by auto
  moreover have "sz < nxt + 8" using pad by linarith
  moreover have "nc_task_count c = ((nc_a_count c + nc_reuse c - 1) div nc_reuse c) * ((nc_b_count c + nc_reuse c - 1) div nc_reuse c)"
    using guards(5-7) by (simp add: command_tasks_def)
  moreover have "0 < nc_a_count c" "0 < nc_b_count c" using guards(3,4) calculation(1,2) by (metis gr0I mult_0_right)+
  moreover have "nc_c_offset c < 2 ^ 27" using guards(10,11) by simp
  ultimately show ?thesis using maps guards(8,9,12,13) sz by (simp add: mult.commute)
qed

definition demo_command :: native_command where
  "demo_command = \<lparr>nc_magic = 0x4e444d47, nc_version = 1, nc_kernel_kind = 1, nc_total_bytes = 152,
     nc_checksum = 0, nc_flags = 1, nc_physical_worker = 3, nc_logical_worker = 0, nc_worker_count = 1,
     nc_precision = 2, nc_m = 128, nc_n = 64, nc_k = 64, nc_reuse = 2, nc_node_bytes = 134217728,
     nc_a_offset = 0, nc_b_offset = 65536, nc_c_offset = 131072, nc_start_cycle = 0, nc_data_map = 128,
     nc_data_count = 1, nc_task_map = 132, nc_task_count = 1, nc_a_map = 136, nc_a_count = 2,
     nc_b_map = 144, nc_b_count = 1\<rparr>"

theorem native_validate_sound_witness:
  "native_validate demo_command 152 = Success \<and> nc_b_map demo_command + 4 * nc_b_count demo_command \<le> 152"
proof -
  have v: "native_validate demo_command 152 = Success"
    by (simp add: native_validate_def header_bad_def kind_bad_def counts_bad_def demo_command_def
        native_Magic_def sizeof_Command_def MaxCommandBytes_def native_Version_def native_Gemm_def
        command_tasks_def u32_def)
  with native_validate_sound [OF v] show ?thesis by blast
qed

lemma fnv_prime_inverse: "(16777619 :: 32 word) * 899433627 = 1"
  by simp

lemma fnv32_inj: "fnv32 h b = fnv32 h' b' \<longleftrightarrow> h XOR ucast b = h' XOR ucast b'"
proof
  assume "fnv32 h b = fnv32 h' b'"
  then have "(h XOR ucast b) * 16777619 * 899433627 = (h' XOR ucast b') * 16777619 * 899433627"
    by (simp add: fnv32_def)
  then show "h XOR ucast b = h' XOR ucast b'" by (simp only: mult.assoc fnv_prime_inverse mult_1_right)
qed (simp add: fnv32_def)

lemma xor_cancel: "(x XOR z = y XOR z) \<longleftrightarrow> x = y" for x y z :: "'a::len word"
  by (metis xor.assoc xor.right_neutral xor_self_eq)

lemma byte_ucast_inj: "(ucast (x :: byte) :: 32 word) = ucast y \<longleftrightarrow> x = y"
proof
  assume "(ucast x :: 32 word) = ucast y"
  then have eq: "bit (ucast x :: 32 word) n = bit (ucast y :: 32 word) n" for n by simp
  have "bit x n = bit y n" if "n < 8" for n using that eq [of n] by (simp add: bit_simps)
  then show "x = y" by (intro bit_eqI) simp
qed simp

lemma checksum_loop_inj: "checksum_loop i h bs = checksum_loop i h' bs \<longleftrightarrow> h = h'"
  by (induction bs arbitrary: i h h') (simp_all add: fnv32_inj xor_cancel)

lemma checksum_loop_update:
  assumes "j < length bs"
  shows "checksum_loop i h (bs[j := v]) = checksum_loop i h bs \<longleftrightarrow>
    v = bs ! j \<or> (16 \<le> i + j \<and> i + j < 20)"
  using assms
proof (induction bs arbitrary: i h j)
  case Nil
  then show ?case by simp
next
  case (Cons b bs)
  show ?case
  proof (cases j)
    case 0
    have "(h XOR ucast v = h XOR ucast b) \<longleftrightarrow> v = b"
      using xor_cancel [of "ucast v" h "ucast b"] byte_ucast_inj [of v b] by (simp add: xor.commute)
    with 0 show ?thesis by (auto simp: checksum_loop_inj fnv32_inj)
  next
    case (Suc k)
    then show ?thesis using Cons by simp
  qed
qed

text \<open>C29: the descriptor checksum detects every change of a single byte, at any position, except
  in the checksum field itself (bytes 16 to 19), which it ignores: so storing the checksum in
  its field does not invalidate it, and corrupting any other byte of a command always does.\<close>

theorem checksum_detects_byte:
  assumes "j < length bs"
  shows "native_checksum (bs[j := v]) = native_checksum bs \<longleftrightarrow> v = bs ! j \<or> (16 \<le> j \<and> j < 20)"
  using checksum_loop_update [OF assms, of 0] by (simp add: native_checksum_def)

theorem checksum_detects_byte_witness:
  "native_checksum ((replicate 128 0)[17 := 255]) = native_checksum (replicate 128 0) \<and>
   native_checksum ((replicate 128 0)[20 := 255]) \<noteq> native_checksum (replicate 128 0)"
  using checksum_detects_byte [of 17 "replicate 128 0" 255] checksum_detects_byte [of 20 "replicate 128 0" 255]
  by simp

section \<open>Workload placement\<close>

record placement =
  wp_dataNodes :: "nat list"
  wp_taskNodes :: "nat list"
  wp_aNodes :: "nat list"
  wp_bNodes :: "nat list"
  wp_replicateB :: bool

text \<open>\<open>std::adjacent_find\<close> finds two equal neighbours.\<close>

fun adjacent_equal :: "nat list \<Rightarrow> bool" where
  "adjacent_equal (x # y # xs) \<longleftrightarrow> x = y \<or> adjacent_equal (y # xs)"
| "adjacent_equal _ \<longleftrightarrow> False"

definition placement_valid :: "nat \<Rightarrow> nat \<Rightarrow> nat \<Rightarrow> nat \<Rightarrow> placement \<Rightarrow> bool" where
  "placement_valid physicalNodes mTiles nTiles macroTasks p =
    (if wp_dataNodes p = [] \<or> length (wp_taskNodes p) \<noteq> macroTasks \<or>
        length (wp_aNodes p) \<noteq> mTiles \<or> length (wp_bNodes p) \<noteq> nTiles then False
     else
       let sorted = sort (wp_dataNodes p)
       in if hd sorted = 0 \<or> last sorted > physicalNodes \<or> adjacent_equal sorted then False
          else list_all (\<lambda>node. node \<in> set sorted) (wp_taskNodes p @ wp_aNodes p @ wp_bNodes p))"

text \<open>\<open>at\<close> throws when the tile is out of range: \<open>None\<close>.\<close>

definition node_at :: "nat list \<Rightarrow> nat \<Rightarrow> nat option" where
  "node_at ns tile = (if tile < length ns then Some (ns ! tile) else None)"

definition slot_in :: "nat list \<Rightarrow> nat \<Rightarrow> nat" where
  "slot_in ns tile = count_if (\<lambda>n. n = ns ! tile) (take tile ns)"

definition aSlot :: "nat \<Rightarrow> placement \<Rightarrow> nat option" where
  "aSlot tile p = (case node_at (wp_aNodes p) tile of None \<Rightarrow> None | Some _ \<Rightarrow> Some (slot_in (wp_aNodes p) tile))"

definition bSlot :: "nat \<Rightarrow> placement \<Rightarrow> nat option" where
  "bSlot tile p =
    (if wp_replicateB p then Some tile
     else case node_at (wp_bNodes p) tile of None \<Rightarrow> None | Some _ \<Rightarrow> Some (slot_in (wp_bNodes p) tile))"

definition aAddress :: "nat \<Rightarrow> nat \<Rightarrow> nat \<Rightarrow> nat \<Rightarrow> nat \<Rightarrow> nat \<Rightarrow> placement \<Rightarrow> nat option" where
  "aAddress tile k kTiles nodeSize offset stride p =
    (case node_at (wp_aNodes p) tile of None \<Rightarrow> None
     | Some node \<Rightarrow> map_option (\<lambda>slot. u64 (node * nodeSize + offset + (slot * kTiles + k) * stride)) (aSlot tile p))"

definition bAddress :: "nat \<Rightarrow> nat \<Rightarrow> nat \<Rightarrow> nat \<Rightarrow> nat \<Rightarrow> nat \<Rightarrow> nat \<Rightarrow> placement \<Rightarrow> nat option" where
  "bAddress tile k kTiles cNode nodeSize offset stride p =
    (case (if wp_replicateB p then Some cNode else node_at (wp_bNodes p) tile) of None \<Rightarrow> None
     | Some node \<Rightarrow> map_option (\<lambda>slot. u64 (node * nodeSize + offset + (slot * kTiles + k) * stride)) (bSlot tile p))"

lemma slot_lt: "tile < length ns \<Longrightarrow> slot_in ns tile < count_if (\<lambda>n. n = ns ! tile) ns"
proof -
  assume t: "tile < length ns"
  have "ns = take tile ns @ ns ! tile # drop (Suc tile) ns" using t by (simp add: id_take_nth_drop)
  then have "count_if (\<lambda>n. n = ns ! tile) ns =
      count_if (\<lambda>n. n = ns ! tile) (take tile ns @ ns ! tile # drop (Suc tile) ns)" by simp
  then show ?thesis by (simp add: slot_in_def count_if_def)
qed

lemma slot_inj:
  assumes "s < t" "t < length ns" "ns ! s = ns ! t"
  shows "slot_in ns s < slot_in ns t"
proof -
  have "take t ns = take s ns @ ns ! s # drop (Suc s) (take t ns)"
    using id_take_nth_drop [of s "take t ns"] assms by (simp add: min_def)
  then have "count_if (\<lambda>n. n = ns ! t) (take t ns) =
      count_if (\<lambda>n. n = ns ! t) (take s ns @ ns ! s # drop (Suc s) (take t ns))" by simp
  then show ?thesis using assms(3) by (simp add: slot_in_def count_if_def)
qed

text \<open>The unwrapped block address, and why two blocks never overlap.\<close>

definition block_address :: "nat list \<Rightarrow> nat \<Rightarrow> nat \<Rightarrow> nat \<Rightarrow> nat \<Rightarrow> nat \<Rightarrow> nat \<Rightarrow> nat" where
  "block_address ns tile k kTiles nodeSize offset stride =
    ns ! tile * nodeSize + offset + (slot_in ns tile * kTiles + k) * stride"

lemma slot_index_lt:
  assumes "slot < (n :: nat)" "k < kTiles"
  shows "slot * kTiles + k < n * kTiles"
proof -
  have "slot * kTiles + k < Suc slot * kTiles" using assms(2) by simp
  also have "\<dots> \<le> n * kTiles" using assms(1) by (intro mult_le_mono1) simp
  finally show ?thesis .
qed

lemma block_in_node:
  assumes "tile < length ns" "k < kTiles"
    and cap: "offset + count_if (\<lambda>n. n = ns ! tile) ns * kTiles * stride \<le> nodeSize"
  shows "ns ! tile * nodeSize \<le> block_address ns tile k kTiles nodeSize offset stride \<and>
    block_address ns tile k kTiles nodeSize offset stride + stride \<le> (ns ! tile + 1) * nodeSize"
proof -
  have "slot_in ns tile * kTiles + k + 1 \<le> count_if (\<lambda>n. n = ns ! tile) ns * kTiles"
    using slot_index_lt [OF slot_lt [OF assms(1)] assms(2)] by simp
  then have "(slot_in ns tile * kTiles + k + 1) * stride \<le> count_if (\<lambda>n. n = ns ! tile) ns * kTiles * stride"
    by (rule mult_le_mono1)
  then show ?thesis using cap by (simp add: block_address_def algebra_simps)
qed

lemma blocks_disjoint:
  assumes t: "s < length ns" "t < length ns" and k: "j < kTiles" "k < kTiles" and ne: "(s, j) \<noteq> (t, k)"
    and cap: "\<forall>node \<in> set ns. offset + count_if (\<lambda>n. n = node) ns * kTiles * stride \<le> nodeSize"
  shows "block_address ns s j kTiles nodeSize offset stride + stride \<le> block_address ns t k kTiles nodeSize offset stride \<or>
    block_address ns t k kTiles nodeSize offset stride + stride \<le> block_address ns s j kTiles nodeSize offset stride"
proof -
  have inn: "ns ! u * nodeSize \<le> block_address ns u l kTiles nodeSize offset stride \<and>
      block_address ns u l kTiles nodeSize offset stride + stride \<le> (ns ! u + 1) * nodeSize"
    if "u < length ns" "l < kTiles" for u l
    using block_in_node [OF that] cap that(1) by simp
  have apart: "(x :: nat) * stride + stride \<le> y * stride" if "x < y" for x y
    using mult_le_mono1 [of "Suc x" y stride] that by simp
  consider "ns ! s < ns ! t" | "ns ! t < ns ! s" | "ns ! s = ns ! t" by linarith
  then show ?thesis
  proof cases
    case 1
    then have "(ns ! s + 1) * nodeSize \<le> ns ! t * nodeSize" by (intro mult_le_mono1) simp
    with inn [OF t(1) k(1)] inn [OF t(2) k(2)] show ?thesis by linarith
  next
    case 2
    then have "(ns ! t + 1) * nodeSize \<le> ns ! s * nodeSize" by (intro mult_le_mono1) simp
    with inn [OF t(1) k(1)] inn [OF t(2) k(2)] show ?thesis by linarith
  next
    case 3
    let ?x = "slot_in ns s * kTiles + j" and ?y = "slot_in ns t * kTiles + k"
    have sm: "a * kTiles + l < b * kTiles + m" if "a < b" "l < kTiles" for a b l m :: nat
      using slot_index_lt [OF that] by simp
    consider "s < t" | "t < s" | "s = t" "j \<noteq> k" using ne by force
    then have "?x \<noteq> ?y"
    proof cases
      case 1
      from sm [OF slot_inj [OF 1 t(2) 3] k(1), of k] show ?thesis by simp
    next
      case 2
      from sm [OF slot_inj [OF 2 t(1) 3 [symmetric]] k(2), of j] show ?thesis by simp
    qed simp
    then have "?x < ?y \<or> ?y < ?x" by linarith
    then have "?x * stride + stride \<le> ?y * stride \<or> ?y * stride + stride \<le> ?x * stride"
      using apart by blast
    then show ?thesis unfolding block_address_def 3 by linarith
  qed
qed

lemma placement_nodes:
  assumes "placement_valid physicalNodes mTiles nTiles macroTasks p"
  shows "length (wp_aNodes p) = mTiles" "length (wp_bNodes p) = nTiles" "length (wp_taskNodes p) = macroTasks"
    "set (wp_taskNodes p) \<union> set (wp_aNodes p) \<union> set (wp_bNodes p) \<subseteq> set (wp_dataNodes p)"
    "\<forall>n \<in> set (wp_dataNodes p). 1 \<le> n \<and> n \<le> physicalNodes" "distinct (wp_dataNodes p)"
proof -
  let ?s = "sort (wp_dataNodes p)"
  have ok: "wp_dataNodes p \<noteq> []" "hd ?s \<noteq> 0" "last ?s \<le> physicalNodes" "\<not> adjacent_equal ?s"
    "list_all (\<lambda>node. node \<in> set ?s) (wp_taskNodes p @ wp_aNodes p @ wp_bNodes p)"
    using assms by (auto simp: placement_valid_def Let_def split: if_splits)
  show "length (wp_aNodes p) = mTiles" "length (wp_bNodes p) = nTiles" "length (wp_taskNodes p) = macroTasks"
    using assms by (auto simp: placement_valid_def split: if_splits)
  show "set (wp_taskNodes p) \<union> set (wp_aNodes p) \<union> set (wp_bNodes p) \<subseteq> set (wp_dataNodes p)"
    using ok(5) by (auto simp: list_all_iff)
  have bounds: "hd xs \<le> n \<and> n \<le> last xs" if "sorted xs" "n \<in> set xs" for xs and n :: nat
    using that by (induction xs) (auto simp: last_ConsR)
  have "1 \<le> n \<and> n \<le> physicalNodes" if "n \<in> set (wp_dataNodes p)" for n
    using bounds [of ?s n] that ok(2,3) by auto
  then show "\<forall>n \<in> set (wp_dataNodes p). 1 \<le> n \<and> n \<le> physicalNodes" by blast
  have "sorted xs \<Longrightarrow> \<not> adjacent_equal xs \<Longrightarrow> distinct xs" for xs
    by (induction xs rule: adjacent_equal.induct) (auto simp: order.order_iff_strict)
  then have "distinct ?s" using ok(4) sorted_sort by blast
  then show "distinct (wp_dataNodes p)" by simp
qed


definition demo_placement :: placement where
  "demo_placement = \<lparr>wp_dataNodes = [2, 1], wp_taskNodes = [1], wp_aNodes = [1, 2, 1], wp_bNodes = [2],
     wp_replicateB = False\<rparr>"


end
