(* ===== verification/Pv_Wo_Handoff.thy ===== *)
theory Pv_Wo_Handoff
  imports Decoder_Layout
begin

text \<open>
  \<^verbatim>\<open>golem/attention/pvWoHandoff.h\<close>: PV producers (cores 12 to 19) send 8 KiB head blocks over the
  control network to the Wo workers (cores 4 to 19); a worker lands each block in its global
  memory with timed writes, acknowledges it, and hands the 32 landed heads of an epoch to Wo.

  The calls into the memory and the network are effects: \<open>tick\<close> returns the message it offers
  to \<open>sendControlMessage\<close> and the write it offers to \<open>localWriteAsync\<close>, and takes their answers
  as arguments; the write callback is the operation \<open>pw_writeDone\<close>. The ghost fields are the
  messages accepted in the current generation, the write in flight, and the landing memory, which
  \<open>pw_writeDone\<close> updates when the memory acknowledges the write.
\<close>

unbundle bit_operations_syntax

section \<open>State\<close>

datatype pw_kind = AttentionPvWoData | AttentionPvWoAck | OtherMessage

record pw_message =
  pm_kind :: pw_kind
  pm_jobId :: nat
  pm_tag :: nat
  pm_ownerCore :: nat
  pm_workerCore :: nat
  pm_workerSlot :: nat
  pm_outputAddr :: nat
  pm_inputAddr :: nat
  pm_groupQueryRowBegin :: nat
  pm_headDim :: nat
  pm_queryLength :: nat
  pm_kvLength :: nat
  pm_numQueryHeads :: nat
  pm_numKvHeads :: nat
  pm_row :: nat
  pm_kvHeadIndex :: nat
  pm_tensorPayload :: "byte list"
  pm_value :: int

definition empty_message :: pw_message where
  "empty_message = \<lparr>pm_kind = OtherMessage, pm_jobId = 0, pm_tag = 0, pm_ownerCore = 0,
     pm_workerCore = 0, pm_workerSlot = 0, pm_outputAddr = 0, pm_inputAddr = 0,
     pm_groupQueryRowBegin = 0, pm_headDim = 0, pm_queryLength = 0, pm_kvLength = 0,
     pm_numQueryHeads = 0, pm_numKvHeads = 0, pm_row = 0, pm_kvHeadIndex = 0,
     pm_tensorPayload = [], pm_value = 0\<rparr>"

type_synonym pw_key = "nat \<times> nat \<times> nat"

record pv_wo =
  pw_core :: nat
  pw_base :: nat
  pw_maxRequest :: nat
  pw_tag :: nat
  pw_consumedEpoch :: nat
  pw_received :: "32 word"
  pw_landed :: "32 word"
  pw_landingPending :: bool
  pw_leased :: bool
  pw_pending :: "(pw_key \<times> nat) list"
  pw_incoming :: "(pw_message \<times> nat) list"
  pw_outgoing :: "(nat \<times> pw_message) list"
  pw_log :: "pw_message list"
  pw_mem :: "nat \<Rightarrow> byte"
  pw_inflight :: "(nat \<times> byte list) option"

definition payloadBytes :: nat where "payloadBytes = 8192"
definition headBlockBytes :: nat where "headBlockBytes = 64 * 64 * 2"
definition workerTileBytes :: nat where "workerTileBytes = 64 * 2048 * 2"

definition pw_make :: "nat \<Rightarrow> nat \<Rightarrow> nat \<Rightarrow> nat \<Rightarrow> (nat \<Rightarrow> byte) \<Rightarrow> golem_error + pv_wo" where
  "pw_make gmSize base maxRequest coreId mem =
    (if coreId < 4 \<or> coreId \<ge> 20 \<or> gmSize < decoder_pv_wo_landing_gm + workerTileBytes \<or> maxRequest = 0
     then Inl (InvalidArgument ''PV-Wo handoff worker or GM capacity'')
     else Inr \<lparr>pw_core = coreId, pw_base = base, pw_maxRequest = maxRequest, pw_tag = 0,
       pw_consumedEpoch = 0, pw_received = 0, pw_landed = 0, pw_landingPending = False,
       pw_leased = False, pw_pending = [], pw_incoming = [], pw_outgoing = [], pw_log = [],
       pw_mem = mem, pw_inflight = None\<rparr>)"

definition pw_accepts :: "pw_kind \<Rightarrow> bool" where
  "pw_accepts kind \<longleftrightarrow> kind = AttentionPvWoData \<or> kind = AttentionPvWoAck"

section \<open>Operations\<close>

definition pw_enqueue :: "nat \<Rightarrow> pw_message \<Rightarrow> pv_wo \<Rightarrow> golem_error + pv_wo" where
  "pw_enqueue target m s =
    (if length (pw_outgoing s) \<ge> 16 then Inl (LogicError ''PV-Wo outgoing queue overflow'')
     else Inr (s\<lparr>pw_outgoing := pw_outgoing s @ [(target, m)]\<rparr>))"

definition pw_generation_base :: nat where "pw_generation_base = 0xD1000401"

definition dispatch_refused :: "pw_message \<Rightarrow> byte list \<Rightarrow> bool \<Rightarrow> pv_wo \<Rightarrow> bool" where
  "dispatch_refused source bytes hasDone s \<longleftrightarrow>
     pw_core s < 12 \<or> pw_pending s \<noteq> [] \<or> \<not> hasDone \<or> length bytes \<noteq> headBlockBytes \<or>
     pm_headDim source \<noteq> 64 \<or> pm_queryLength source \<noteq> 256 \<or> pm_kvLength source \<noteq> 1024 \<or>
     pm_numQueryHeads source \<noteq> 32 \<or> pm_numKvHeads source \<noteq> 8 \<or>
     pm_groupQueryRowBegin source mod 64 \<noteq> 0 \<or> pm_row source div 1024 > 3 \<or>
     pm_kvHeadIndex source \<ge> 8 \<or> pm_jobId source div 2 ^ 32 \<noteq> pm_kvHeadIndex source"

definition generation_refused :: "nat \<Rightarrow> bool" where
  "generation_refused g \<longleftrightarrow>
     g < pw_generation_base \<or> (g - pw_generation_base) mod 65536 \<noteq> 0 \<or>
     (g - pw_generation_base) div 65536 \<ge> 32"

definition local_begin :: "pw_message \<Rightarrow> nat" where
  "local_begin source =
    u32 (pm_row source - (pm_row source div 1024) * 1024 + pm_groupQueryRowBegin source)"

definition rows_refused :: "nat \<Rightarrow> bool" where
  "rows_refused localBegin \<longleftrightarrow>
     u32 (localBegin + 64) > 1024 \<or> localBegin div 256 \<noteq> u32 (localBegin + 63) div 256"

definition route_head :: "pw_message \<Rightarrow> nat" where
  "route_head source = pm_kvHeadIndex source * 4 + local_begin source div 256"

definition route_target :: "pw_message \<Rightarrow> nat" where
  "route_target source = 4 + pm_row source div 1024 + 4 * (local_begin source mod 256 div 64)"

definition data_message :: "pw_message \<Rightarrow> byte list \<Rightarrow> pv_wo \<Rightarrow> pw_message" where
  "data_message source bytes s = empty_message\<lparr>pm_kind := AttentionPvWoData,
     pm_jobId := pm_jobId source, pm_tag := pm_tag source, pm_ownerCore := pw_core s,
     pm_workerCore := route_target source, pm_workerSlot := route_head source,
     pm_outputAddr := pm_row source div 1024,
     pm_inputAddr := (u32 (pm_jobId source) - pw_generation_base) div 65536 + 1,
     pm_groupQueryRowBegin := pm_groupQueryRowBegin source, pm_headDim := 64,
     pm_queryLength := 256, pm_tensorPayload := bytes\<rparr>"

definition pw_dispatch :: "pw_message \<Rightarrow> byte list \<Rightarrow> bool \<Rightarrow> pv_wo \<Rightarrow> golem_error + (bool \<times> pv_wo)" where
  "pw_dispatch source bytes hasDone s =
    (if dispatch_refused source bytes hasDone s then Inr (False, s)
     else if generation_refused (u32 (pm_jobId source)) then Inr (False, s)
     else if rows_refused (local_begin source) then Inr (False, s)
     else
       let key = (pm_jobId source, pm_tag source, pm_groupQueryRowBegin source);
           s1 = s\<lparr>pw_pending := [(key, route_target source)]\<rparr>
       in case pw_enqueue (route_target source) (data_message source bytes s) s1 of
            Inl e \<Rightarrow> Inl e
          | Inr s2 \<Rightarrow> Inr (True, s2))"

definition pw_key_of :: "pw_message \<Rightarrow> pw_key" where
  "pw_key_of m = (pm_jobId m, pm_tag m, pm_groupQueryRowBegin m)"

definition slot_bit :: "nat \<Rightarrow> 32 word" where
  "slot_bit slot = push_bit slot 1"

definition data_refused :: "pw_message \<Rightarrow> pv_wo \<Rightarrow> bool" where
  "data_refused m s \<longleftrightarrow>
     pw_leased s \<or> pm_kind m \<noteq> AttentionPvWoData \<or> pm_workerCore m \<noteq> pw_core s \<or>
     pm_ownerCore m < 12 \<or> pm_ownerCore m \<ge> 20 \<or> pm_workerSlot m \<ge> 32 \<or>
     length (pm_tensorPayload m) \<noteq> payloadBytes \<or> pm_queryLength m \<noteq> 256 \<or> pm_headDim m \<noteq> 64 \<or>
     pm_outputAddr m \<noteq> (pw_core s - 4) mod 4 \<or>
     pm_inputAddr m \<noteq> u32 (pw_consumedEpoch s + 1) \<or> length (pw_incoming s) \<ge> 8"

text \<open>\<open>receive\<close>: the first result lists the keys whose \<open>done(true)\<close> callback is called.\<close>

definition pw_receive :: "pw_message \<Rightarrow> pv_wo \<Rightarrow> golem_error + (pw_key list \<times> pv_wo)" where
  "pw_receive m s =
    (if pm_kind m = AttentionPvWoAck then
       (case map_of (pw_pending s) (pw_key_of m) of
          None \<Rightarrow> Inl (LogicError ''invalid PV-Wo landing ACK'')
        | Some target \<Rightarrow>
            if pm_ownerCore m \<noteq> pw_core s \<or> pm_workerCore m \<noteq> target \<or> pm_value m \<noteq> 1
            then Inl (LogicError ''invalid PV-Wo landing ACK'')
            else Inr ([pw_key_of m], s\<lparr>pw_pending := filter (\<lambda>e. fst e \<noteq> pw_key_of m) (pw_pending s)\<rparr>))
     else if data_refused m s then
       Inl (LogicError ''invalid PV-Wo data payload, generation or queue bound'')
     else if pw_received s AND slot_bit (pm_workerSlot m) \<noteq> 0 then
       Inl (LogicError ''duplicate PV-Wo head landing'')
     else Inr ([], s\<lparr>pw_received := pw_received s OR slot_bit (pm_workerSlot m),
                     pw_incoming := pw_incoming s @ [(m, 0)], pw_log := pw_log s @ [m]\<rparr>))"

definition pw_ready :: "nat \<Rightarrow> nat \<Rightarrow> nat \<Rightarrow> pv_wo \<Rightarrow> bool" where
  "pw_ready epoch manager lane s \<longleftrightarrow>
     \<not> pw_leased s \<and> epoch = u32 (pw_consumedEpoch s + 1) \<and> pw_core s = u32 (4 + manager + u32 (4 * lane)) \<and>
     pw_received s = - 1 \<and> pw_landed s = - 1 \<and> \<not> pw_landingPending s \<and> pw_incoming s = []"

definition retireGeneration :: "pv_wo \<Rightarrow> pv_wo" where
  "retireGeneration s = s\<lparr>pw_consumedEpoch := u32 (pw_consumedEpoch s + 1), pw_received := 0,
     pw_landed := 0, pw_log := []\<rparr>"

definition pw_consume :: "nat \<Rightarrow> nat \<Rightarrow> nat \<Rightarrow> pv_wo \<Rightarrow> bool \<times> pv_wo" where
  "pw_consume epoch manager lane s =
    (if \<not> pw_ready epoch manager lane s then (False, s) else (True, retireGeneration s))"

definition pw_acquire :: "nat \<Rightarrow> nat \<Rightarrow> nat \<Rightarrow> pv_wo \<Rightarrow> bool \<times> pv_wo" where
  "pw_acquire epoch manager lane s =
    (if \<not> pw_ready epoch manager lane s then (False, s) else (True, s\<lparr>pw_leased := True\<rparr>))"

definition pw_release :: "nat \<Rightarrow> nat \<Rightarrow> nat \<Rightarrow> pv_wo \<Rightarrow> bool \<times> pv_wo" where
  "pw_release epoch manager lane s =
    (if \<not> pw_leased s \<or> epoch \<noteq> u32 (pw_consumedEpoch s + 1) \<or>
        pw_core s \<noteq> u32 (4 + manager + u32 (4 * lane)) then (False, s)
     else (True, retireGeneration (s\<lparr>pw_leased := False\<rparr>)))"

datatype pw_effect = PwSend nat pw_message | PwWrite nat "byte list" nat | PwDone pw_key

text \<open>\<open>pumpOutgoing\<close>; \<open>sendOk\<close> is the answer of \<open>sendControlMessage\<close>.\<close>

definition pumpOutgoing :: "bool \<Rightarrow> pv_wo \<Rightarrow> golem_error + (pw_effect list \<times> pv_wo)" where
  "pumpOutgoing sendOk s =
    (case pw_outgoing s of
       [] \<Rightarrow> Inr ([], s)
     | (target, m) # rest \<Rightarrow>
         if target = pw_core s then
           (case pw_receive m (s\<lparr>pw_outgoing := rest\<rparr>) of
              Inl e \<Rightarrow> Inl e | Inr (ks, s') \<Rightarrow> Inr (map PwDone ks, s'))
         else Inr ([PwSend target m], if sendOk then s\<lparr>pw_outgoing := rest\<rparr> else s))"

definition landing_address :: "pw_message \<Rightarrow> nat \<Rightarrow> pv_wo \<Rightarrow> nat" where
  "landing_address m offset s =
    pw_base s + decoder_pv_wo_landing_gm + pm_workerSlot m * payloadBytes + offset"

text \<open>\<open>tick\<close>; \<open>writeOk\<close> is the answer of \<open>localWriteAsync\<close>. The tag is incremented in any case.\<close>

definition pw_tick :: "bool \<Rightarrow> bool \<Rightarrow> pv_wo \<Rightarrow> golem_error + (pw_effect list \<times> pv_wo)" where
  "pw_tick sendOk writeOk s =
    (case pumpOutgoing sendOk s of
       Inl e \<Rightarrow> Inl e
     | Inr (effects, s1) \<Rightarrow>
         if pw_landingPending s1 then Inr (effects, s1)
         else (case pw_incoming s1 of
             [] \<Rightarrow> Inr (effects, s1)
           | (m, offset) # _ \<Rightarrow>
               let len = min (pw_maxRequest s1) (payloadBytes - offset);
                   address = landing_address m offset s1;
                   bytes = range_of (pm_tensorPayload m) offset len
               in Inr (effects @ [PwWrite address bytes (pw_tag s1 + 1)],
                    s1\<lparr>pw_tag := pw_tag s1 + 1, pw_landingPending := writeOk,
                       pw_inflight := (if writeOk then Some (address, bytes) else None)\<rparr>)))"

definition ack_message :: "pw_message \<Rightarrow> pv_wo \<Rightarrow> pw_message" where
  "ack_message m s = empty_message\<lparr>pm_kind := AttentionPvWoAck, pm_jobId := pm_jobId m, pm_tag := pm_tag m,
     pm_ownerCore := pm_ownerCore m, pm_workerCore := pw_core s,
     pm_groupQueryRowBegin := pm_groupQueryRowBegin m, pm_value := 1\<rparr>"

definition write_mem :: "nat \<Rightarrow> byte list \<Rightarrow> (nat \<Rightarrow> byte) \<Rightarrow> (nat \<Rightarrow> byte)" where
  "write_mem address bytes mem =
    (\<lambda>a. if address \<le> a \<and> a < address + length bytes then bytes ! (a - address) else mem a)"

text \<open>The write callback with its \<open>ok\<close> flag; the captured length is that of the write in flight.\<close>

definition pw_writeDone :: "bool \<Rightarrow> pv_wo \<Rightarrow> golem_error + pv_wo" where
  "pw_writeDone ok s =
    (case pw_inflight s of
       None \<Rightarrow> Inr s
     | Some (address, bytes) \<Rightarrow>
         let s1 = s\<lparr>pw_landingPending := False, pw_inflight := None,
                    pw_mem := (if ok then write_mem address bytes (pw_mem s) else pw_mem s)\<rparr>
         in if \<not> ok then Inl (RuntimeError ''PV-Wo GM landing failed'')
            else case pw_incoming s1 of
              [] \<Rightarrow> Inl (RuntimeError ''PV-Wo GM landing failed'')
            | (m, offset) # rest \<Rightarrow>
                let offset' = offset + length bytes
                in if offset' \<noteq> payloadBytes then Inr (s1\<lparr>pw_incoming := (m, offset') # rest\<rparr>)
                   else (case pw_enqueue (pm_ownerCore m) (ack_message m s1)
                           (s1\<lparr>pw_landed := pw_landed s1 OR slot_bit (pm_workerSlot m)\<rparr>) of
                           Inl e \<Rightarrow> Inl e
                         | Inr s2 \<Rightarrow> Inr (s2\<lparr>pw_incoming := rest\<rparr>)))"

section \<open>Invariant of a worker\<close>

definition slots :: "pw_message list \<Rightarrow> nat list" where
  "slots ms = map pm_workerSlot ms"

definition landed_log :: "pv_wo \<Rightarrow> pw_message list" where
  "landed_log s = take (length (pw_log s) - length (pw_incoming s)) (pw_log s)"

definition holds :: "pv_wo \<Rightarrow> pw_message \<Rightarrow> nat \<Rightarrow> bool" where
  "holds s m n \<longleftrightarrow> (\<forall>i < n. pw_mem s (landing_address m i s) = pm_tensorPayload m ! i)"

definition msg_ok :: "pv_wo \<Rightarrow> pw_message \<Rightarrow> bool" where
  "msg_ok s m \<longleftrightarrow> pm_workerSlot m < 32 \<and> length (pm_tensorPayload m) = payloadBytes \<and>
     pm_inputAddr m = u32 (pw_consumedEpoch s + 1) \<and> pm_workerCore m = pw_core s"

definition next_write :: "pv_wo \<Rightarrow> (nat \<times> byte list) option" where
  "next_write s = (case pw_incoming s of [] \<Rightarrow> None
     | (m, off) # _ \<Rightarrow> Some (landing_address m off s,
         range_of (pm_tensorPayload m) off (min (pw_maxRequest s) (payloadBytes - off))))"

definition pw_inv :: "pv_wo \<Rightarrow> bool" where
  "pw_inv s \<longleftrightarrow> 0 < pw_maxRequest s \<and> 4 \<le> pw_core s \<and> pw_core s < 20 \<and>
     length (pw_incoming s) \<le> 8 \<and> length (pw_incoming s) \<le> length (pw_log s) \<and>
     map fst (pw_incoming s) = drop (length (pw_log s) - length (pw_incoming s)) (pw_log s) \<and>
     distinct (slots (pw_log s)) \<and> (\<forall>m \<in> set (pw_log s). msg_ok s m) \<and>
     (\<forall>n < 32. bit (pw_received s) n \<longleftrightarrow> n \<in> set (slots (pw_log s))) \<and>
     (\<forall>n < 32. bit (pw_landed s) n \<longleftrightarrow> n \<in> set (slots (landed_log s))) \<and>
     (\<forall>m \<in> set (landed_log s). holds s m payloadBytes) \<and>
     (case pw_incoming s of [] \<Rightarrow> True | (m, off) # rest \<Rightarrow> off < payloadBytes \<and> holds s m off \<and> (\<forall>x \<in> set rest. snd x = 0)) \<and>
     (pw_inflight s \<noteq> None \<longleftrightarrow> pw_landingPending s) \<and>
     (pw_landingPending s \<longrightarrow> pw_incoming s \<noteq> [] \<and> pw_inflight s = next_write s) \<and>
     (pw_leased s \<longrightarrow> pw_incoming s = [])"

lemma pw_make_inv: "pw_make gmSize base maxRequest coreId mem = Inr s \<Longrightarrow> pw_inv s"
  by (auto simp: pw_make_def pw_inv_def slots_def landed_log_def split: if_splits)

lemma bit_slot_bit: "n < 32 \<Longrightarrow> slot < 32 \<Longrightarrow> bit (slot_bit slot) n \<longleftrightarrow> n = slot"
  by (auto simp: slot_bit_def bit_simps)

lemma and_slot_bit:
  assumes "slot < 32"
  shows "w AND slot_bit slot = 0 \<longleftrightarrow> \<not> bit w slot"
proof
  assume "w AND slot_bit slot = 0"
  then have "\<not> bit (w AND slot_bit slot) slot" by simp
  then show "\<not> bit w slot" using assms bit_slot_bit [of slot slot] by (simp add: bit_and_iff)
next
  assume b: "\<not> bit w slot"
  show "w AND slot_bit slot = 0"
  proof (rule bit_eqI)
    fix n assume "possible_bit TYPE(32 word) n"
    then show "bit (w AND slot_bit slot) n = bit 0 n"
      using b assms bit_slot_bit [of n slot] by (auto simp: bit_and_iff)
  qed
qed

text \<open>The fields that the invariant reads.\<close>

lemma pw_inv_frame:
  assumes "pw_inv s" "pw_core s' = pw_core s" "pw_base s' = pw_base s" "pw_maxRequest s' = pw_maxRequest s"
    "pw_consumedEpoch s' = pw_consumedEpoch s" "pw_received s' = pw_received s" "pw_landed s' = pw_landed s"
    "pw_landingPending s' = pw_landingPending s" "pw_leased s' = pw_leased s" "pw_incoming s' = pw_incoming s"
    "pw_log s' = pw_log s" "pw_mem s' = pw_mem s" "pw_inflight s' = pw_inflight s"
  shows "pw_inv s'"
  using assms
  by (auto simp: pw_inv_def landed_log_def holds_def msg_ok_def next_write_def landing_address_def
      split: list.splits)

lemma receive_data_inv:
  assumes inv: "pw_inv s" and ok: "\<not> data_refused m s" and fresh: "pw_received s AND slot_bit (pm_workerSlot m) = 0"
    and s': "s' = s\<lparr>pw_received := pw_received s OR slot_bit (pm_workerSlot m),
                     pw_incoming := pw_incoming s @ [(m, 0)], pw_log := pw_log s @ [m]\<rparr>"
  shows "pw_inv s'"
proof -
  let ?k = "length (pw_log s) - length (pw_incoming s)"
  have m: "pm_workerSlot m < 32" "length (pm_tensorPayload m) = payloadBytes"
      "pm_inputAddr m = u32 (pw_consumedEpoch s + 1)" "pm_workerCore m = pw_core s"
      "length (pw_incoming s) < 8" "\<not> pw_leased s"
    using ok by (auto simp: data_refused_def)
  have nb: "\<not> bit (pw_received s) (pm_workerSlot m)" using fresh and_slot_bit [OF m(1)] by simp
  have le: "length (pw_incoming s) \<le> length (pw_log s)"
    and sl: "map fst (pw_incoming s) = drop ?k (pw_log s)" using inv by (auto simp: pw_inv_def)
  have land: "landed_log s' = landed_log s" using le by (simp add: landed_log_def s')
  have k': "length (pw_log s') - length (pw_incoming s') = ?k" by (simp add: s')
  have addr: "landing_address x i s' = landing_address x i s" for x i by (simp add: landing_address_def s')
  have hold: "holds s' x n = holds s x n" for x n by (simp add: holds_def addr) (simp add: s')
  have "pm_workerSlot m \<notin> set (slots (pw_log s))" using inv nb m(1) by (auto simp: pw_inv_def)
  then have d: "distinct (slots (pw_log s'))" using inv by (auto simp: pw_inv_def slots_def s')
  have bits: "\<forall>n < 32. bit (pw_received s') n \<longleftrightarrow> n \<in> set (slots (pw_log s'))"
    using inv m(1) by (auto simp: pw_inv_def slots_def s' bit_or_iff bit_slot_bit)
  have inc: "case pw_incoming s' of [] \<Rightarrow> True
      | (x, off) # rest \<Rightarrow> off < payloadBytes \<and> holds s' x off \<and> (\<forall>y \<in> set rest. snd y = 0)"
    using inv unfolding hold by (cases "pw_incoming s") (auto simp: pw_inv_def s' holds_def payloadBytes_def)
  have nw: "next_write s' = next_write s" if "pw_incoming s \<noteq> []"
    using that unfolding next_write_def addr by (cases "pw_incoming s") (auto simp: s')
  have ms: "\<forall>x \<in> set (pw_log s'). msg_ok s' x" using inv m by (auto simp: pw_inv_def msg_ok_def s')
  have incoming: "map fst (pw_incoming s') = drop (length (pw_log s') - length (pw_incoming s')) (pw_log s')"
    unfolding k' using sl le by (simp add: s')
  show ?thesis
    unfolding pw_inv_def
  proof (intro conjI)
    show "\<forall>n < 32. bit (pw_landed s') n \<longleftrightarrow> n \<in> set (slots (landed_log s'))"
      "\<forall>x \<in> set (landed_log s'). holds s' x payloadBytes"
      using inv unfolding land hold by (auto simp: pw_inv_def s')
    show "pw_landingPending s' \<longrightarrow> pw_incoming s' \<noteq> [] \<and> pw_inflight s' = next_write s'"
      using inv nw by (auto simp: pw_inv_def s')
  qed (use inv d bits inc ms incoming m(5,6) in \<open>auto simp: pw_inv_def s'\<close>)
qed

text \<open>A write into one head's block leaves the blocks of other heads alone.\<close>

lemma landing_apart:
  assumes "pm_workerSlot m \<noteq> pm_workerSlot x" "i < payloadBytes" "off + n \<le> payloadBytes"
  shows "\<not> (landing_address m off s \<le> landing_address x i s \<and> landing_address x i s < landing_address m off s + n)"
proof -
  consider "pm_workerSlot x < pm_workerSlot m" | "pm_workerSlot m < pm_workerSlot x" using assms(1) by linarith
  then show ?thesis
  proof cases
    case 1
    then have "Suc (pm_workerSlot x) * payloadBytes \<le> pm_workerSlot m * payloadBytes" by (intro mult_le_mono1) simp
    then show ?thesis using assms(2) by (simp add: landing_address_def)
  next
    case 2
    then have "Suc (pm_workerSlot m) * payloadBytes \<le> pm_workerSlot x * payloadBytes" by (intro mult_le_mono1) simp
    then show ?thesis using assms(3) by (simp add: landing_address_def)
  qed
qed

lemma writeDone_inv:
  assumes inv: "pw_inv s" and step: "pw_writeDone ok s = Inr s'"
  shows "pw_inv s'"
proof (cases "pw_inflight s")
  case None
  then show ?thesis using step inv by (simp add: pw_writeDone_def)
next
  case (Some w)
  obtain address bytes where w: "w = (address, bytes)" by (cases w)
  have pend: "pw_landingPending s" "pw_incoming s \<noteq> []" "pw_inflight s = next_write s" "\<not> pw_leased s"
    using inv Some by (auto simp: pw_inv_def)
  obtain m off rest where inc: "pw_incoming s = (m, off) # rest" using pend(2) by (metis list.exhaust prod.exhaust)
  let ?n = "min (pw_maxRequest s) (payloadBytes - off)"
  have off: "off < payloadBytes" "holds s m off" "\<forall>x \<in> set rest. snd x = 0" using inv inc by (auto simp: pw_inv_def)
  let ?k = "length (pw_log s) - length (pw_incoming s)"
  have le: "length (pw_incoming s) \<le> length (pw_log s)" and sl: "map fst (pw_incoming s) = drop ?k (pw_log s)"
    using inv by (auto simp: pw_inv_def)
  have k: "?k < length (pw_log s)" using le inc by (cases "pw_log s") auto
  have "hd (drop ?k (pw_log s)) = m" unfolding sl [symmetric] by (simp add: inc)
  then have ml: "m = pw_log s ! ?k" "?k < length (pw_log s)" using hd_drop_conv_nth [OF k] k by auto
  then have mmem: "m \<in> set (pw_log s)" by simp
  have msg: "msg_ok s m" using inv mmem by (simp add: pw_inv_def)
  have len: "length bytes = ?n" and bytes: "bytes = range_of (pm_tensorPayload m) off ?n" "address = landing_address m off s"
    using pend(3) Some w inc msg off(1) by (auto simp: next_write_def msg_ok_def)
  have pos: "0 < ?n" "off + ?n \<le> payloadBytes" using inv off(1) by (auto simp: pw_inv_def)
  define s1 where "s1 = s\<lparr>pw_landingPending := False, pw_inflight := None, pw_mem := write_mem address bytes (pw_mem s)\<rparr>"
  have addr: "landing_address x i s1 = landing_address x i s" for x i by (simp add: landing_address_def s1_def)
  have hold_new: "holds s1 m (off + ?n)"
    unfolding holds_def addr
  proof (intro allI impI)
    fix i assume i: "i < off + ?n"
    show "pw_mem s1 (landing_address m i s) = pm_tensorPayload m ! i"
    proof (cases "i < off")
      case True
      then have "\<not> address \<le> landing_address m i s" by (simp add: bytes(2) landing_address_def)
      with True off(2) show ?thesis by (simp add: s1_def write_mem_def holds_def)
    next
      case False
      then have "landing_address m i s - address = i - off" "address \<le> landing_address m i s"
        "landing_address m i s < address + length bytes" using i len by (auto simp: bytes(2) landing_address_def)
      moreover have "bytes ! (i - off) = pm_tensorPayload m ! i"
      proof -
        have "i - off < ?n" "off + (i - off) < length (pm_tensorPayload m)" "off + (i - off) = i"
          using False i pos(2) msg unfolding msg_ok_def by linarith+
        then show ?thesis unfolding bytes(1) using nth_range_of by metis
      qed
      ultimately show ?thesis by (simp add: s1_def write_mem_def)
    qed
  qed
  have hold_old: "holds s1 x payloadBytes" if x: "x \<in> set (landed_log s)" for x
  proof -
    obtain j where j: "j < ?k" "x = pw_log s ! j" using x by (auto simp: landed_log_def in_set_conv_nth)
    have "distinct (slots (pw_log s))" using inv by (simp add: pw_inv_def)
    then have ne: "pm_workerSlot m \<noteq> pm_workerSlot x"
      using j ml by (auto simp: slots_def distinct_conv_nth)
    have "holds s x payloadBytes" using inv x by (simp add: pw_inv_def)
    then show ?thesis
      using landing_apart [OF ne _ pos(2)] len unfolding holds_def addr
      by (auto simp: s1_def write_mem_def bytes(2))
  qed
  have fr: "pw_core s1 = pw_core s" "pw_maxRequest s1 = pw_maxRequest s" "pw_consumedEpoch s1 = pw_consumedEpoch s"
    "pw_received s1 = pw_received s" "pw_landed s1 = pw_landed s" "\<not> pw_landingPending s1" "pw_leased s1 = pw_leased s"
    "pw_incoming s1 = pw_incoming s" "pw_log s1 = pw_log s" "pw_inflight s1 = None" "pw_outgoing s1 = pw_outgoing s"
    by (auto simp: s1_def pend)
  have rest_holds: "case rest of [] \<Rightarrow> True | (x, f) # r \<Rightarrow> f < payloadBytes \<and> holds t x f \<and> (\<forall>y \<in> set r. snd y = 0)" for t
    using off(3) by (auto simp: holds_def payloadBytes_def split: list.splits)
  show ?thesis
  proof (cases "off + length bytes = payloadBytes")
    case False
    then have s': "s' = s1\<lparr>pw_incoming := (m, off + ?n) # rest\<rparr>"
      using step Some w inc len fr(8) by (auto simp: pw_writeDone_def Let_def s1_def split: if_splits)
    have h: "holds s' x n = holds s1 x n" for x n by (simp add: holds_def s' landing_address_def)
    have l: "landed_log s' = landed_log s" by (simp add: landed_log_def s' fr inc)
    show ?thesis
      unfolding pw_inv_def
    proof (intro conjI)
      show "\<forall>x \<in> set (landed_log s'). holds s' x payloadBytes" unfolding l h using hold_old by blast
      show "\<forall>n < 32. bit (pw_landed s') n \<longleftrightarrow> n \<in> set (slots (landed_log s'))"
        unfolding l using inv by (simp add: pw_inv_def s' fr)
      show "case pw_incoming s' of [] \<Rightarrow> True | (m, off) # rest \<Rightarrow>
          off < payloadBytes \<and> holds s' m off \<and> (\<forall>x \<in> set rest. snd x = 0)"
        unfolding h using hold_new False pos(2) len off(3) by (simp add: s')
    qed (use inv inc sl in \<open>auto simp: pw_inv_def s' fr msg_ok_def\<close>)
  next
    case True
    have s': "s' = s1\<lparr>pw_landed := pw_landed s OR slot_bit (pm_workerSlot m),
        pw_outgoing := pw_outgoing s @ [(pm_ownerCore m, ack_message m s1)], pw_incoming := rest\<rparr>"
      using step Some w inc len True fr
      by (auto simp: pw_writeDone_def Let_def s1_def [symmetric] pw_enqueue_def ack_message_def split: if_splits sum.splits)
    have h: "holds s' x n = holds s1 x n" for x n by (simp add: holds_def s' landing_address_def)
    have l: "landed_log s' = landed_log s @ [m]"
    proof -
      have "length (pw_log s) - length rest = Suc ?k" using le inc by simp
      then show ?thesis using ml by (simp add: landed_log_def s' fr take_Suc_conv_app_nth)
    qed
    have slm: "pm_workerSlot m < 32" using msg by (simp add: msg_ok_def)
    have "off + ?n = payloadBytes" using True len by simp
    show ?thesis
      unfolding pw_inv_def
    proof (intro conjI)
      show "\<forall>x \<in> set (landed_log s'). holds s' x payloadBytes"
        unfolding l h using hold_old hold_new \<open>off + ?n = payloadBytes\<close> by auto
      show "\<forall>n < 32. bit (pw_landed s') n \<longleftrightarrow> n \<in> set (slots (landed_log s'))"
        unfolding l using inv slm by (auto simp: pw_inv_def s' slots_def bit_or_iff bit_slot_bit)
      show "case pw_incoming s' of [] \<Rightarrow> True | (m, off) # rest \<Rightarrow>
          off < payloadBytes \<and> holds s' m off \<and> (\<forall>x \<in> set rest. snd x = 0)"
        using rest_holds [of s'] by (simp add: s')
      show "map fst (pw_incoming s') = drop (length (pw_log s') - length (pw_incoming s')) (pw_log s')"
      proof -
        have "length (pw_log s) - length rest = Suc ?k" using le inc by simp
        moreover have "map fst rest = tl (drop ?k (pw_log s))" using sl inc by (metis list.sel(3) list.simps(9))
        ultimately show ?thesis by (simp add: s' fr drop_Suc tl_drop)
      qed
    qed (use inv inc in \<open>auto simp: pw_inv_def s' fr msg_ok_def\<close>)
  qed
qed

lemma receive_inv:
  assumes inv: "pw_inv s" and step: "pw_receive m s = Inr (ks, s')"
  shows "pw_inv s'"
proof (cases "pm_kind m = AttentionPvWoAck")
  case True
  then obtain ps where "s' = s\<lparr>pw_pending := ps\<rparr>"
    using step by (auto simp: pw_receive_def split: option.splits if_splits)
  then show ?thesis using pw_inv_frame [OF inv, of s'] by simp
next
  case False
  then have "\<not> data_refused m s" "pw_received s AND slot_bit (pm_workerSlot m) = 0"
    "s' = s\<lparr>pw_received := pw_received s OR slot_bit (pm_workerSlot m),
                     pw_incoming := pw_incoming s @ [(m, 0)], pw_log := pw_log s @ [m]\<rparr>"
    using step by (auto simp: pw_receive_def split: if_splits)
  then show ?thesis by (rule receive_data_inv [OF inv])
qed

lemma pump_inv:
  assumes inv: "pw_inv s" and step: "pumpOutgoing sendOk s = Inr (es, s')"
  shows "pw_inv s'"
proof (cases "pw_outgoing s")
  case Nil
  then show ?thesis using step inv by (simp add: pumpOutgoing_def)
next
  case (Cons x rest)
  obtain target m where x: "x = (target, m)" by (cases x)
  have upd: "pw_inv (s\<lparr>pw_outgoing := r\<rparr>)" for r using pw_inv_frame [OF inv, of "s\<lparr>pw_outgoing := r\<rparr>"] by simp
  show ?thesis
  proof (cases "target = pw_core s")
    case True
    then obtain ks where "pw_receive m (s\<lparr>pw_outgoing := rest\<rparr>) = Inr (ks, s')"
      using step Cons x by (auto simp: pumpOutgoing_def split: sum.splits)
    then show ?thesis by (rule receive_inv [OF upd])
  next
    case False
    then show ?thesis using step Cons x inv upd [of rest] by (auto simp: pumpOutgoing_def split: if_splits)
  qed
qed

lemma tick_inv:
  assumes inv: "pw_inv s" and step: "pw_tick sendOk writeOk s = Inr (es, s')"
  shows "pw_inv s'"
proof -
  obtain es1 s1 where p: "pumpOutgoing sendOk s = Inr (es1, s1)"
    using step by (auto simp: pw_tick_def split: sum.splits)
  have inv1: "pw_inv s1" by (rule pump_inv [OF inv p])
  show ?thesis
  proof (cases "pw_landingPending s1 \<or> pw_incoming s1 = []")
    case True
    then show ?thesis using step p inv1 by (auto simp: pw_tick_def split: if_splits)
  next
    case False
    then obtain m off rest where inc: "pw_incoming s1 = (m, off) # rest"
      by (metis list.exhaust prod.exhaust)
    have s': "s' = s1\<lparr>pw_tag := pw_tag s1 + 1, pw_landingPending := writeOk,
        pw_inflight := (if writeOk then next_write s1 else None)\<rparr>"
      using step p False inc by (auto simp: pw_tick_def Let_def next_write_def)
    have addr: "landing_address x i s' = landing_address x i s1" for x i by (simp add: s' landing_address_def)
    have fr: "pw_incoming s' = pw_incoming s1" "pw_maxRequest s' = pw_maxRequest s1" "pw_mem s' = pw_mem s1"
      "pw_log s' = pw_log s1" "pw_consumedEpoch s' = pw_consumedEpoch s1" "pw_core s' = pw_core s1" by (simp_all add: s')
    have h: "holds s' x n = holds s1 x n" "landed_log s' = landed_log s1" "next_write s' = next_write s1"
      "msg_ok s' x = msg_ok s1 x" for x n
      unfolding holds_def landed_log_def next_write_def msg_ok_def addr fr by simp_all
    have "next_write s1 \<noteq> None" by (simp add: next_write_def inc)
    then show ?thesis using inv1 False inc unfolding pw_inv_def h by (auto simp: s')
  qed
qed

lemma dispatch_inv:
  assumes inv: "pw_inv s" and step: "pw_dispatch source bytes hasDone s = Inr (ok, s')"
  shows "pw_inv s'"
  using step pw_inv_frame [OF inv, of s'] inv
  by (auto simp: pw_dispatch_def pw_enqueue_def Let_def split: if_splits sum.splits)

lemma retire_inv:
  assumes "pw_inv s" "pw_incoming s = []" "\<not> pw_landingPending s"
  shows "pw_inv (retireGeneration (s\<lparr>pw_leased := False\<rparr>))"
  using assms by (auto simp: pw_inv_def retireGeneration_def slots_def landed_log_def)

lemma lease_ops_inv:
  assumes inv: "pw_inv s"
  shows "pw_inv (snd (pw_consume e m l s))" "pw_inv (snd (pw_acquire e m l s))" "pw_inv (snd (pw_release e m l s))"
proof -
  have same: "s\<lparr>pw_leased := False\<rparr> = s" if "\<not> pw_leased s" using that by (cases s) simp
  show "pw_inv (snd (pw_consume e m l s))"
    using inv retire_inv [OF inv] by (auto simp: pw_consume_def pw_ready_def same)
  show "pw_inv (snd (pw_acquire e m l s))"
    using inv
    by (auto simp: pw_acquire_def pw_ready_def pw_inv_def holds_def landed_log_def landing_address_def
        msg_ok_def next_write_def split: list.splits)
  have l: "pw_incoming s = [] \<and> \<not> pw_landingPending s" if "pw_leased s"
    using inv that by (auto simp: pw_inv_def)
  show "pw_inv (snd (pw_release e m l s))"
    using inv retire_inv [OF inv] l by (auto simp: pw_release_def)
qed

section \<open>Histories\<close>

datatype pw_op =
    PwDispatch pw_message "byte list"
  | PwReceive pw_message
  | PwTick bool bool
  | PwWriteDone bool
  | PwConsume nat nat nat
  | PwAcquire nat nat nat
  | PwRelease nat nat nat

primrec pw_step :: "pw_op \<Rightarrow> pv_wo \<Rightarrow> golem_error + pv_wo" where
  "pw_step (PwDispatch m bs) s = map_sum id snd (pw_dispatch m bs True s)"
| "pw_step (PwReceive m) s = map_sum id snd (pw_receive m s)"
| "pw_step (PwTick sendOk writeOk) s = map_sum id snd (pw_tick sendOk writeOk s)"
| "pw_step (PwWriteDone ok) s = pw_writeDone ok s"
| "pw_step (PwConsume e m l) s = Inr (snd (pw_consume e m l s))"
| "pw_step (PwAcquire e m l) s = Inr (snd (pw_acquire e m l s))"
| "pw_step (PwRelease e m l) s = Inr (snd (pw_release e m l s))"

primrec pw_run :: "pw_op list \<Rightarrow> pv_wo \<Rightarrow> golem_error + pv_wo" where
  "pw_run [] s = Inr s"
| "pw_run (x # xs) s = (case pw_step x s of Inl e \<Rightarrow> Inl e | Inr s' \<Rightarrow> pw_run xs s')"

lemma pw_step_inv:
  assumes "pw_inv s" "pw_step x s = Inr s'"
  shows "pw_inv s'"
proof (cases x)
  case (PwDispatch m bs)
  then show ?thesis using assms dispatch_inv [OF assms(1)] by (cases "pw_dispatch m bs True s") auto
next
  case (PwReceive m)
  then show ?thesis using assms receive_inv [OF assms(1)] by (cases "pw_receive m s") auto
next
  case (PwTick a b)
  then show ?thesis using assms tick_inv [OF assms(1)] by (cases "pw_tick a b s") auto
qed (use assms writeDone_inv [OF assms(1)] lease_ops_inv [OF assms(1)] in auto)

lemma pw_run_inv: "pw_inv s \<Longrightarrow> pw_run ops s = Inr s' \<Longrightarrow> pw_inv s'"
  by (induction ops arbitrary: s) (auto split: sum.splits dest: pw_step_inv)

text \<open>C31: what Wo reads is what PV sent: when a worker's epoch is acquired (or consumed), its
  landing area holds, for each of the 32 heads, byte for byte the payload of one accepted message
  of exactly this epoch and worker; every head was accepted exactly once. This holds for every
  interleaving of messages, ticks, refused sends and writes, and write completions.\<close>

theorem pv_wo_delivers:
  assumes "pw_make gmSize base maxRequest coreId mem = Inr s0" and "pw_run ops s0 = Inr s"
    and "pw_ready epoch manager lane s" and "slot < 32"
  shows "\<exists>!m. m \<in> set (pw_log s) \<and> pm_workerSlot m = slot \<and> pm_inputAddr m = epoch \<and> pm_workerCore m = pw_core s \<and>
    (\<forall>i < payloadBytes. pw_mem s (pw_base s + decoder_pv_wo_landing_gm + slot * payloadBytes + i) = pm_tensorPayload m ! i)"
proof -
  have inv: "pw_inv s" by (rule pw_run_inv [OF pw_make_inv [OF assms(1)] assms(2)])
  have r: "pw_landed s = - 1" "pw_incoming s = []" "epoch = u32 (pw_consumedEpoch s + 1)"
    using assms(3) by (auto simp: pw_ready_def)
  have all: "landed_log s = pw_log s" by (simp add: landed_log_def r(2))
  have "bit (pw_landed s) slot" using assms(4) by (simp add: r(1))
  then obtain m where m: "m \<in> set (pw_log s)" "pm_workerSlot m = slot"
    using inv assms(4) by (auto simp: pw_inv_def all slots_def)
  have "holds s m payloadBytes" "msg_ok s m" using inv m(1) by (auto simp: pw_inv_def all)
  moreover have "x = m" if "x \<in> set (pw_log s)" "pm_workerSlot x = slot" for x
    using inv that m by (auto simp: pw_inv_def slots_def distinct_map dest: inj_onD)
  ultimately have "pm_inputAddr m = epoch" "pm_workerCore m = pw_core s"
    "\<forall>i < payloadBytes. pw_mem s (pw_base s + decoder_pv_wo_landing_gm + slot * payloadBytes + i) = pm_tensorPayload m ! i"
    and uniq: "\<And>x. x \<in> set (pw_log s) \<Longrightarrow> pm_workerSlot x = slot \<Longrightarrow> x = m"
    unfolding holds_def msg_ok_def landing_address_def m(2) r(3) by blast+
  then show ?thesis using m by (intro ex1I [of _ m]) blast+
qed

lemma quarter: "64 * u mod 256 div 64 = u mod 4" "64 * u div 256 = u div (4::nat)"
proof -
  have "64 * u mod (64 * 4) = 64 * (u mod 4)" by (rule mult_mod_right [symmetric])
  then show "64 * u mod 256 div 64 = u mod 4" by simp
  have "(64 * u) div (64 * 4) = u div 4" by (rule div_mult_mult1) simp
  then show "64 * u div 256 = u div 4" by simp
qed

lemma pair4: "a < 4 \<Longrightarrow> b < 4 \<Longrightarrow> a + 4 * c = b + 4 * d \<longleftrightarrow> a = b \<and> c = (d::nat)"
  by presburger

text \<open>C32: dispatching routes without collision: an accepted 64-row block goes to a worker core
  between 4 and 19 of the block's manager and to a head slot below 32, and (with row offsets in
  range and aligned to 64) two different blocks of an epoch, that is different manager, KV head
  or row block, never get the same worker and slot.\<close>

theorem dispatch_routes_injectively:
  assumes "\<not> dispatch_refused m bs d s" "\<not> rows_refused (local_begin m)" "pm_row m mod 64 = 0"
    and "\<not> dispatch_refused m' bs' d' s'" "\<not> rows_refused (local_begin m')" "pm_row m' mod 64 = 0"
    and "pm_groupQueryRowBegin m < 2 ^ 31" "pm_groupQueryRowBegin m' < 2 ^ 31"
  shows "4 \<le> route_target m \<and> route_target m < 20 \<and> (route_target m - 4) mod 4 = pm_row m div 1024 \<and> route_head m < 32 \<and>
    ((route_target m = route_target m' \<and> route_head m = route_head m') \<longleftrightarrow>
     (pm_row m div 1024 = pm_row m' div 1024 \<and> pm_kvHeadIndex m = pm_kvHeadIndex m' \<and> local_begin m = local_begin m'))"
proof -
  have lb: "local_begin x + 64 \<le> 1024 \<and> local_begin x mod 64 = 0 \<and> pm_row x div 1024 \<le> 3 \<and> pm_kvHeadIndex x < 8"
    if "\<not> dispatch_refused x b dd t" "\<not> rows_refused (local_begin x)" "pm_row x mod 64 = 0"
      "pm_groupQueryRowBegin x < 2 ^ 31" for x b dd t
  proof -
    let ?r = "pm_row x - pm_row x div 1024 * 1024"
    have g: "pm_groupQueryRowBegin x mod 64 = 0" "pm_row x div 1024 \<le> 3" "pm_kvHeadIndex x < 8"
      using that(1) by (auto simp: dispatch_refused_def)
    have "?r = pm_row x mod 1024" by (rule minus_div_mult_eq_mod)
    then have r: "?r < 1024" "?r mod 64 = 0" using that(3) by (simp_all add: mod_mod_cancel)
    have v: "local_begin x = ?r + pm_groupQueryRowBegin x"
      unfolding local_begin_def using that(4) r(1) by (intro u32_id) simp
    have "u32 (local_begin x + 64) = local_begin x + 64"
      using v that(4) r(1) by (intro u32_id) simp
    then have le: "local_begin x + 64 \<le> 1024" using that(2) by (simp add: rows_refused_def)
    have "64 dvd ?r + pm_groupQueryRowBegin x"
      using g(1) r(2) by (intro dvd_add) (simp_all only: dvd_eq_mod_eq_0)
    then have "local_begin x mod 64 = 0" unfolding v by (simp only: dvd_eq_mod_eq_0)
    with le g show ?thesis by blast
  qed
  note a = lb [OF assms(1-3,7)] and b = lb [OF assms(4-6,8)]
  define x where "x = local_begin m div 64"
  define y where "y = local_begin m' div 64"
  have x: "local_begin m = 64 * x" "x < 16" using a by (auto simp: x_def)
  have y: "local_begin m' = 64 * y" "y < 16" using b by (auto simp: y_def)
  have rt: "local_begin m mod 256 div 64 = x mod 4" "local_begin m div 256 = x div 4"
    "local_begin m' mod 256 div 64 = y mod 4" "local_begin m' div 256 = y div 4"
    using quarter [of x] quarter [of y] unfolding x(1) y(1) by simp_all
  define p q k l where pq: "p = pm_row m div 1024" "q = pm_row m' div 1024" "k = pm_kvHeadIndex m" "l = pm_kvHeadIndex m'"
  have bd: "p \<le> 3" "q \<le> 3" "k < 8" "l < 8" using a b pq by auto
  have t: "route_target m = 4 + p + 4 * (x mod 4)" "route_target m' = 4 + q + 4 * (y mod 4)"
    "route_head m = k * 4 + x div 4" "route_head m' = l * 4 + y div 4"
    unfolding route_target_def route_head_def rt pq by simp_all
  have u: "u div 4 < 4" "u mod 4 < 4" if "u < 16" for u :: nat using that by auto
  note bx = u [OF x(2)] and by' = u [OF y(2)]
  have same: "x = y \<longleftrightarrow> x div 4 = y div 4 \<and> x mod 4 = y mod 4" by (metis div_mult_mod_eq)
  have tgt: "route_target m = route_target m' \<longleftrightarrow> p = q \<and> x mod 4 = y mod 4"
    using pair4 [of p q "x mod 4" "y mod 4"] bd unfolding t by simp
  have hd: "route_head m = route_head m' \<longleftrightarrow> k = l \<and> x div 4 = y div 4"
    using pair4 [of "x div 4" "y div 4" k l] bx by' unfolding t by (auto simp: algebra_simps)
  have lb_eq: "local_begin m = local_begin m' \<longleftrightarrow> x = y" using x y by simp
  have "4 \<le> route_target m" "route_target m < 20" "route_head m < 32" using bd bx unfolding t by arith+
  moreover have "(route_target m - 4) mod 4 = p" using bd unfolding t by simp
  ultimately show ?thesis unfolding pq(1,2,3,4) [symmetric] tgt hd lb_eq same by blast
qed

text \<open>C33: the acknowledgement closes the loop: after an accepted dispatch the producer has exactly
  this block outstanding and accepts no other; the acknowledgement that the addressed worker
  builds for the data message is the one that the producer accepts, and it calls the block's
  \<open>done\<close> callback once and leaves nothing outstanding.\<close>

theorem pv_wo_ack_closes:
  assumes "pw_dispatch source bytes True p = Inr (True, p')"
    and "d = data_message source bytes p" and "pw_core w = pm_workerCore d"
  shows "pw_outgoing p' = pw_outgoing p @ [(pm_workerCore d, d)] \<and>
    pw_dispatch other bytes' True p' = Inr (False, p') \<and>
    pw_receive (ack_message d w) p' = Inr ([pw_key_of source], p'\<lparr>pw_pending := []\<rparr>)"
proof -
  have ok: "\<not> dispatch_refused source bytes True p"
    and p': "p' = p\<lparr>pw_pending := [(pw_key_of source, route_target source)],
        pw_outgoing := pw_outgoing p @ [(route_target source, d)]\<rparr>"
    using assms(1) by (auto simp: pw_dispatch_def pw_enqueue_def Let_def assms(2) pw_key_of_def
        split: if_splits sum.splits)
  have "dispatch_refused other bytes' True p'" by (simp add: dispatch_refused_def p')
  then have "pw_dispatch other bytes' True p' = Inr (False, p')" by (simp add: pw_dispatch_def)
  moreover have "pw_key_of (ack_message d w) = pw_key_of source"
    by (simp add: pw_key_of_def ack_message_def assms(2) data_message_def empty_message_def)
  then have "pw_receive (ack_message d w) p' = Inr ([pw_key_of source], p'\<lparr>pw_pending := []\<rparr>)"
    using assms(3) by (simp add: pw_receive_def p' ack_message_def assms(2) data_message_def empty_message_def)
  moreover have "pm_workerCore d = route_target source" by (simp add: assms(2) data_message_def)
  ultimately show ?thesis by (simp add: p')
qed

section \<open>Concrete runs\<close>

definition demo_source :: pw_message where
  "demo_source = empty_message\<lparr>pm_jobId := 3 * 2 ^ 32 + 0xD1000401, pm_tag := 5, pm_headDim := 64,
     pm_queryLength := 256, pm_kvLength := 1024, pm_numQueryHeads := 32, pm_numKvHeads := 8,
     pm_groupQueryRowBegin := 64, pm_row := 2048, pm_kvHeadIndex := 3\<rparr>"

definition demo_worker :: "nat \<Rightarrow> pv_wo" where
  "demo_worker c = \<lparr>pw_core = c, pw_base = 0, pw_maxRequest = 8192, pw_tag = 0,
       pw_consumedEpoch = 0, pw_received = 0, pw_landed = 0, pw_landingPending = False,
       pw_leased = False, pw_pending = [], pw_incoming = [], pw_outgoing = [], pw_log = [],
       pw_mem = (\<lambda>_. 0), pw_inflight = None\<rparr>"

lemma demo_dispatch_ok:
  "\<not> dispatch_refused demo_source (replicate 8192 7) True (demo_worker 12)"
  "\<not> rows_refused (local_begin demo_source)" "\<not> generation_refused (u32 (pm_jobId demo_source))"
  by (simp_all add: dispatch_refused_def demo_source_def empty_message_def demo_worker_def headBlockBytes_def
      rows_refused_def local_begin_def generation_refused_def pw_generation_base_def u32_def)

theorem pv_wo_ack_closes_witness:
  "\<exists>p'. pw_dispatch demo_source (replicate 8192 7) True (demo_worker 12) = Inr (True, p') \<and>
     pw_receive (ack_message (data_message demo_source (replicate 8192 7) (demo_worker 12)) (demo_worker 10)) p'
       = Inr ([pw_key_of demo_source], p'\<lparr>pw_pending := []\<rparr>)"
proof -
  have "\<exists>p'. pw_dispatch demo_source (replicate 8192 7) True (demo_worker 12) = Inr (True, p')"
    using demo_dispatch_ok by (simp add: pw_dispatch_def pw_enqueue_def demo_worker_def Let_def)
  then obtain p' where d: "pw_dispatch demo_source (replicate 8192 7) True (demo_worker 12) = Inr (True, p')" by blast
  have "pw_core (demo_worker 10) = pm_workerCore (data_message demo_source (replicate 8192 7) (demo_worker 12))"
    by (simp add: demo_worker_def data_message_def route_target_def local_begin_def demo_source_def empty_message_def u32_def)
  with pv_wo_ack_closes [OF d refl] d show ?thesis by blast
qed

theorem dispatch_routes_injectively_witness:
  "route_target demo_source = 10 \<and> route_head demo_source = 12 \<and> route_head demo_source < 32 \<and>
   (route_target demo_source - 4) mod 4 = 2"
proof -
  have r: "pm_row demo_source mod 64 = 0" "pm_groupQueryRowBegin demo_source < 2 ^ 31" "pm_row demo_source div 1024 = 2"
    by (simp_all add: demo_source_def empty_message_def)
  have "route_target demo_source = 10" "route_head demo_source = 12"
    by (simp_all add: route_target_def route_head_def local_begin_def demo_source_def empty_message_def u32_def)
  then show ?thesis
    using dispatch_routes_injectively [OF demo_dispatch_ok(1,2) r(1) demo_dispatch_ok(1,2) r(1) r(2) r(2)] r(3) by simp
qed

text \<open>A worker that receives all 32 heads of epoch 1, one after the other.\<close>

definition demo_head :: "nat \<Rightarrow> pw_message" where
  "demo_head h = empty_message\<lparr>pm_kind := AttentionPvWoData, pm_ownerCore := 12, pm_workerCore := 4,
     pm_workerSlot := h, pm_inputAddr := 1, pm_headDim := 64, pm_queryLength := 256,
     pm_tensorPayload := replicate 8192 (of_nat h)\<rparr>"

definition demo_round :: "nat \<Rightarrow> pw_op list" where
  "demo_round h = [PwReceive (demo_head h), PwTick True True, PwWriteDone True]"

definition demo_rounds :: "nat \<Rightarrow> pw_op list" where
  "demo_rounds n = concat (map demo_round [0..<n])"

definition quiet :: "nat \<Rightarrow> pv_wo \<Rightarrow> bool" where
  "quiet n s \<longleftrightarrow> pw_core s = 4 \<and> pw_maxRequest s = 8192 \<and> pw_consumedEpoch s = 0 \<and>
     (\<forall>k < 32. bit (pw_received s) k = (k < n)) \<and> (\<forall>k < 32. bit (pw_landed s) k = (k < n)) \<and>
     \<not> pw_landingPending s \<and> \<not> pw_leased s \<and> pw_incoming s = [] \<and>
     length (pw_outgoing s) \<le> 1 \<and> (\<forall>x \<in> set (pw_outgoing s). fst x = 12) \<and> pw_inflight s = None"

lemma demo_round_runs:
  assumes q: "quiet n s" and n: "n < 32"
  shows "\<exists>s'. pw_run (demo_round n) s = Inr s' \<and> quiet (Suc n) s'"
proof -
  let ?m = "demo_head n"
  have f: "pw_core s = 4" "pw_maxRequest s = 8192" "pw_consumedEpoch s = 0" "\<not> pw_landingPending s"
    "\<not> pw_leased s" "pw_incoming s = []" "length (pw_outgoing s) \<le> 1" "\<forall>x \<in> set (pw_outgoing s). fst x = 12"
    using q by (auto simp: quiet_def)
  have "\<not> bit (pw_received s) n" using q n by (simp add: quiet_def)
  then have fresh: "pw_received s AND slot_bit n = 0" using and_slot_bit [OF n] by simp
  have slot: "pm_workerSlot ?m = n" "pm_ownerCore ?m = 12" by (simp_all add: demo_head_def)
  define s1 where "s1 = s\<lparr>pw_received := pw_received s OR slot_bit n, pw_incoming := [(?m, 0)], pw_log := pw_log s @ [?m]\<rparr>"
  have "\<not> data_refused ?m s"
    using n f by (auto simp: data_refused_def demo_head_def empty_message_def payloadBytes_def u32_def)
  then have r1: "pw_step (PwReceive ?m) s = Inr s1"
    using fresh f slot by (simp add: pw_receive_def s1_def demo_head_def)
  have out1: "pw_outgoing s1 = pw_outgoing s" "pw_core s1 = 4" by (simp_all add: s1_def f)
  define s2 where "s2 = s1\<lparr>pw_outgoing := []\<rparr>"
  have pump: "\<exists>es. pumpOutgoing True s1 = Inr (es, s2)"
  proof (cases "pw_outgoing s")
    case Nil
    then have "s2 = s1" using out1 by (simp add: s2_def)
    then show ?thesis using Nil out1 by (simp add: pumpOutgoing_def)
  next
    case (Cons x rest)
    then have "rest = []" "fst x = 12" using f(7,8) by auto
    then show ?thesis using Cons out1 by (cases x) (simp add: pumpOutgoing_def s2_def)
  qed
  define bs where "bs = range_of (pm_tensorPayload ?m) 0 8192"
  have lbs: "length bs = 8192" by (simp add: bs_def demo_head_def)
  define s3 where "s3 = s2\<lparr>pw_tag := pw_tag s2 + 1, pw_landingPending := True,
      pw_inflight := Some (landing_address ?m 0 s2, bs)\<rparr>"
  have r2: "pw_step (PwTick True True) s1 = Inr s3"
  proof -
    obtain es where "pumpOutgoing True s1 = Inr (es, s2)" using pump by blast
    moreover have "pw_landingPending s2 = False" "pw_incoming s2 = [(?m, 0)]" "pw_maxRequest s2 = 8192"
      by (simp_all add: s2_def s1_def f)
    ultimately show ?thesis by (simp add: pw_tick_def s3_def bs_def Let_def payloadBytes_def)
  qed
  have f3: "pw_inflight s3 = Some (landing_address ?m 0 s2, bs)" "pw_incoming s3 = [(?m, 0)]" "pw_outgoing s3 = []"
    "pw_landed s3 = pw_landed s" "pw_received s3 = pw_received s OR slot_bit n" "pw_core s3 = 4" "pw_maxRequest s3 = 8192"
    "pw_consumedEpoch s3 = 0" "\<not> pw_leased s3"
    by (simp_all add: s3_def s2_def s1_def f)
  define s4 where "s4 = s3\<lparr>pw_landingPending := False, pw_inflight := None,
      pw_mem := write_mem (landing_address ?m 0 s2) bs (pw_mem s3), pw_landed := pw_landed s3 OR slot_bit n,
      pw_outgoing := [(12, ack_message ?m s3)], pw_incoming := []\<rparr>"

  have r3: "pw_step (PwWriteDone True) s3 = Inr s4"
    by (simp add: pw_writeDone_def f3 slot lbs payloadBytes_def Let_def pw_enqueue_def s4_def ack_message_def)
  have s4: "pw_landed s4 = pw_landed s OR slot_bit n" "pw_incoming s4 = []" "pw_outgoing s4 = [(12, ack_message ?m s3)]"
      "pw_received s4 = pw_received s OR slot_bit n" "pw_core s4 = 4" "pw_maxRequest s4 = 8192" "pw_consumedEpoch s4 = 0"
      "\<not> pw_landingPending s4" "\<not> pw_leased s4" "pw_inflight s4 = None"
    by (simp_all add: s4_def f3)
  have bits: "\<forall>k < 32. bit (w OR slot_bit n) k = (k < Suc n)" if "\<forall>k < 32. bit w k = (k < n)" for w :: "32 word"
    using that n by (auto simp: bit_or_iff bit_slot_bit)
  have "quiet (Suc n) s4"
    unfolding quiet_def s4 using q bits by (simp add: quiet_def s4)
  moreover have "pw_run (demo_round n) s = Inr s4"
    using r1 r2 r3 by (simp add: demo_round_def del: pw_step.simps)
  ultimately show ?thesis by blast
qed

lemma pw_run_append:
  "pw_run (xs @ ys) s = (case pw_run xs s of Inl e \<Rightarrow> Inl e | Inr s' \<Rightarrow> pw_run ys s')"
  by (induction xs arbitrary: s) (auto simp del: pw_step.simps split: sum.split)

lemma demo_rounds_run:
  assumes "quiet 0 s" "n \<le> 32"
  shows "\<exists>s'. pw_run (demo_rounds n) s = Inr s' \<and> quiet n s'"
  using assms(2)
proof (induction n)
  case 0
  then show ?case using assms(1) by (simp add: demo_rounds_def)
next
  case (Suc n)
  then obtain s1 where s1: "pw_run (demo_rounds n) s = Inr s1" "quiet n s1" by auto
  then obtain s2 where "pw_run (demo_round n) s1 = Inr s2" "quiet (Suc n) s2"
    using demo_round_runs [OF s1(2)] Suc.prems by auto
  moreover have "demo_rounds (Suc n) = demo_rounds n @ demo_round n" by (simp add: demo_rounds_def)
  ultimately show ?case using s1(1) by (simp add: pw_run_append)
qed

lemma quiet_ready: "quiet 32 s \<Longrightarrow> pw_ready 1 0 0 s"
proof -
  assume q: "quiet 32 s"
  have full: "w = - 1" if "\<forall>k < 32. bit w k = (k < 32)" for w :: "32 word"
  proof (rule bit_eqI)
    fix k assume "possible_bit TYPE(32 word) k"
    then have "k < 32" by simp
    with that show "bit w k = bit (- 1 :: 32 word) k" by simp
  qed
  show ?thesis using q by (simp add: quiet_def pw_ready_def u32_def full)
qed

theorem pv_wo_delivers_witness:
  "\<exists>s. pw_make 0x200000 0 8192 4 (\<lambda>_. 0) = Inr (demo_worker 4) \<and> pw_run (demo_rounds 32) (demo_worker 4) = Inr s \<and>
     (\<exists>!m. m \<in> set (pw_log s) \<and> pm_workerSlot m = 5 \<and> pm_inputAddr m = 1 \<and> pm_workerCore m = pw_core s \<and>
       (\<forall>i < payloadBytes. pw_mem s (pw_base s + decoder_pv_wo_landing_gm + 5 * payloadBytes + i) = pm_tensorPayload m ! i))"
proof -
  have mk: "pw_make 0x200000 0 8192 4 (\<lambda>_. 0) = Inr (demo_worker 4)"
    by (simp add: pw_make_def demo_worker_def workerTileBytes_def decoder_pv_wo_landing_gm_def)
  have "quiet 0 (demo_worker 4)" by (simp add: quiet_def demo_worker_def)
  then obtain s where s: "pw_run (demo_rounds 32) (demo_worker 4) = Inr s" "quiet 32 s"
    using demo_rounds_run [of "demo_worker 4" 32] by auto
  have "5 < (32::nat)" by simp
  from pv_wo_delivers [OF mk s(1) quiet_ready [OF s(2)] this] mk s(1) show ?thesis by blast
qed

end
