(* ===== verification/Hw_Pipeline.thy ===== *)
theory Hw_Pipeline
  imports Golem_Prelude
begin

text \<open>
  \<^verbatim>\<open>golem/sfu/hardware_pipeline.h\<close>: the finite pipelined unit \<open>TensorHardwarePipeline\<close> that every
  SFU resource is an instance of, and \<open>SFUSharedVectorArbiter\<close>, which shares one such unit
  between the row client and the vector client.

  \<open>reserve\<close> takes whether the result pointer is non-null; it returns the completion cycle, or
  \<open>None\<close> for \<open>false\<close>. The clients of the arbiter are the two closures of the template, as
  functions on the unit and their own state.
\<close>

section \<open>The pipelined unit\<close>

record hw_pipe =
  hp_latency :: nat
  hp_initiationInterval :: nat
  hp_queueDepth :: nat
  hp_nextIssueCycle :: cycle
  hp_completionCycles :: "cycle list"
  hp_acceptedTokens :: nat
  hp_issueWaitCycles :: nat
  hp_backpressureEvents :: nat
  hp_maxOccupancy :: nat

definition hp_initial :: hw_pipe where
  "hp_initial = \<lparr>hp_latency = 1, hp_initiationInterval = 1, hp_queueDepth = 1, hp_nextIssueCycle = 0,
     hp_completionCycles = [], hp_acceptedTokens = 0, hp_issueWaitCycles = 0,
     hp_backpressureEvents = 0, hp_maxOccupancy = 0\<rparr>"

definition hp_configure :: "nat \<Rightarrow> nat \<Rightarrow> nat \<Rightarrow> hw_pipe \<Rightarrow> hw_pipe" where
  "hp_configure configuredLatency configuredII configuredQueueDepth p =
    p\<lparr>hp_latency := max 1 configuredLatency, hp_initiationInterval := max 1 configuredII,
      hp_queueDepth := max 1 configuredQueueDepth\<rparr>"

definition hp_retire :: "cycle \<Rightarrow> hw_pipe \<Rightarrow> hw_pipe" where
  "hp_retire now p = p\<lparr>hp_completionCycles := dropWhile (\<lambda>c. c \<le> now) (hp_completionCycles p)\<rparr>"

definition hp_reserve :: "cycle \<Rightarrow> bool \<Rightarrow> hw_pipe \<Rightarrow> cycle option \<times> hw_pipe" where
  "hp_reserve now hasPointer p0 =
    (let p = hp_retire now p0
     in if \<not> hasPointer \<or> length (hp_completionCycles p) \<ge> hp_queueDepth p
        then (None, p\<lparr>hp_backpressureEvents := hp_backpressureEvents p + 1\<rparr>)
        else
          let issue = max now (hp_nextIssueCycle p);
              completion = issue + hp_latency p;
              queue = hp_completionCycles p @ [completion]
          in (Some completion,
              p\<lparr>hp_nextIssueCycle := issue + hp_initiationInterval p,
                hp_completionCycles := queue,
                hp_acceptedTokens := hp_acceptedTokens p + 1,
                hp_issueWaitCycles := hp_issueWaitCycles p + (issue - now),
                hp_maxOccupancy := max (hp_maxOccupancy p) (length queue)\<rparr>))"

definition hp_retryDelay :: "cycle \<Rightarrow> hw_pipe \<Rightarrow> nat \<times> hw_pipe" where
  "hp_retryDelay now p0 =
    (let p = hp_retire now p0
     in if length (hp_completionCycles p) < hp_queueDepth p then (1, p)
        else (max 1 (hd (hp_completionCycles p) - now + 1), p))"

section \<open>The arbiter\<close>

record arbiter =
  arb_grantBased :: bool
  arb_preferRows :: bool
  arb_rowGrants :: nat
  arb_vectorGrants :: nat

definition arb_initial :: arbiter where
  "arb_initial = \<lparr>arb_grantBased = True, arb_preferRows = True, arb_rowGrants = 0, arb_vectorGrants = 0\<rparr>"

type_synonym 'c client = "hw_pipe \<times> 'c \<Rightarrow> hw_pipe \<times> 'c"

definition arb_runRows :: "'c client \<Rightarrow> arbiter \<times> hw_pipe \<times> 'c \<Rightarrow> arbiter \<times> hw_pipe \<times> 'c" where
  "arb_runRows rows x =
    (case x of (arb, res, c) \<Rightarrow>
       case rows (res, c) of (res', c') \<Rightarrow>
         if hp_acceptedTokens res' \<noteq> hp_acceptedTokens res
         then (arb\<lparr>arb_rowGrants := arb_rowGrants arb + (hp_acceptedTokens res' - hp_acceptedTokens res),
                   arb_preferRows := False\<rparr>, res', c')
         else (arb, res', c'))"

definition arb_runVectors :: "'c client \<Rightarrow> arbiter \<times> hw_pipe \<times> 'c \<Rightarrow> arbiter \<times> hw_pipe \<times> 'c" where
  "arb_runVectors vectors x =
    (case x of (arb, res, c) \<Rightarrow>
       case vectors (res, c) of (res', c') \<Rightarrow>
         if hp_acceptedTokens res' \<noteq> hp_acceptedTokens res
         then (arb\<lparr>arb_vectorGrants := arb_vectorGrants arb + (hp_acceptedTokens res' - hp_acceptedTokens res),
                   arb_preferRows := True\<rparr>, res', c')
         else (arb, res', c'))"

definition arb_step :: "cycle \<Rightarrow> 'c client \<Rightarrow> 'c client \<Rightarrow> arbiter \<times> hw_pipe \<times> 'c \<Rightarrow> arbiter \<times> hw_pipe \<times> 'c" where
  "arb_step now rows vectors x =
    (let first = (if arb_grantBased (fst x) then arb_preferRows (fst x) else odd now)
     in if first then arb_runVectors vectors (arb_runRows rows x)
        else arb_runRows rows (arb_runVectors vectors x))"

section \<open>Invariant of the unit\<close>

text \<open>
  Completion cycles of the queue are at least an initiation interval apart, the queue is bounded
  and no token completes later than the next issue slot allows.
\<close>

definition spaced :: "nat \<Rightarrow> nat list \<Rightarrow> bool" where
  "spaced ii cs \<longleftrightarrow> sorted_wrt (\<lambda>a b. a + ii \<le> b) cs"

definition hp_inv :: "hw_pipe \<Rightarrow> bool" where
  "hp_inv p \<longleftrightarrow> 0 < hp_latency p \<and> 0 < hp_initiationInterval p \<and> 0 < hp_queueDepth p \<and>
     length (hp_completionCycles p) \<le> hp_queueDepth p \<and> hp_maxOccupancy p \<le> hp_queueDepth p \<and>
     spaced (hp_initiationInterval p) (hp_completionCycles p) \<and>
     list_all (\<lambda>c. c + hp_initiationInterval p \<le> hp_nextIssueCycle p + hp_latency p) (hp_completionCycles p)"

lemma hp_configure_inv:
  "hp_completionCycles p = [] \<Longrightarrow> hp_maxOccupancy p = 0 \<Longrightarrow> hp_inv (hp_configure lat ii depth p)"
  by (auto simp: hp_inv_def hp_configure_def spaced_def)

lemma hp_retire_simps [simp]:
  "hp_latency (hp_retire now p) = hp_latency p" "hp_initiationInterval (hp_retire now p) = hp_initiationInterval p"
  "hp_queueDepth (hp_retire now p) = hp_queueDepth p" "hp_nextIssueCycle (hp_retire now p) = hp_nextIssueCycle p"
  "hp_acceptedTokens (hp_retire now p) = hp_acceptedTokens p"
  "hp_issueWaitCycles (hp_retire now p) = hp_issueWaitCycles p"
  "hp_backpressureEvents (hp_retire now p) = hp_backpressureEvents p"
  "hp_maxOccupancy (hp_retire now p) = hp_maxOccupancy p"
  "hp_completionCycles (hp_retire now p) = dropWhile (\<lambda>c. c \<le> now) (hp_completionCycles p)"
  by (simp_all add: hp_retire_def)

lemma spaced_dropWhile: "spaced ii cs \<Longrightarrow> spaced ii (dropWhile P cs)"
  by (induction cs) (auto simp: spaced_def)

lemma hp_retire_inv [golem_inv]: "hp_inv p \<Longrightarrow> hp_inv (hp_retire now p)"
  using length_dropWhile_le [of "\<lambda>c. c \<le> now" "hp_completionCycles p"]
  by (auto simp: hp_inv_def spaced_dropWhile list_all_iff dest: set_dropWhileD)

lemma hp_retire_later:
  assumes "spaced ii cs" "0 < ii" "c \<in> set (dropWhile (\<lambda>c. c \<le> now) cs)"
  shows "now < c"
  using assms
proof (induction cs)
  case (Cons x cs)
  show ?case
  proof (cases "x \<le> now")
    case True
    with Cons show ?thesis by (auto simp: spaced_def)
  next
    case False
    with Cons.prems show ?thesis by (auto simp: spaced_def)
  qed
qed (simp add: spaced_def)

lemma spaced_snoc:
  "spaced ii (cs @ [c]) \<longleftrightarrow> spaced ii cs \<and> list_all (\<lambda>x. x + ii \<le> c) cs"
  by (auto simp: spaced_def sorted_wrt_append list_all_iff)

lemma hp_reserve_inv [golem_inv]:
  assumes inv: "hp_inv p" and r: "hp_reserve now ptr p = (res, p')"
  shows "hp_inv p'"
proof -
  let ?q = "hp_retire now p"
  have q: "hp_inv ?q" by (rule hp_retire_inv [OF inv])
  show ?thesis
  proof (cases "\<not> ptr \<or> length (hp_completionCycles ?q) \<ge> hp_queueDepth p")
    case True
    with r have "p' = ?q\<lparr>hp_backpressureEvents := hp_backpressureEvents p + 1\<rparr>"
      by (auto simp: hp_reserve_def Let_def)
    with q show ?thesis by (simp add: hp_inv_def)
  next
    case False
    let ?c = "max now (hp_nextIssueCycle p) + hp_latency p"
    let ?cs = "hp_completionCycles ?q"
    from q have sp: "spaced (hp_initiationInterval p) ?cs" "0 < hp_latency p" "0 < hp_initiationInterval p"
      "list_all (\<lambda>c. c + hp_initiationInterval p \<le> hp_nextIssueCycle p + hp_latency p) ?cs"
      by (simp_all add: hp_inv_def)
    then have le: "list_all (\<lambda>c. c + hp_initiationInterval p \<le> ?c) ?cs"
      by (auto simp: list_all_iff)
    from r False have p': "hp_completionCycles p' = ?cs @ [?c]" "hp_latency p' = hp_latency p"
      "hp_initiationInterval p' = hp_initiationInterval p" "hp_queueDepth p' = hp_queueDepth p"
      "hp_nextIssueCycle p' = max now (hp_nextIssueCycle p) + hp_initiationInterval p"
      "hp_maxOccupancy p' = max (hp_maxOccupancy p) (length (?cs @ [?c]))"
      by (auto simp: hp_reserve_def Let_def)
    have occ: "hp_maxOccupancy p \<le> hp_queueDepth p" using inv by (simp add: hp_inv_def)
    have bound: "list_all (\<lambda>c. c + hp_initiationInterval p \<le> hp_nextIssueCycle p' + hp_latency p) (?cs @ [?c])"
      using le by (auto simp: list_all_iff p')
    show ?thesis
      unfolding hp_inv_def p'(1-4) using sp(2,3) False occ le sp(1) bound
      by (auto simp: spaced_snoc p'(6) simp del: hp_retire_simps(9))
  qed
qed


section \<open>Timing of the unit\<close>

text \<open>\<open>reserve\<close> with a result pointer is refused exactly when \<open>queueDepth\<close> accepted tokens have
  not completed by \<open>now\<close>; otherwise the token completes a full latency after the first free
  issue slot, and at least one initiation interval after every token still in flight.\<close>

theorem hp_reserve_timing:
  assumes "hp_inv p" "hp_reserve now True p = (res, p')"
  shows "(res = None \<longleftrightarrow> count_if (\<lambda>c. now < c) (hp_completionCycles p) = hp_queueDepth p) \<and>
    (\<forall>c. res = Some c \<longrightarrow> c = max now (hp_nextIssueCycle p) + hp_latency p \<and>
       hp_nextIssueCycle p' = c - hp_latency p + hp_initiationInterval p \<and>
       hp_completionCycles p' = filter (\<lambda>d. now < d) (hp_completionCycles p) @ [c] \<and>
       list_all (\<lambda>d. d + hp_initiationInterval p \<le> c) (hp_completionCycles p))"
proof -
  have sp: "spaced (hp_initiationInterval p) (hp_completionCycles p)" "0 < hp_initiationInterval p"
    "length (hp_completionCycles p) \<le> hp_queueDepth p"
    "list_all (\<lambda>c. c + hp_initiationInterval p \<le> hp_nextIssueCycle p + hp_latency p) (hp_completionCycles p)"
    using assms(1) by (simp_all add: hp_inv_def)
  have live: "dropWhile (\<lambda>c. c \<le> now) cs = filter (\<lambda>c. now < c) cs" if "spaced ii cs" "0 < ii" for ii cs
    using that
  proof (induction cs)
    case (Cons x cs)
    then show ?case by (cases "x \<le> now") (auto simp: spaced_def filter_id_conv intro!: filter_True [symmetric])
  qed simp
  let ?live = "filter (\<lambda>c. now < c) (hp_completionCycles p)"
  have eq: "hp_completionCycles (hp_retire now p) = ?live" using live [OF sp(1,2)] by simp
  have len: "length ?live \<le> hp_queueDepth p" using sp(3) length_filter_le [of _ "hp_completionCycles p"] le_trans by blast
  have bound: "list_all (\<lambda>d. d + hp_initiationInterval p \<le> max now (hp_nextIssueCycle p) + hp_latency p) (hp_completionCycles p)"
    using sp(4) by (auto simp: list_all_iff)
  show ?thesis
    using assms(2) len bound unfolding hp_reserve_def Let_def eq
    by (auto simp: count_if_def split: if_splits)
qed

text \<open>C34: backing off by \<open>retryDelay\<close> is enough: when a reservation is refused, the same request made
  that many cycles later is accepted.\<close>

theorem hp_retry_succeeds:
  assumes "hp_inv p" "hp_reserve now True p = (None, p')" "hp_retryDelay now p' = (delay, p'')"
  shows "0 < delay \<and> (\<exists>c q. hp_reserve (now + delay) True p'' = (Some c, q))"
proof -
  let ?cs = "dropWhile (\<lambda>c. c \<le> now) (hp_completionCycles p)"
  from assms(2) have p': "hp_completionCycles p' = ?cs" "hp_queueDepth p' = hp_queueDepth p" "hp_queueDepth p \<le> length ?cs"
    by (auto simp: hp_reserve_def Let_def split: if_splits)
  have inv': "hp_inv p'" by (rule hp_reserve_inv [OF assms(1,2)])
  then have pos: "0 < hp_queueDepth p" and ii: "0 < hp_initiationInterval p'" "spaced (hp_initiationInterval p') ?cs"
    using p' by (auto simp: hp_inv_def)
  then obtain x xs where xs: "?cs = x # xs" using p'(3) by (cases ?cs) auto
  have "now < x" using hp_retire_later [of _ "hp_completionCycles p" x now] assms(1) xs by (auto simp: hp_inv_def)
  have same: "hp_completionCycles (hp_retire now p') = x # xs"
    using \<open>now < x\<close> by (simp add: p' xs)
  have d: "delay = x - now + 1" "hp_completionCycles p'' = x # xs" "hp_queueDepth p'' = hp_queueDepth p"
    using assms(3) p'(3) \<open>now < x\<close> unfolding hp_retryDelay_def Let_def same by (auto simp: p' xs)
  have "x \<le> now + delay" using d \<open>now < x\<close> by simp
  then have "length (dropWhile (\<lambda>c. c \<le> now + delay) (x # xs)) \<le> length xs" by (simp add: length_dropWhile_le)
  moreover have "length (x # xs) \<le> hp_queueDepth p" using inv' p' xs by (simp add: hp_inv_def)
  ultimately have "length (hp_completionCycles (hp_retire (now + delay) p'')) < hp_queueDepth p''"
    using d by simp
  then show ?thesis using d(1) by (auto simp: hp_reserve_def Let_def)
qed

text \<open>A stream of reservations; the completion cycles of the accepted ones in order.\<close>

primrec hp_stream :: "cycle list \<Rightarrow> hw_pipe \<Rightarrow> cycle list" where
  "hp_stream [] p = []"
| "hp_stream (now # ts) p =
    (case hp_reserve now True p of (None, p') \<Rightarrow> hp_stream ts p' | (Some c, p') \<Rightarrow> c # hp_stream ts p')"

lemma hp_stream_after:
  "\<forall>c \<in> set (hp_stream ts p). hp_nextIssueCycle p + hp_latency p \<le> c"
proof (induction ts arbitrary: p)
  case (Cons now ts)
  obtain res p' where r: "hp_reserve now True p = (res, p')" by (cases "hp_reserve now True p")
  then have "hp_latency p' = hp_latency p" "hp_nextIssueCycle p \<le> hp_nextIssueCycle p'"
    "\<And>c. res = Some c \<Longrightarrow> hp_nextIssueCycle p + hp_latency p \<le> c"
    by (auto simp: hp_reserve_def Let_def split: if_splits)
  with Cons [of p'] r show ?case by (cases res) fastforce+
qed simp

text \<open>Throughput: however the requests arrive, the tokens that one unit accepts complete in order
  and at least one initiation interval apart.\<close>

theorem hp_stream_spaced:
  "spaced (hp_initiationInterval p) (hp_stream ts p)"
proof (induction ts arbitrary: p)
  case (Cons now ts)
  obtain res p' where r: "hp_reserve now True p = (res, p')" by (cases "hp_reserve now True p")
  then have p': "hp_latency p' = hp_latency p" "hp_initiationInterval p' = hp_initiationInterval p"
    by (auto simp: hp_reserve_def Let_def split: if_splits)
  show ?case
  proof (cases res)
    case None
    with r Cons [of p'] p' show ?thesis by simp
  next
    case (Some c)
    with r have "c + hp_initiationInterval p \<le> hp_nextIssueCycle p' + hp_latency p'"
      by (auto simp: hp_reserve_def Let_def split: if_splits)
    with hp_stream_after [of ts p'] have "\<forall>d \<in> set (hp_stream ts p'). c + hp_initiationInterval p \<le> d"
      using le_trans by blast
    with Some r Cons [of p'] p' show ?thesis by (simp add: spaced_def)
  qed
qed (simp add: spaced_def)


section \<open>Fairness of the arbiter\<close>

text \<open>
  What the arbiter relies on of its clients: a client leaves a unit alone that cannot issue in
  this cycle, takes at most one token in a cycle, and a token that it takes blocks the unit for
  the rest of the cycle.
\<close>

locale vpu_client =
  fixes run :: "cycle \<Rightarrow> 'c client"
  assumes inv: "hp_inv res \<Longrightarrow> hp_inv (fst (run now (res, c)))"
    and busy: "now < hp_nextIssueCycle res \<Longrightarrow> hp_acceptedTokens (fst (run now (res, c))) = hp_acceptedTokens res \<and>
      now < hp_nextIssueCycle (fst (run now (res, c)))"
    and single: "hp_inv res \<Longrightarrow> hp_acceptedTokens (fst (run now (res, c))) = hp_acceptedTokens res \<or>
      hp_acceptedTokens (fst (run now (res, c))) = hp_acceptedTokens res + 1 \<and>
      now < hp_nextIssueCycle (fst (run now (res, c)))"

locale vpu_clients = rows: vpu_client rows + vectors: vpu_client vectors
  for rows vectors :: "cycle \<Rightarrow> 'c client"
begin


lemma runRows_cases:
  assumes "arb_runRows (rows now) (arb, res, c) = (arb', res', c')" "hp_inv res"
  shows "hp_inv res' \<and> ((arb' = arb \<and> hp_acceptedTokens res' = hp_acceptedTokens res \<and>
      (now < hp_nextIssueCycle res \<longrightarrow> now < hp_nextIssueCycle res')) \<or>
    (\<not> now < hp_nextIssueCycle res \<and> now < hp_nextIssueCycle res' \<and> hp_acceptedTokens res' = hp_acceptedTokens res + 1 \<and>
     arb' = arb\<lparr>arb_rowGrants := arb_rowGrants arb + 1, arb_preferRows := False\<rparr>))"
proof -
  obtain r d where rd: "rows now (res, c) = (r, d)" by (cases "rows now (res, c)")
  from assms rows.inv [of res now c] rows.busy [of now res c] rows.single [of res now c] rd show ?thesis
    by (auto simp: arb_runRows_def split: if_splits)
qed

lemma runVectors_cases:
  assumes "arb_runVectors (vectors now) (arb, res, c) = (arb', res', c')" "hp_inv res"
  shows "hp_inv res' \<and> ((arb' = arb \<and> hp_acceptedTokens res' = hp_acceptedTokens res \<and>
      (now < hp_nextIssueCycle res \<longrightarrow> now < hp_nextIssueCycle res')) \<or>
    (\<not> now < hp_nextIssueCycle res \<and> now < hp_nextIssueCycle res' \<and> hp_acceptedTokens res' = hp_acceptedTokens res + 1 \<and>
     arb' = arb\<lparr>arb_vectorGrants := arb_vectorGrants arb + 1, arb_preferRows := True\<rparr>))"
proof -
  obtain r d where rd: "vectors now (res, c) = (r, d)" by (cases "vectors now (res, c)")
  from assms vectors.inv [of res now c] vectors.busy [of now res c] vectors.single [of res now c] rd show ?thesis
    by (auto simp: arb_runVectors_def split: if_splits)
qed

lemma step_cases:
  assumes "arb_step now (rows now) (vectors now) (arb, res, c) = (arb', res', c')" "hp_inv res"
  shows "hp_inv res' \<and> ((arb' = arb \<and> hp_acceptedTokens res' = hp_acceptedTokens res) \<or>
    (hp_acceptedTokens res' = hp_acceptedTokens res + 1 \<and> now < hp_nextIssueCycle res' \<and>
     (arb' = arb\<lparr>arb_rowGrants := arb_rowGrants arb + 1, arb_preferRows := False\<rparr> \<or>
      arb' = arb\<lparr>arb_vectorGrants := arb_vectorGrants arb + 1, arb_preferRows := True\<rparr>)))"
proof (cases "if arb_grantBased arb then arb_preferRows arb else odd now")
  case True
  obtain a r d where 1: "arb_runRows (rows now) (arb, res, c) = (a, r, d)" by (cases "arb_runRows (rows now) (arb, res, c)")
  then have "arb_runVectors (vectors now) (a, r, d) = (arb', res', c')"
    using assms(1) True by (simp add: arb_step_def Let_def split: if_splits)
  then show ?thesis using runRows_cases [OF 1 assms(2)] runVectors_cases [of now a r d arb' res' c'] by auto
next
  case False
  obtain a r d where 1: "arb_runVectors (vectors now) (arb, res, c) = (a, r, d)" by (cases "arb_runVectors (vectors now) (arb, res, c)")
  then have "arb_runRows (rows now) (a, r, d) = (arb', res', c')"
    using assms(1) False by (simp add: arb_step_def Let_def split: if_splits)
  then show ?thesis using runVectors_cases [OF 1 assms(2)] runRows_cases [of now a r d arb' res' c'] by auto
qed

text \<open>The client that the preference names is served first; a ready one is not passed over.\<close>

lemma preferred_first:
  assumes "arb_step now (rows now) (vectors now) (arb, res, c) = (arb', res', c')" "arb_grantBased arb" "hp_inv res"
    and "arb_preferRows arb" "hp_acceptedTokens (fst (rows now (res, c))) \<noteq> hp_acceptedTokens res"
  shows "arb' = arb\<lparr>arb_rowGrants := arb_rowGrants arb + 1, arb_preferRows := False\<rparr>"
proof -
  obtain a r d where 1: "arb_runRows (rows now) (arb, res, c) = (a, r, d)" by (cases "arb_runRows (rows now) (arb, res, c)")
  have "hp_acceptedTokens r \<noteq> hp_acceptedTokens res"
    using 1 assms(5) by (cases "rows now (res, c)") (auto simp: arb_runRows_def split: if_splits)
  with runRows_cases [OF 1 assms(3)] have a: "a = arb\<lparr>arb_rowGrants := arb_rowGrants arb + 1, arb_preferRows := False\<rparr>"
    "now < hp_nextIssueCycle r" "hp_inv r" by auto
  have "arb_runVectors (vectors now) (a, r, d) = (arb', res', c')"
    using 1 assms(1,2,4) by (simp add: arb_step_def)
  with runVectors_cases [of now a r d arb' res' c'] a show ?thesis by auto
qed

lemma preferred_first_vectors:
  assumes "arb_step now (rows now) (vectors now) (arb, res, c) = (arb', res', c')" "arb_grantBased arb" "hp_inv res"
    and "\<not> arb_preferRows arb" "hp_acceptedTokens (fst (vectors now (res, c))) \<noteq> hp_acceptedTokens res"
  shows "arb' = arb\<lparr>arb_vectorGrants := arb_vectorGrants arb + 1, arb_preferRows := True\<rparr>"
proof -
  obtain a r d where 1: "arb_runVectors (vectors now) (arb, res, c) = (a, r, d)" by (cases "arb_runVectors (vectors now) (arb, res, c)")
  have "hp_acceptedTokens r \<noteq> hp_acceptedTokens res"
    using 1 assms(5) by (cases "vectors now (res, c)") (auto simp: arb_runVectors_def split: if_splits)
  with runVectors_cases [OF 1 assms(3)] have a: "a = arb\<lparr>arb_vectorGrants := arb_vectorGrants arb + 1, arb_preferRows := True\<rparr>"
    "now < hp_nextIssueCycle r" "hp_inv r" by auto
  have "arb_runRows (rows now) (a, r, d) = (arb', res', c')"
    using 1 assms(1,2,4) by (simp add: arb_step_def)
  with runRows_cases [of now a r d arb' res' c'] a show ?thesis by auto
qed

end

text \<open>A client that always has work for the unit: it issues whenever the unit can take a token.\<close>

definition saturated :: "cycle \<Rightarrow> 'c client" where
  "saturated now x = (if now < hp_nextIssueCycle (fst x) then x else (snd (hp_reserve now True (fst x)), snd x))"

lemma reserve_token:
  "hp_reserve now ptr p = (res, p') \<Longrightarrow>
     hp_acceptedTokens p' = hp_acceptedTokens p + (if res = None then 0 else 1) \<and>
     hp_nextIssueCycle p' = (if res = None then hp_nextIssueCycle p else max now (hp_nextIssueCycle p) + hp_initiationInterval p) \<and>
     hp_initiationInterval p' = hp_initiationInterval p \<and> hp_latency p' = hp_latency p \<and> hp_queueDepth p' = hp_queueDepth p"
  by (auto simp: hp_reserve_def Let_def split: if_splits)


lemma reserve_inv_snd: "hp_inv p \<Longrightarrow> hp_inv (snd (hp_reserve now ptr p))"
  by (cases "hp_reserve now ptr p") (simp add: hp_reserve_inv)

lemma saturated_client: "vpu_client (saturated :: cycle \<Rightarrow> 'c client)"
proof
  fix now :: cycle and res :: hw_pipe and c :: 'c
  obtain r p' where rp: "hp_reserve now True res = (r, p')" by (cases "hp_reserve now True res")
  show "hp_inv res \<Longrightarrow> hp_inv (fst (saturated now (res, c)))"
    by (simp add: saturated_def reserve_inv_snd)
  show "now < hp_nextIssueCycle res \<Longrightarrow> hp_acceptedTokens (fst (saturated now (res, c))) = hp_acceptedTokens res \<and>
      now < hp_nextIssueCycle (fst (saturated now (res, c)))"
    by (simp add: saturated_def)
  show "hp_inv res \<Longrightarrow> hp_acceptedTokens (fst (saturated now (res, c))) = hp_acceptedTokens res \<or>
      hp_acceptedTokens (fst (saturated now (res, c))) = hp_acceptedTokens res + 1 \<and>
      now < hp_nextIssueCycle (fst (saturated now (res, c)))"
    using reserve_token [OF rp] by (auto simp: saturated_def rp hp_inv_def split: if_splits)
qed

interpretation sat: vpu_clients saturated saturated
  unfolding vpu_clients_def using saturated_client by blast

lemma saturated_idle:
  assumes "hp_acceptedTokens (fst (saturated now (p, c))) = hp_acceptedTokens p"
  shows "hp_acceptedTokens (fst (saturated now (saturated now (p, c)))) = hp_acceptedTokens p"
proof (cases "now < hp_nextIssueCycle p")
  case True
  then show ?thesis by (simp add: saturated_def)
next
  case False
  obtain r q where rq: "hp_reserve now True p = (r, q)" by (cases "hp_reserve now True p")
  with assms False have "r = None" using reserve_token [OF rq] by (auto simp: saturated_def split: if_splits)
  with rq have q: "hp_completionCycles q = dropWhile (\<lambda>c. c \<le> now) (hp_completionCycles p)"
      "hp_queueDepth q \<le> length (hp_completionCycles q)" "hp_acceptedTokens q = hp_acceptedTokens p"
    by (auto simp: hp_reserve_def Let_def split: if_splits)
  then have "hp_acceptedTokens (snd (hp_reserve now True q)) = hp_acceptedTokens q"
    by (simp add: hp_reserve_def Let_def dropWhile_idem)
  then show ?thesis using False rq q by (simp add: saturated_def)
qed

primrec arb_cycles :: "nat \<Rightarrow> arbiter \<times> hw_pipe \<times> unit \<Rightarrow> arbiter \<times> hw_pipe \<times> unit" where
  "arb_cycles 0 x = x"
| "arb_cycles (Suc n) x = arb_step n (saturated n) (saturated n) (arb_cycles n x)"

text \<open>Fairness of the shared vector unit: with grant-based arbitration two clients that always
  have work get the unit alternately, whatever the unit's latency, initiation interval and
  depth, so their grant counts never differ by more than one.\<close>

theorem arb_grants_alternate:
  assumes "hp_inv p" "arb_cycles n (arb_initial, p, ()) = (arb, p', u)"
  shows "arb_rowGrants arb = arb_vectorGrants arb + (if arb_preferRows arb then 0 else 1)"
proof -
  have "hp_inv p' \<and> arb_grantBased arb \<and>
    arb_rowGrants arb = arb_vectorGrants arb + (if arb_preferRows arb then 0 else 1)"
    using assms(2)
  proof (induction n arbitrary: arb p' u)
    case 0
    then show ?case using assms(1) by (auto simp: arb_initial_def)
  next
    case (Suc n)
    obtain a q v where prev: "arb_cycles n (arb_initial, p, ()) = (a, q, v)" by (cases "arb_cycles n (arb_initial, p, ())")
    with Suc have IH: "hp_inv q" "arb_grantBased a"
      "arb_rowGrants a = arb_vectorGrants a + (if arb_preferRows a then 0 else 1)" by auto
    have st: "arb_step n (saturated n) (saturated n) (a, q, v) = (arb, p', u)" using Suc.prems prev by simp
    have tok: "arb = a" if "hp_acceptedTokens (fst (saturated n (q, v))) = hp_acceptedTokens q"
      using st that saturated_idle [OF that]
      by (cases "saturated n (q, v)") (auto simp: arb_step_def arb_runRows_def arb_runVectors_def Let_def split: if_splits prod.splits)
    show ?case
    proof (cases "hp_acceptedTokens (fst (saturated n (q, v))) = hp_acceptedTokens q")
      case True
      then show ?thesis using tok IH sat.step_cases [OF st IH(1)] by auto
    next
      case False
      then show ?thesis
        using sat.preferred_first [OF st IH(2,1)] sat.preferred_first_vectors [OF st IH(2,1)]
          sat.step_cases [OF st IH(1)] IH by (cases "arb_preferRows a") auto
    qed
  qed
  then show ?thesis by blast
qed


theorem arb_grants_alternate_witness:
  "hp_inv (hp_configure 4 2 8 hp_initial) \<and>
   (\<exists>arb p'. arb_cycles 6 (arb_initial, hp_configure 4 2 8 hp_initial, ()) = (arb, p', ()) \<and>
     arb_rowGrants arb = arb_vectorGrants arb + (if arb_preferRows arb then 0 else 1) \<and> arb_rowGrants arb = 2)"
proof -
  have inv: "hp_inv (hp_configure 4 2 8 hp_initial)" by (rule hp_configure_inv) (simp_all add: hp_initial_def)
  have n6: "(6::nat) = Suc (Suc (Suc (Suc (Suc (Suc 0)))))" by simp
  have "\<exists>arb p'. arb_cycles 6 (arb_initial, hp_configure 4 2 8 hp_initial, ()) = (arb, p', ()) \<and> arb_rowGrants arb = 2"
    unfolding n6 arb_cycles.simps
    by (simp add: arb_initial_def hp_configure_def hp_initial_def arb_step_def arb_runRows_def arb_runVectors_def saturated_def
        hp_reserve_def hp_retire_def)
  then show ?thesis using inv arb_grants_alternate [OF inv] by blast
qed

lemma spaced_length:
  assumes "spaced ii cs" "0 < ii" "list_all (\<lambda>c. lo < c \<and> c \<le> hi) cs"
  shows "length cs \<le> hi - lo"
proof -
  have "distinct cs" using assms(1,2) by (induction cs) (auto simp: spaced_def)
  then have "length cs = card (set cs)" by (simp add: distinct_card)
  also have "\<dots> \<le> card {lo<..hi}" using assms(3) by (intro card_mono) (auto simp: list_all_iff)
  finally show ?thesis by simp
qed

lemma reserve_accepts:
  assumes "hp_inv p" "hp_nextIssueCycle p = now" "hp_latency p \<le> hp_queueDepth p" "2 \<le> hp_initiationInterval p"
  shows "\<exists>p'. hp_reserve now True p = (Some (now + hp_latency p), p')"
proof -
  let ?cs = "dropWhile (\<lambda>c. c \<le> now) (hp_completionCycles p)"
  have f: "spaced (hp_initiationInterval p) ?cs" "0 < hp_initiationInterval p" "0 < hp_latency p"
    "list_all (\<lambda>c. c + hp_initiationInterval p \<le> now + hp_latency p) (hp_completionCycles p)"
    using assms(1,2) by (simp_all add: hp_inv_def spaced_dropWhile)
  have "list_all (\<lambda>c. now < c \<and> c \<le> now + hp_latency p - 2) ?cs"
    unfolding list_all_iff
  proof
    fix c assume c: "c \<in> set ?cs"
    have "now < c" using hp_retire_later [OF _ f(2) c] assms(1) by (simp add: hp_inv_def)
    moreover have "c + hp_initiationInterval p \<le> now + hp_latency p"
      using f(4) set_dropWhileD [OF c] by (auto simp: list_all_iff)
    ultimately show "now < c \<and> c \<le> now + hp_latency p - 2" using assms(4) by simp
  qed
  from spaced_length [OF f(1,2) this] have "length ?cs < hp_queueDepth p" using f(3) assms(3) by simp
  then show ?thesis using assms(2) by (simp add: hp_reserve_def Let_def)
qed

text \<open>The parity policy that the grant-based one replaces: with an initiation interval of two, two
  saturated clients, time starting at an even cycle and a queue as deep as the latency, every
  issue slot goes to the vector client and the row client is never served.\<close>

theorem arb_parity_starves_rows:
  assumes "hp_inv p" "hp_initiationInterval p = 2" "hp_nextIssueCycle p = 0" "hp_latency p \<le> hp_queueDepth p"
    "arb_cycles n (arb_initial\<lparr>arb_grantBased := False\<rparr>, p, ()) = (arb, p', u)"
  shows "arb_rowGrants arb = 0 \<and> arb_vectorGrants arb = (n + 1) div 2"
proof -
  have "hp_inv p' \<and> hp_initiationInterval p' = 2 \<and> hp_latency p' \<le> hp_queueDepth p' \<and> \<not> arb_grantBased arb \<and>
    hp_nextIssueCycle p' = 2 * ((n + 1) div 2) \<and> arb_rowGrants arb = 0 \<and> arb_vectorGrants arb = (n + 1) div 2"
    using assms(5)
  proof (induction n arbitrary: arb p' u)
    case 0
    then show ?case using assms(1-4) by (auto simp: arb_initial_def)
  next
    case (Suc n)
    let ?x0 = "(arb_initial\<lparr>arb_grantBased := False\<rparr>, p, ())"
    obtain a q v where prev: "arb_cycles n ?x0 = (a, q, v)" by (cases "arb_cycles n ?x0")
    with Suc have IH: "hp_inv q" "hp_initiationInterval q = 2" "hp_latency q \<le> hp_queueDepth q" "\<not> arb_grantBased a"
      "hp_nextIssueCycle q = 2 * ((n + 1) div 2)" "arb_rowGrants a = 0" "arb_vectorGrants a = (n + 1) div 2" by auto
    have st: "arb_step n (saturated n) (saturated n) (a, q, v) = (arb, p', u)" using Suc.prems prev by simp
    show ?case
    proof (cases "odd n")
      case True
      then have "n < hp_nextIssueCycle q" using IH(5) by presburger
      then have "arb = a" "p' = q" using st by (auto simp: arb_step_def arb_runRows_def arb_runVectors_def saturated_def Let_def split: if_splits)
      then show ?thesis using IH True by auto
    next
      case False
      then have n: "hp_nextIssueCycle q = n" "Suc (Suc n) div 2 = Suc (n div 2)" using IH(5) by presburger+
      obtain r where r: "hp_reserve n True q = (Some (n + hp_latency q), r)"
        using reserve_accepts [OF IH(1) n(1) IH(3)] IH(2) by auto
      note t = reserve_token [OF r]
      have "n < hp_nextIssueCycle r" using t n(1) IH(2) by simp
      then have "p' = r" "arb = a\<lparr>arb_vectorGrants := arb_vectorGrants a + 1, arb_preferRows := True\<rparr>"
        using st IH(4) False n(1) r t
        by (auto simp: arb_step_def arb_runRows_def arb_runVectors_def saturated_def Let_def split: if_splits)
      then show ?thesis using IH False t n hp_reserve_inv [OF IH(1) r] by auto
    qed
  qed
  then show ?thesis by blast
qed

theorem arb_parity_starves_rows_witness:
  "hp_inv (hp_configure 4 2 8 hp_initial) \<and>
   (\<exists>arb p'. arb_cycles 100 (arb_initial\<lparr>arb_grantBased := False\<rparr>, hp_configure 4 2 8 hp_initial, ()) = (arb, p', ()) \<and>
     arb_rowGrants arb = 0 \<and> arb_vectorGrants arb = 50)"
proof -
  let ?p = "hp_configure 4 2 8 hp_initial"
  have inv: "hp_inv ?p" by (rule hp_configure_inv) (simp_all add: hp_initial_def)
  have "hp_initiationInterval ?p = 2" "hp_nextIssueCycle ?p = 0" "hp_latency ?p \<le> hp_queueDepth ?p"
    by (simp_all add: hp_configure_def hp_initial_def)
  note th = arb_parity_starves_rows [OF inv this, of 100]
  obtain arb p' where run: "arb_cycles 100 (arb_initial\<lparr>arb_grantBased := False\<rparr>, ?p, ()) = (arb, p', ())"
    by (cases "arb_cycles 100 (arb_initial\<lparr>arb_grantBased := False\<rparr>, ?p, ())") auto
  have "((100::nat) + 1) div 2 = 50" by simp
  then show ?thesis using inv run th [OF run] by auto
qed

theorem hp_reserve_timing_witness:
  "\<exists>p. hp_inv p \<and> fst (hp_reserve 3 True p) = Some 10 \<and> list_all (\<lambda>d. d + 2 \<le> 10) (hp_completionCycles p) \<and> hp_completionCycles p = [4, 8]"
proof -
  let ?p = "(hp_configure 4 2 8 hp_initial)\<lparr>hp_nextIssueCycle := 6, hp_completionCycles := [4, 8], hp_maxOccupancy := 2\<rparr>"
  have inv: "hp_inv ?p" by (simp add: hp_inv_def hp_configure_def hp_initial_def spaced_def)
  obtain res p' where r: "hp_reserve 3 True ?p = (res, p')" by (cases "hp_reserve 3 True ?p")
  have "count_if (\<lambda>c. 3 < c) (hp_completionCycles ?p) \<noteq> hp_queueDepth ?p"
    by (simp add: hp_configure_def)
  with hp_reserve_timing [OF inv r] obtain c where "res = Some c" "c = max 3 6 + 4"
      "list_all (\<lambda>d. d + 2 \<le> c) [4, 8 :: nat]"
    by (cases res) (auto simp: hp_configure_def)
  then show ?thesis using inv r by (intro exI [of _ ?p]) auto
qed

theorem hp_retry_succeeds_witness:
  "\<exists>p p'. hp_inv p \<and> hp_reserve 5 True p = (None, p') \<and> fst (hp_retryDelay 5 p') = 4 \<and>
     (\<exists>c q. hp_reserve (5 + 4) True (snd (hp_retryDelay 5 p')) = (Some c, q))"
proof -
  let ?p = "(hp_configure 4 1 1 hp_initial)\<lparr>hp_nextIssueCycle := 5, hp_completionCycles := [8], hp_maxOccupancy := 1\<rparr>"
  let ?p' = "?p\<lparr>hp_backpressureEvents := 1\<rparr>"
  have inv: "hp_inv ?p" by (simp add: hp_inv_def hp_configure_def hp_initial_def spaced_def)
  have r: "hp_reserve 5 True ?p = (None, ?p')"
    by (simp add: hp_reserve_def hp_retire_def hp_configure_def hp_initial_def)
  have d: "hp_retryDelay 5 ?p' = (4, ?p')"
    by (simp add: hp_retryDelay_def hp_retire_def hp_configure_def hp_initial_def)
  show ?thesis using inv r d hp_retry_succeeds [OF inv r d] by (intro exI [of _ ?p] exI [of _ ?p']) simp
qed

end
