(* ===== verification/Group_Base.thy ===== *)
theory Group_Base
  imports Byte_Codec
begin

text \<open>
  \<^verbatim>\<open>golem/groupctrl\<close>, the vocabulary of the group control endpoint: its messages, the K/V request,
  the parameters with their parsing and validation, the effects that its operations have on
  links, memory and callbacks, and the control mailbox in the local global memory.

  Links, DMA engine, local memory port and client callbacks are outside this component: an
  operation lists what it does to them as \<open>gc_effect\<close> values, in order.
\<close>

unbundle bit_operations_syntax

section \<open>Messages\<close>

datatype GroupCtrlMsgType =
    REQUEST | GRANT | DONE | FINISHED | GROUP_DONE
  | ATTENTION_KV_REQUEST | ATTENTION_KV_DELIVERY | ATTENTION_KV_ACK | ATTENTION_KV_CANCEL

datatype GroupCtrlRole = WORKER | MANAGER

record GroupCtrlMsg =
  ms_type :: GroupCtrlMsgType
  ms_groupId :: nat
  ms_workerSlot :: nat
  ms_window :: nat
  ms_status :: nat
  ms_reqSeq :: nat
  ms_srcAddr :: addr
  ms_dstAddr :: addr
  ms_bytes :: nat
  ms_targetNode :: nat
  ms_generation :: nat
  ms_jobTag :: nat
  ms_queryGroup :: nat
  ms_kvTileIndex :: nat
  ms_physicalKvTileIndex :: nat
  ms_numKvTiles :: nat
  ms_kvLength :: nat
  ms_kvTileRows :: nat
  ms_tileRows :: nat
  ms_rowsPerBand :: nat
  ms_headDim :: nat
  ms_nodeStrideBytes :: nat
  ms_kAddr :: addr
  ms_vAddr :: addr
  ms_kDstAddr :: addr
  ms_vDstAddr :: addr
  ms_kData :: "byte list"
  ms_vData :: "byte list"

definition new_msg :: "GroupCtrlMsgType \<Rightarrow> GroupCtrlMsg" where
  "new_msg t = \<lparr>ms_type = t, ms_groupId = 0, ms_workerSlot = 0, ms_window = 0, ms_status = 0,
     ms_reqSeq = 0, ms_srcAddr = 0, ms_dstAddr = 0, ms_bytes = 0, ms_targetNode = 0,
     ms_generation = 0, ms_jobTag = 0, ms_queryGroup = 0, ms_kvTileIndex = 0,
     ms_physicalKvTileIndex = 0, ms_numKvTiles = 0, ms_kvLength = 0, ms_kvTileRows = 0,
     ms_tileRows = 0, ms_rowsPerBand = 0, ms_headDim = 0, ms_nodeStrideBytes = 0, ms_kAddr = 0,
     ms_vAddr = 0, ms_kDstAddr = 0, ms_vDstAddr = 0, ms_kData = [], ms_vData = []\<rparr>"

record AttentionKvRequest =
  rq_generation :: nat
  rq_jobTag :: nat
  rq_queryGroup :: nat
  rq_kvTileIndex :: nat
  rq_physicalKvTileIndex :: nat
  rq_numKvTiles :: nat
  rq_kvLength :: nat
  rq_kvTileRows :: nat
  rq_tileRows :: nat
  rq_rowsPerBand :: nat
  rq_headDim :: nat
  rq_nodeStrideBytes :: nat
  rq_kAddr :: addr
  rq_vAddr :: addr
  rq_kDstAddr :: addr
  rq_vDstAddr :: addr

definition attentionKvRequestFromMessage :: "GroupCtrlMsg \<Rightarrow> AttentionKvRequest" where
  "attentionKvRequestFromMessage m = \<lparr>rq_generation = ms_generation m, rq_jobTag = ms_jobTag m,
     rq_queryGroup = ms_queryGroup m, rq_kvTileIndex = ms_kvTileIndex m,
     rq_physicalKvTileIndex = ms_physicalKvTileIndex m, rq_numKvTiles = ms_numKvTiles m,
     rq_kvLength = ms_kvLength m, rq_kvTileRows = ms_kvTileRows m, rq_tileRows = ms_tileRows m,
     rq_rowsPerBand = ms_rowsPerBand m, rq_headDim = ms_headDim m,
     rq_nodeStrideBytes = ms_nodeStrideBytes m, rq_kAddr = ms_kAddr m, rq_vAddr = ms_vAddr m,
     rq_kDstAddr = ms_kDstAddr m, rq_vDstAddr = ms_vDstAddr m\<rparr>"

definition fillAttentionKvMessage :: "GroupCtrlMsg \<Rightarrow> AttentionKvRequest \<Rightarrow> GroupCtrlMsg" where
  "fillAttentionKvMessage m r = m\<lparr>ms_generation := rq_generation r, ms_jobTag := rq_jobTag r,
     ms_queryGroup := rq_queryGroup r, ms_kvTileIndex := rq_kvTileIndex r,
     ms_physicalKvTileIndex := rq_physicalKvTileIndex r, ms_numKvTiles := rq_numKvTiles r,
     ms_kvLength := rq_kvLength r, ms_kvTileRows := rq_kvTileRows r, ms_tileRows := rq_tileRows r,
     ms_rowsPerBand := rq_rowsPerBand r, ms_headDim := rq_headDim r,
     ms_nodeStrideBytes := rq_nodeStrideBytes r, ms_kAddr := rq_kAddr r, ms_vAddr := rq_vAddr r,
     ms_kDstAddr := rq_kDstAddr r, ms_vDstAddr := rq_vDstAddr r\<rparr>"

lemma request_message_roundtrip [simp]:
  "attentionKvRequestFromMessage (fillAttentionKvMessage m r) = r"
  by (simp add: attentionKvRequestFromMessage_def fillAttentionKvMessage_def)

section \<open>Effects\<close>

datatype kv_stat =
    StatKvRequests | StatKvManagerLoads | StatKvManagerBytes | StatKvCoalesced | StatKvDeliveries
  | StatKvDeliveryBytes | StatKvSlotStalls | StatKvCancels | StatKvMaxSlots
  | StatKvManagerLookaheadLoads | StatKvManagerLookaheadHits

text \<open>
  \<open>SendRsp slot m\<close>: the manager sends to a worker; \<open>SendReq m\<close>: a worker sends to its manager;
  \<open>Dma source bytes destination slot epoch valueOperand\<close>, \<open>ReadLocal source bytes tag slot epoch\<close>,
  \<open>WriteLocal destination bytes tag requestId\<close>: requests with what their completion callbacks
  capture; \<open>KReady\<close> and \<open>Callback\<close>: client callbacks; \<open>Stat\<close>: \<open>addData\<close> of a statistic.
\<close>

datatype gc_effect =
    SendRsp nat GroupCtrlMsg
  | SendReq GroupCtrlMsg
  | Dma addr nat addr nat nat bool
  | ReadLocal addr nat nat nat nat
  | WriteLocal addr "byte list" nat nat
  | KReady nat bool
  | Callback nat bool
  | Stat kv_stat nat

definition sendRsp :: "nat \<Rightarrow> GroupCtrlMsg \<Rightarrow> gc_effect list" where
  "sendRsp slot m =
    (if slot \<ge> 4 then []
     else [SendRsp slot (if ms_type m = GRANT \<and> ms_reqSeq m = 0 then m\<lparr>ms_window := 0\<rparr> else m)])"

section \<open>Parameters\<close>

text \<open>
  \<open>std::stoull\<close>/\<open>std::stoll\<close> with base 0: white space, a sign, a base prefix, then the longest run
  of digits; \<open>invalid_argument\<close> without digits, \<open>out_of_range\<close> outside 64 bits. \<open>stoull\<close>
  accepts a minus sign and negates modulo \<open>2^64\<close>.
\<close>

definition is_space :: "char \<Rightarrow> bool" where
  "is_space c \<longleftrightarrow> c = CHR 0x20 \<or> (9 \<le> (of_char c :: nat) \<and> (of_char c :: nat) \<le> 13)"

definition digit_value :: "char \<Rightarrow> nat option" where
  "digit_value c =
    (let n = (of_char c :: nat)
     in if 48 \<le> n \<and> n \<le> 57 then Some (n - 48)
        else if 97 \<le> n \<and> n \<le> 122 then Some (n - 97 + 10)
        else if 65 \<le> n \<and> n \<le> 90 then Some (n - 65 + 10) else None)"

definition is_digit :: "nat \<Rightarrow> char \<Rightarrow> bool" where
  "is_digit base c = (case digit_value c of None \<Rightarrow> False | Some d \<Rightarrow> d < base)"

definition digits_value :: "nat \<Rightarrow> string \<Rightarrow> nat" where
  "digits_value base ds = foldl (\<lambda>acc c. acc * base + the (digit_value c)) 0 ds"

definition number_base :: "string \<Rightarrow> nat \<times> string" where
  "number_base s =
    (case s of
       a # b # c # _ \<Rightarrow>
         if a = CHR ''0'' \<and> (b = CHR ''x'' \<or> b = CHR ''X'') \<and> is_digit 16 c then (16, drop 2 s)
         else if a = CHR ''0'' then (8, s) else (10, s)
     | a # _ \<Rightarrow> if a = CHR ''0'' then (8, s) else (10, s)
     | [] \<Rightarrow> (10, s))"

definition parse_number :: "string \<Rightarrow> golem_error + (bool \<times> nat)" where
  "parse_number s0 =
    (let s1 = dropWhile is_space s0;
         neg = (s1 \<noteq> [] \<and> hd s1 = CHR ''-'');
         s2 = (if s1 \<noteq> [] \<and> (hd s1 = CHR ''-'' \<or> hd s1 = CHR ''+'') then tl s1 else s1);
         bs = number_base s2;
         ds = takeWhile (is_digit (fst bs)) (snd bs)
     in if ds = [] then Inl (InvalidArgument ''stoull'')
        else Inr (neg, digits_value (fst bs) ds))"

definition stoull :: "string \<Rightarrow> golem_error + nat" where
  "stoull s =
    (case parse_number s of
       Inl e \<Rightarrow> Inl e
     | Inr (neg, n) \<Rightarrow>
         if n \<ge> 2 ^ 64 then Inl (InvalidArgument ''out_of_range'')
         else Inr (if neg then u64 (2 ^ 64 - n) else n))"

definition stoll :: "string \<Rightarrow> golem_error + int" where
  "stoll s =
    (case parse_number s of
       Inl e \<Rightarrow> Inl e
     | Inr (neg, n) \<Rightarrow>
         if (neg \<and> n > 2 ^ 63) \<or> (\<not> neg \<and> n \<ge> 2 ^ 63) then Inl (InvalidArgument ''out_of_range'')
         else Inr (if neg then - int n else int n))"

text \<open>The parameters of a component, as \<open>params.find\<close> sees them.\<close>

type_synonym params = "string \<Rightarrow> string option"

definition parseU32Param :: "params \<Rightarrow> string \<Rightarrow> nat \<Rightarrow> golem_error + nat" where
  "parseU32Param params key defaultValue =
    (case params key of
       None \<Rightarrow> Inr defaultValue
     | Some value \<Rightarrow>
         if value = [] then Inr defaultValue
         else (case stoull value of
                 Inl e \<Rightarrow> Inl (RuntimeError ''GroupCtrlEndpoint invalid u32 param'')
               | Inr n \<Rightarrow> Inr (u32 n)))"

definition parseI32Param :: "params \<Rightarrow> string \<Rightarrow> int \<Rightarrow> golem_error + int" where
  "parseI32Param params key defaultValue =
    (case params key of
       None \<Rightarrow> Inr defaultValue
     | Some value \<Rightarrow>
         if value = [] then Inr defaultValue
         else (case stoll value of
                 Inl e \<Rightarrow> Inl (RuntimeError ''GroupCtrlEndpoint invalid i32 param'')
               | Inr i \<Rightarrow> Inr (signed_take_bit 31 i)))"

definition parseU64Param :: "params \<Rightarrow> string \<Rightarrow> nat \<Rightarrow> golem_error + nat" where
  "parseU64Param params key defaultValue =
    (case params key of
       None \<Rightarrow> Inr defaultValue
     | Some value \<Rightarrow>
         if value = [] then Inr defaultValue
         else (case stoull value of
                 Inl e \<Rightarrow> Inl (RuntimeError ''GroupCtrlEndpoint invalid u64 param'')
               | Inr n \<Rightarrow> Inr n))"

definition parseRole :: "string \<Rightarrow> GroupCtrlRole" where
  "parseRole role = (if role = ''manager'' then MANAGER else WORKER)"


text \<open>Sequencing of fallible steps.\<close>

definition bindE :: "'e + 'a \<Rightarrow> ('a \<Rightarrow> 'e + 'b) \<Rightarrow> 'e + 'b" where
  "bindE m f = (case m of Inl e \<Rightarrow> Inl e | Inr x \<Rightarrow> f x)"

lemma bindE_simps [simp]: "bindE (Inl e) f = Inl e" "bindE (Inr x) f = f x"
  by (simp_all add: bindE_def)

lemma bindE_InrD: "bindE m f = Inr y \<Longrightarrow> \<exists>x. m = Inr x \<and> f x = Inr y"
  by (cases m) auto

record gc_config =
  gc_role :: GroupCtrlRole
  gc_coreId :: nat
  gc_groupId :: nat
  gc_workerSlot :: int
  gc_queueDepth :: nat
  gc_maxInflightPerNode :: nat
  gc_maxGrantsPerSchedule :: nat
  gc_numMemoryNodes :: nat
  gc_gmBaseAddr :: addr
  gc_gmSize :: nat
  gc_kvEnable :: bool
  gc_kvLookahead :: bool
  gc_kvSlotCount :: nat
  gc_kvTileBytes :: nat
  gc_kvScratchOffset :: nat
  gc_kvExpectedWorkers :: nat

text \<open>
  The constructor: initialisers in declaration order, the two clamps, the dimension check.
  \<open>enable\<close> and \<open>lookahead\<close> are the results of \<open>params.find<bool>\<close> of the simulator core.
\<close>

definition make_config :: "params \<Rightarrow> bool \<Rightarrow> bool \<Rightarrow> golem_error + gc_config" where
  "make_config params enable lookahead =
    bindE (parseU32Param params ''core_id'' 0) (\<lambda>coreId.
    bindE (parseU32Param params ''group_id'' 0) (\<lambda>groupId.
    bindE (parseI32Param params ''worker_slot'' (- 1)) (\<lambda>workerSlot.
    bindE (parseU32Param params ''queue_depth'' 32) (\<lambda>queueDepth.
    bindE (parseU32Param params ''max_inflight_per_node'' 2) (\<lambda>maxInflight.
    bindE (parseU32Param params ''max_grants_per_schedule'' 1) (\<lambda>maxGrants.
    bindE (parseU32Param params ''num_memory_nodes'' 5) (\<lambda>nodes.
    bindE (parseU64Param params ''gm_base_addr'' 0) (\<lambda>gmBase.
    bindE (parseU64Param params ''gm_size'' 0) (\<lambda>gmSize.
    bindE (parseU32Param params ''attention_kv_distribution_slots'' 2) (\<lambda>kvSlots.
    bindE (parseU32Param params ''attention_kv_distribution_tile_bytes'' 16384) (\<lambda>tileBytes.
    bindE (parseU64Param params ''attention_kv_distribution_scratch_offset'' 0x40000) (\<lambda>scratch.
    bindE (parseU32Param params ''attention_kv_distribution_expected_workers'' 4) (\<lambda>expected.
    bindE (parseI32Param params ''verbose'' 0) (\<lambda>verbose.
      if kvSlots = 0 \<or> tileBytes = 0 \<or> expected = 0 \<or> expected > 4
      then Inl (RuntimeError ''GroupCtrlEndpoint invalid Attention K/V distribution dimensions'')
      else Inr \<lparr>gc_role = parseRole (case params ''role'' of None \<Rightarrow> ''worker'' | Some r \<Rightarrow> r),
        gc_coreId = coreId, gc_groupId = groupId, gc_workerSlot = workerSlot, gc_queueDepth = queueDepth,
        gc_maxInflightPerNode = (if maxInflight = 0 then 1 else maxInflight),
        gc_maxGrantsPerSchedule = (if maxGrants = 0 then 1 else maxGrants),
        gc_numMemoryNodes = nodes, gc_gmBaseAddr = gmBase, gc_gmSize = gmSize, gc_kvEnable = enable,
        gc_kvLookahead = lookahead, gc_kvSlotCount = kvSlots, gc_kvTileBytes = tileBytes,
        gc_kvScratchOffset = scratch, gc_kvExpectedWorkers = expected\<rparr>))))))))))))))"

text \<open>The checks of \<open>setup\<close> that do not concern links; \<open>hasGm\<close> says that a memory is bound.\<close>

definition setup_checks :: "gc_config \<Rightarrow> bool \<Rightarrow> golem_error + unit" where
  "setup_checks c hasGm =
    (if gc_kvEnable c \<and> \<not> hasGm then Inl (RuntimeError ''Attention K/V distribution requires GlobalMemory'')
     else if gc_kvEnable c \<and> gc_role c = MANAGER then
       let scratchBytes = u64 (gc_kvSlotCount c * 2 * gc_kvTileBytes c)
       in if gc_kvScratchOffset c < 0x2000 \<or> gc_kvScratchOffset c > gc_gmSize c \<or>
             scratchBytes > gc_gmSize c - gc_kvScratchOffset c \<or>
             u64 (gc_kvScratchOffset c + scratchBytes) > gc_gmSize c - 64
          then Inl (RuntimeError ''invalid Attention K/V scratch'')
          else Inr ()
     else Inr ())"

text \<open>Scratch address of the K or V tile of a manager slot.\<close>

definition scratch_base :: "gc_config \<Rightarrow> nat \<Rightarrow> bool \<Rightarrow> addr" where
  "scratch_base c slotIndex valueOperand =
    gc_gmBaseAddr c + gc_kvScratchOffset c + slotIndex * 2 * gc_kvTileBytes c +
      (if valueOperand then gc_kvTileBytes c else 0)"

section \<open>The control mailbox\<close>

text \<open>The bytes of the local global memory from its base address on.\<close>

record gm_store =
  gs_base :: addr
  gs_bytes :: "byte list"

definition read_u64_from_storage :: "addr \<Rightarrow> gm_store \<Rightarrow> golem_error + 64 word" where
  "read_u64_from_storage a st =
    (if a < gs_base st \<or> a + 8 > gs_base st + length (gs_bytes st) then Inl (RuntimeError ''read_u64_from_storage out of range'')
     else Inr (le_word (range_of (gs_bytes st) (a - gs_base st) 8)))"

definition write_u64_to_storage :: "addr \<Rightarrow> 64 word \<Rightarrow> gm_store \<Rightarrow> golem_error + gm_store" where
  "write_u64_to_storage a v st =
    (if a < gs_base st \<or> a + 8 > gs_base st + length (gs_bytes st) then Inl (RuntimeError ''write_u64_to_storage out of range'')
     else Inr (st\<lparr>gs_bytes := put_range (a - gs_base st) (le_bytes 8 v) (gs_bytes st)\<rparr>))"

definition CTRL_LOCAL_MAILBOX_BASE :: nat where "CTRL_LOCAL_MAILBOX_BASE = 0x1900"
definition CTRL_LOCAL_REQ_SEQ_OFF :: nat where "CTRL_LOCAL_REQ_SEQ_OFF = 0x00"
definition CTRL_LOCAL_REQ_VALID_OFF :: nat where "CTRL_LOCAL_REQ_VALID_OFF = 0x08"
definition CTRL_LOCAL_GRANT_SEQ_OFF :: nat where "CTRL_LOCAL_GRANT_SEQ_OFF = 0x10"
definition CTRL_LOCAL_GRANT_WINDOW_OFF :: nat where "CTRL_LOCAL_GRANT_WINDOW_OFF = 0x18"
definition CTRL_LOCAL_DONE_SEQ_OFF :: nat where "CTRL_LOCAL_DONE_SEQ_OFF = 0x20"
definition CTRL_LOCAL_DONE_VALID_OFF :: nat where "CTRL_LOCAL_DONE_VALID_OFF = 0x28"
definition CTRL_LOCAL_FINISHED_OFF :: nat where "CTRL_LOCAL_FINISHED_OFF = 0x30"
definition CTRL_LOCAL_GROUP_DONE_OFF :: nat where "CTRL_LOCAL_GROUP_DONE_OFF = 0x38"
definition CTRL_LOCAL_REQ_SRC_OFF :: nat where "CTRL_LOCAL_REQ_SRC_OFF = 0x40"
definition CTRL_LOCAL_REQ_DST_OFF :: nat where "CTRL_LOCAL_REQ_DST_OFF = 0x48"
definition CTRL_LOCAL_REQ_BYTES_OFF :: nat where "CTRL_LOCAL_REQ_BYTES_OFF = 0x50"
definition CTRL_LOCAL_REQ_NODE_OFF :: nat where "CTRL_LOCAL_REQ_NODE_OFF = 0x58"
definition CTRL_LOCAL_REQ_WINDOW_OFF :: nat where "CTRL_LOCAL_REQ_WINDOW_OFF = 0x60"
definition GOLEM_WCP_COARSE_FINISHED_FLAG :: "64 word" where "GOLEM_WCP_COARSE_FINISHED_FLAG = 0x8000000000000000"

definition mailboxAddr :: "gc_config \<Rightarrow> nat \<Rightarrow> addr" where
  "mailboxAddr c off = gc_gmBaseAddr c + CTRL_LOCAL_MAILBOX_BASE + off"

definition readMailbox :: "gc_config \<Rightarrow> nat \<Rightarrow> gm_store \<Rightarrow> golem_error + 64 word" where
  "readMailbox c off st = read_u64_from_storage (mailboxAddr c off) st"

definition writeMailbox :: "gc_config \<Rightarrow> nat \<Rightarrow> 64 word \<Rightarrow> gm_store \<Rightarrow> golem_error + gm_store" where
  "writeMailbox c off v st = write_u64_to_storage (mailboxAddr c off) v st"

definition readMailboxU32 :: "gc_config \<Rightarrow> nat \<Rightarrow> gm_store \<Rightarrow> golem_error + 32 word" where
  "readMailboxU32 c off st = bindE (readMailbox c off st) (\<lambda>v. Inr (ucast (v AND 0xffffffff)))"

definition writeMailboxU32 :: "gc_config \<Rightarrow> nat \<Rightarrow> 32 word \<Rightarrow> gm_store \<Rightarrow> golem_error + gm_store" where
  "writeMailboxU32 c off value st =
    (let baseOff = off - off mod 8;
         sh = (off - baseOff) * 8;
         mask = push_bit sh (0xffffffff :: 64 word)
     in bindE (readMailbox c baseOff st) (\<lambda>cur.
          writeMailbox c baseOff ((cur AND NOT mask) OR push_bit sh (ucast value)) st))"

subsection \<open>Reading back what was written\<close>

definition in_store :: "addr \<Rightarrow> gm_store \<Rightarrow> bool" where
  "in_store a st \<longleftrightarrow> gs_base st \<le> a \<and> a + 8 \<le> gs_base st + length (gs_bytes st)"

lemma read_u64_ok: "in_store a st \<Longrightarrow> \<exists>v. read_u64_from_storage a st = Inr v"
  by (simp add: in_store_def read_u64_from_storage_def)

lemma write_u64_ok:
  "in_store a st \<Longrightarrow> write_u64_to_storage a v st =
     Inr (st\<lparr>gs_bytes := put_range (a - gs_base st) (le_bytes 8 v) (gs_bytes st)\<rparr>)"
  by (simp add: in_store_def write_u64_to_storage_def)

lemma read_write_u64:
  assumes "write_u64_to_storage a v st = Inr st'"
  shows "read_u64_from_storage a st' = Inr v"
proof -
  from assms have i: "in_store a st"
    and st': "st' = st\<lparr>gs_bytes := put_range (a - gs_base st) (le_bytes 8 v) (gs_bytes st)\<rparr>"
    by (auto simp: in_store_def write_u64_to_storage_def split: if_splits)
  have "range_of (gs_bytes st') (a - gs_base st) (length (le_bytes 8 v)) = le_bytes 8 v"
    unfolding st' using range_of_put_range [of "a - gs_base st" "le_bytes 8 v" "gs_bytes st"] i by (auto simp: in_store_def)
  then show ?thesis using i by (simp add: read_u64_from_storage_def st' in_store_def le_roundtrip)
qed

lemma read_write_u64_other:
  assumes "write_u64_to_storage a v st = Inr st'" "b + 8 \<le> a \<or> a + 8 \<le> b"
  shows "read_u64_from_storage b st' = read_u64_from_storage b st"
proof -
  from assms have i: "in_store a st"
    and st': "st' = st\<lparr>gs_bytes := put_range (a - gs_base st) (le_bytes 8 v) (gs_bytes st)\<rparr>"
    by (auto simp: in_store_def write_u64_to_storage_def split: if_splits)
  have "range_of (gs_bytes st') (b - gs_base st) 8 = range_of (gs_bytes st) (b - gs_base st) 8" if "in_store b st"
    unfolding st' using i assms(2) that
    by (intro nth_equalityI) (auto simp: nth_range_of nth_put_range in_store_def)
  then show ?thesis by (auto simp: read_u64_from_storage_def st' in_store_def)
qed

lemma writeMailboxU32_reads:
  assumes "off mod 8 = 0" "writeMailboxU32 c off v st = Inr st'"
  shows "readMailboxU32 c off st' = Inr v"
    and "\<exists>old new. readMailbox c off st = Inr old \<and> readMailbox c off st' = Inr new \<and> drop_bit 32 new = drop_bit 32 old"
    and "off2 mod 8 = 0 \<Longrightarrow> off2 \<noteq> off \<Longrightarrow> readMailbox c off2 st' = readMailbox c off2 st"
proof -
  from assms obtain cur where cur: "readMailbox c off st = Inr cur"
    and w: "writeMailbox c off ((cur AND NOT 0xffffffff) OR ucast v) st = Inr st'"
    by (auto simp: writeMailboxU32_def Let_def dest: bindE_InrD)
  define new where "new = (cur AND NOT 0xffffffff) OR ucast v"
  have rd: "readMailbox c off st' = Inr new"
    using read_write_u64 w by (auto simp: readMailbox_def writeMailbox_def new_def)
  have m: "(0xffffffff :: 64 word) = mask 32" by (simp add: mask_eq_exp_minus_1)
  have low: "ucast (new AND 0xffffffff) = v"
    unfolding new_def m by (rule bit_eqI) (auto simp: bit_simps)
  have high: "drop_bit 32 new = drop_bit 32 cur"
    unfolding new_def m by (rule bit_eqI) (auto simp: bit_simps dest: bit_imp_le_length)
  show "readMailboxU32 c off st' = Inr v" using rd low by (simp add: readMailboxU32_def)
  show "\<exists>old new. readMailbox c off st = Inr old \<and> readMailbox c off st' = Inr new \<and> drop_bit 32 new = drop_bit 32 old"
    using rd high cur by blast
  show "readMailbox c off2 st' = readMailbox c off2 st" if "off2 mod 8 = 0" "off2 \<noteq> off"
  proof -
    have "off2 + 8 \<le> off \<or> off + 8 \<le> off2" using that assms(1) by presburger
    then show ?thesis
      using read_write_u64_other w by (auto simp: readMailbox_def writeMailbox_def mailboxAddr_def)
  qed
qed

text \<open>The mailbox words: a 32-bit write at an 8-aligned mailbox offset is read back, keeps the upper
  half of its word, and changes no other mailbox word.\<close>

theorem mailbox_roundtrip:
  assumes "off mod 8 = 0" "writeMailboxU32 c off v st = Inr st'"
  shows "readMailboxU32 c off st' = Inr v \<and>
    (\<exists>old new. readMailbox c off st = Inr old \<and> readMailbox c off st' = Inr new \<and> drop_bit 32 new = drop_bit 32 old) \<and>
    (\<forall>off2. off2 mod 8 = 0 \<and> off2 \<noteq> off \<longrightarrow> readMailbox c off2 st' = readMailbox c off2 st)"
  by (intro conjI allI impI writeMailboxU32_reads(1,2) [OF assms], elim conjE, rule writeMailboxU32_reads(3) [OF assms])


text \<open>The default parameters, with the distribution switched on for a manager.\<close>

definition demo_config :: "GroupCtrlRole \<Rightarrow> gc_config" where
  "demo_config r = \<lparr>gc_role = r, gc_coreId = 0, gc_groupId = 0, gc_workerSlot = 0, gc_queueDepth = 32,
      gc_maxInflightPerNode = 2, gc_maxGrantsPerSchedule = 1, gc_numMemoryNodes = 5, gc_gmBaseAddr = 0,
      gc_gmSize = 0x200000, gc_kvEnable = True, gc_kvLookahead = True, gc_kvSlotCount = 2,
      gc_kvTileBytes = 16384, gc_kvScratchOffset = 0x40000, gc_kvExpectedWorkers = 4\<rparr>"

theorem mailbox_roundtrip_witness:
  "\<exists>st'. writeMailboxU32 (demo_config WORKER) 0x08 7 \<lparr>gs_base = 0, gs_bytes = replicate 0x2000 0\<rparr> = Inr st' \<and>
     readMailboxU32 (demo_config WORKER) 0x08 st' = Inr 7"
proof -
  let ?c = "demo_config WORKER"
  let ?st = "\<lparr>gs_base = 0, gs_bytes = replicate 0x2000 0\<rparr>"
  have a: "in_store (mailboxAddr ?c 8) ?st" by (simp add: in_store_def mailboxAddr_def demo_config_def CTRL_LOCAL_MAILBOX_BASE_def)
  from read_u64_ok [OF a] obtain v where v: "readMailbox ?c 8 ?st = Inr v" by (auto simp: readMailbox_def)
  then obtain st' where w: "writeMailboxU32 ?c 8 7 ?st = Inr st'"
    using write_u64_ok [OF a] by (auto simp: writeMailboxU32_def writeMailbox_def Let_def)
  have "(8::nat) mod 8 = 0" by simp
  from mailbox_roundtrip [OF this w] w show ?thesis by auto
qed

text \<open>C37: the manager's scratch tiles: when \<open>setup\<close> accepts the configuration and the scratch size does
  not overflow 64 bits, the K and V tiles of all slots lie inside the local memory, above the
  mailbox page and below the last 64 bytes, and no two of them overlap.\<close>

theorem setup_scratch_safe:
  assumes "setup_checks c True = Inr ()" "gc_kvEnable c" "gc_role c = MANAGER"
    and "gc_kvSlotCount c * 2 * gc_kvTileBytes c < 2 ^ 64" "gc_gmSize c < 2 ^ 63" "i < gc_kvSlotCount c"
  shows "gc_gmBaseAddr c + 0x2000 \<le> scratch_base c i v \<and>
    scratch_base c i v + gc_kvTileBytes c + 64 \<le> gc_gmBaseAddr c + gc_gmSize c \<and>
    (\<forall>j w. j < gc_kvSlotCount c \<and> (j, w) \<noteq> (i, v) \<longrightarrow>
      scratch_base c i v + gc_kvTileBytes c \<le> scratch_base c j w \<or> scratch_base c j w + gc_kvTileBytes c \<le> scratch_base c i v)"
proof -
  let ?t = "gc_kvTileBytes c"
  let ?n = "gc_kvSlotCount c"
  have ok: "0x2000 \<le> gc_kvScratchOffset c" "gc_kvScratchOffset c \<le> gc_gmSize c"
    "?n * 2 * ?t \<le> gc_gmSize c - gc_kvScratchOffset c" "u64 (gc_kvScratchOffset c + ?n * 2 * ?t) \<le> gc_gmSize c - 64"
    using assms(1-4) by (auto simp: setup_checks_def Let_def split: if_splits)
  have "gc_kvScratchOffset c + ?n * 2 * ?t \<le> gc_gmSize c" using ok(2,3) by linarith
  moreover from this have "u64 (gc_kvScratchOffset c + ?n * 2 * ?t) = gc_kvScratchOffset c + ?n * 2 * ?t"
    using assms(5) by (intro u64_id) simp
  ultimately have fit: "gc_kvScratchOffset c + ?n * 2 * ?t + 64 \<le> gc_gmSize c" using ok by linarith
  have tile: "scratch_base c j w = gc_gmBaseAddr c + gc_kvScratchOffset c + (2 * j + (if w then 1 else 0)) * ?t" for j w
    by (simp add: scratch_base_def algebra_simps)
  have inside: "(k + 1) * ?t \<le> ?n * 2 * ?t" if "k < 2 * ?n" for k
    using that mult_le_mono1 [of "k + 1" "?n * 2" ?t] by simp
  have "(2 * i + (if v then 1 else 0) + 1) * ?t \<le> ?n * 2 * ?t"
    using assms(6) inside [of "2 * i + (if v then 1 else 0)"] by simp
  then have "scratch_base c i v + ?t + 64 \<le> gc_gmBaseAddr c + gc_gmSize c"
    using fit by (simp add: tile algebra_simps)
  moreover have "gc_gmBaseAddr c + 0x2000 \<le> scratch_base c i v" using ok(1) by (simp add: tile)
  moreover have "scratch_base c i v + ?t \<le> scratch_base c j w \<or> scratch_base c j w + ?t \<le> scratch_base c i v"
    if "(j, w) \<noteq> (i, v)" for j w
  proof -
    let ?a = "2 * i + (if v then 1 else 0)" and ?b = "2 * j + (if w then 1 else 0)"
    have "?a \<noteq> ?b" using that by (cases v; cases w) (auto, presburger+)
    then have "?a + 1 \<le> ?b \<or> ?b + 1 \<le> ?a" by linarith
    then have "(?a + 1) * ?t \<le> ?b * ?t \<or> (?b + 1) * ?t \<le> ?a * ?t" using mult_le_mono1 by blast
    then show ?thesis unfolding tile by (simp only: distrib_right mult_1 add.assoc nat_add_left_cancel_le)
  qed
  ultimately show ?thesis by blast
qed

theorem setup_scratch_safe_witness:
  "setup_checks (demo_config MANAGER) True = Inr () \<and>
   scratch_base (demo_config MANAGER) 1 True + 16384 + 64 \<le> 0x200000 \<and> scratch_base (demo_config MANAGER) 1 True = 0x4C000"
proof -
  have c: "setup_checks (demo_config MANAGER) True = Inr ()" "gc_kvEnable (demo_config MANAGER)" "gc_role (demo_config MANAGER) = MANAGER"
    "gc_kvSlotCount (demo_config MANAGER) * 2 * gc_kvTileBytes (demo_config MANAGER) < 2 ^ 64" "gc_gmSize (demo_config MANAGER) < 2 ^ 63"
    "1 < gc_kvSlotCount (demo_config MANAGER)"
    by (simp_all add: demo_config_def setup_checks_def u64_def)
  from setup_scratch_safe [OF this, of True] c(1) show ?thesis by (simp add: demo_config_def scratch_base_def)
qed

end
