(* ===== verification/Group_Schedule.thy ===== *)
theory Group_Schedule
  imports Group_Base
begin

text \<open>
  \<^verbatim>\<open>golem/groupctrl/groupctrl.cc\<close>, the manager's grant scheduler: the queue of memory requests, the
  state of the four workers and the in-flight count of every memory node, with the handlers of
  REQUEST, DONE and FINISHED, \<open>trySchedule\<close> and \<open>maybeSendGroupDone\<close>.
\<close>

unbundle bit_operations_syntax

section \<open>State and operations\<close>

record PendingReq =
  pr_workerSlot :: nat
  pr_reqSeq :: nat
  pr_window :: nat
  pr_srcAddr :: addr
  pr_dstAddr :: addr
  pr_bytes :: nat
  pr_targetNode :: nat

record WorkerState =
  wk_lastReqSeq :: nat
  wk_lastGrantSeq :: "64 word"
  wk_lastDoneSeq :: nat
  wk_finished :: bool
  wk_inflight :: bool
  wk_inflightNode :: nat

definition new_worker :: WorkerState where
  "new_worker = \<lparr>wk_lastReqSeq = 0, wk_lastGrantSeq = 0, wk_lastDoneSeq = 0, wk_finished = False,
     wk_inflight = False, wk_inflightNode = 0\<rparr>"

record gsched =
  sc_pendingQ :: "PendingReq list"
  sc_workers :: "WorkerState list"
  sc_inflightPerNode :: "nat list"
  sc_scheduleCursor :: nat

definition new_gsched :: "gc_config \<Rightarrow> gsched" where
  "new_gsched c = \<lparr>sc_pendingQ = [], sc_workers = replicate 4 new_worker,
     sc_inflightPerNode = replicate (gc_numMemoryNodes c) 0, sc_scheduleCursor = 0\<rparr>"

text \<open>The \<open>continue\<close> conditions of the scan.\<close>

definition eligible :: "gc_config \<Rightarrow> gsched \<Rightarrow> PendingReq \<Rightarrow> bool" where
  "eligible c s r \<longleftrightarrow>
     pr_workerSlot r < length (sc_workers s) \<and> \<not> wk_inflight (sc_workers s ! pr_workerSlot r) \<and>
     pr_targetNode r < length (sc_inflightPerNode s) \<and>
     sc_inflightPerNode s ! pr_targetNode r < gc_maxInflightPerNode c"

definition grant_message :: "gc_config \<Rightarrow> PendingReq \<Rightarrow> GroupCtrlMsg" where
  "grant_message c r = (new_msg GRANT)\<lparr>ms_groupId := gc_groupId c mod 256, ms_workerSlot := pr_workerSlot r,
     ms_reqSeq := pr_reqSeq r, ms_window := (if pr_window r = 0 then 1 else pr_window r),
     ms_targetNode := pr_targetNode r\<rparr>"

definition grant_at :: "nat \<Rightarrow> gsched \<Rightarrow> gsched" where
  "grant_at idx s =
    (let r = sc_pendingQ s ! idx;
         w = sc_workers s ! pr_workerSlot r;
         seq = (of_nat (pr_reqSeq r) :: 64 word);
         q = take idx (sc_pendingQ s) @ drop (Suc idx) (sc_pendingQ s)
     in s\<lparr>sc_workers := (sc_workers s)[pr_workerSlot r := w\<lparr>
              wk_lastGrantSeq := (if pr_window r > 1 then seq OR GOLEM_WCP_COARSE_FINISHED_FLAG else seq),
              wk_inflight := True, wk_inflightNode := pr_targetNode r\<rparr>],
          sc_inflightPerNode := (sc_inflightPerNode s)[pr_targetNode r := sc_inflightPerNode s ! pr_targetNode r + 1],
          sc_pendingQ := q,
          sc_scheduleCursor := (if q = [] then 0 else idx mod length q)\<rparr>)"

text \<open>The inner loop: the first eligible index of the queue, scanning from the cursor.\<close>

definition scan_order :: "gsched \<Rightarrow> nat list" where
  "scan_order s =
    (let n = length (sc_pendingQ s);
         cursor = (if sc_scheduleCursor s \<ge> n then 0 else sc_scheduleCursor s)
     in map (\<lambda>scanned. (cursor + scanned) mod n) [0..<n])"

definition next_grant :: "gc_config \<Rightarrow> gsched \<Rightarrow> nat option" where
  "next_grant c s = find (\<lambda>idx. eligible c s (sc_pendingQ s ! idx)) (scan_order s)"

text \<open>The outer loop, with the number of grants it may still issue.\<close>

primrec schedule_loop :: "gc_config \<Rightarrow> nat \<Rightarrow> gsched \<Rightarrow> gc_effect list \<times> gsched" where
  "schedule_loop c 0 s = ([], s)"
| "schedule_loop c (Suc budget) s =
    (if sc_pendingQ s = [] then ([], s)
     else case next_grant c s of
            None \<Rightarrow> ([], s\<lparr>sc_scheduleCursor := (if sc_scheduleCursor s \<ge> length (sc_pendingQ s) then 0 else sc_scheduleCursor s)\<rparr>)
          | Some idx \<Rightarrow>
              let r = sc_pendingQ s ! idx
              in case schedule_loop c budget (grant_at idx s) of
                   (es, s') \<Rightarrow> (sendRsp (pr_workerSlot r) (grant_message c r) @ es, s'))"

definition trySchedule :: "gc_config \<Rightarrow> gsched \<Rightarrow> gc_effect list \<times> gsched" where
  "trySchedule c s =
    (if gc_role c \<noteq> MANAGER then ([], s) else schedule_loop c (gc_maxGrantsPerSchedule c) s)"

definition allWorkersFinished :: "gsched \<Rightarrow> bool" where
  "allWorkersFinished s \<longleftrightarrow> list_all wk_finished (sc_workers s)"

definition groupDrained :: "gsched \<Rightarrow> bool" where
  "groupDrained s \<longleftrightarrow> sc_pendingQ s = [] \<and> list_all (\<lambda>w. \<not> wk_inflight w) (sc_workers s) \<and>
     list_all (\<lambda>n. n = 0) (sc_inflightPerNode s)"

definition group_done_message :: "gc_config \<Rightarrow> nat \<Rightarrow> GroupCtrlMsg" where
  "group_done_message c slot = (new_msg GROUP_DONE)\<lparr>ms_groupId := gc_groupId c mod 256, ms_workerSlot := slot\<rparr>"

definition maybeSendGroupDone :: "gc_config \<Rightarrow> gsched \<Rightarrow> gc_effect list" where
  "maybeSendGroupDone c s =
    (if gc_role c \<noteq> MANAGER then []
     else if \<not> allWorkersFinished s \<or> \<not> groupDrained s then []
     else concat (map (\<lambda>slot. sendRsp slot (group_done_message c slot)) [0..<4]))"

definition handle_request :: "gc_config \<Rightarrow> GroupCtrlMsg \<Rightarrow> nat \<Rightarrow> gsched \<Rightarrow> gc_effect list \<times> gsched" where
  "handle_request c m slot s =
    (if length (sc_pendingQ s) \<ge> gc_queueDepth c then ([], s)
     else trySchedule c (s\<lparr>
       sc_workers := (sc_workers s)[slot := (sc_workers s ! slot)\<lparr>wk_lastReqSeq := ms_reqSeq m\<rparr>],
       sc_pendingQ := sc_pendingQ s @ [\<lparr>pr_workerSlot = slot mod 256, pr_reqSeq = ms_reqSeq m, pr_window = ms_window m,
         pr_srcAddr = ms_srcAddr m, pr_dstAddr = ms_dstAddr m, pr_bytes = ms_bytes m, pr_targetNode = ms_targetNode m\<rparr>]\<rparr>))"

definition release_node :: "nat \<Rightarrow> nat list \<Rightarrow> nat list" where
  "release_node node counts =
    (if node < length counts \<and> counts ! node > 0 then counts[node := counts ! node - 1] else counts)"

definition done_update :: "GroupCtrlMsg \<Rightarrow> nat \<Rightarrow> gsched \<Rightarrow> gsched" where
  "done_update m slot s =
    (let w = sc_workers s ! slot
     in s\<lparr>sc_workers := (sc_workers s)[slot := w\<lparr>wk_lastDoneSeq := ms_reqSeq m, wk_inflight := False, wk_inflightNode := 0\<rparr>],
          sc_inflightPerNode := release_node (wk_inflightNode w) (sc_inflightPerNode s)\<rparr>)"

definition handle_done :: "gc_config \<Rightarrow> GroupCtrlMsg \<Rightarrow> nat \<Rightarrow> gsched \<Rightarrow> gc_effect list \<times> gsched" where
  "handle_done c m slot s =
    (case trySchedule c (done_update m slot s) of (es, s') \<Rightarrow> (es @ maybeSendGroupDone c s', s'))"

definition finished_update :: "nat \<Rightarrow> gsched \<Rightarrow> gsched" where
  "finished_update slot s =
    (let w = sc_workers s ! slot
     in if wk_lastGrantSeq w AND GOLEM_WCP_COARSE_FINISHED_FLAG \<noteq> 0
        then s\<lparr>sc_workers := (sc_workers s)[slot := w\<lparr>wk_finished := True, wk_inflight := False, wk_inflightNode := 0\<rparr>],
               sc_inflightPerNode := (if wk_inflight w then release_node (wk_inflightNode w) (sc_inflightPerNode s)
                                      else sc_inflightPerNode s)\<rparr>
        else s\<lparr>sc_workers := (sc_workers s)[slot := w\<lparr>wk_finished := True\<rparr>]\<rparr>)"

definition handle_finished :: "gc_config \<Rightarrow> nat \<Rightarrow> gsched \<Rightarrow> gc_effect list \<times> gsched" where
  "handle_finished c slot s = (maybeSendGroupDone c (finished_update slot s), finished_update slot s)"

datatype sched_op = OpRequest GroupCtrlMsg nat | OpDone GroupCtrlMsg nat | OpFinished nat

fun sched_step :: "gc_config \<Rightarrow> sched_op \<Rightarrow> gsched \<Rightarrow> gc_effect list \<times> gsched" where
  "sched_step c (OpRequest m slot) s = handle_request c m slot s"
| "sched_step c (OpDone m slot) s = handle_done c m slot s"
| "sched_step c (OpFinished slot) s = handle_finished c slot s"


section \<open>Invariant: the counters count the workers in flight\<close>

definition on_node :: "nat \<Rightarrow> WorkerState \<Rightarrow> bool" where
  "on_node n w \<longleftrightarrow> wk_inflight w \<and> wk_inflightNode w = n"

definition node_load :: "gsched \<Rightarrow> nat \<Rightarrow> nat" where
  "node_load s n = count_if (on_node n) (sc_workers s)"

definition sched_inv :: "gc_config \<Rightarrow> gsched \<Rightarrow> bool" where
  "sched_inv c s \<longleftrightarrow> length (sc_workers s) = 4 \<and> length (sc_pendingQ s) \<le> gc_queueDepth c \<and>
     (\<forall>r \<in> set (sc_pendingQ s). pr_workerSlot r < 4) \<and>
     (\<forall>n < length (sc_inflightPerNode s). sc_inflightPerNode s ! n = node_load s n \<and> node_load s n \<le> gc_maxInflightPerNode c) \<and>
     (\<forall>w \<in> set (sc_workers s). wk_inflight w \<longrightarrow> wk_inflightNode w < length (sc_inflightPerNode s))"

lemma new_gsched_inv: "sched_inv c (new_gsched c)"
  by (auto simp: sched_inv_def new_gsched_def new_worker_def node_load_def on_node_def)

lemma node_load_update:
  assumes "i < length (sc_workers s)"
  shows "node_load (s\<lparr>sc_workers := (sc_workers s)[i := w]\<rparr>) n + (if on_node n (sc_workers s ! i) then 1 else 0) =
    node_load s n + (if on_node n w then 1 else 0)"
  using count_if_update [OF assms, of "on_node n" w] count_if_update_less [OF assms, of "on_node n" w]
    count_if_update_same [OF assms, of "on_node n" w]
  by (auto simp: node_load_def)

lemma node_load_frame [simp]:
  "node_load (s\<lparr>sc_pendingQ := q\<rparr>) n = node_load s n" "node_load (s\<lparr>sc_inflightPerNode := ns\<rparr>) n = node_load s n"
  "node_load (s\<lparr>sc_scheduleCursor := k\<rparr>) n = node_load s n"
  by (simp_all add: node_load_def)

lemma scan_order_bound: "idx \<in> set (scan_order s) \<Longrightarrow> idx < length (sc_pendingQ s)"
  by (auto simp: scan_order_def Let_def intro!: mod_less_divisor split: if_splits)

lemma next_grant_eligible:
  assumes "next_grant c s = Some idx"
  shows "idx < length (sc_pendingQ s)" "eligible c s (sc_pendingQ s ! idx)"
  using assms scan_order_bound by (auto simp: next_grant_def find_Some_iff set_conv_nth)

lemma grant_at_inv:
  assumes inv: "sched_inv c s" and idx: "idx < length (sc_pendingQ s)" and el: "eligible c s (sc_pendingQ s ! idx)"
  shows "sched_inv c (grant_at idx s)"
proof -
  define r where "r = sc_pendingQ s ! idx"
  define w where "w = (sc_workers s ! pr_workerSlot r)\<lparr>
      wk_lastGrantSeq := (if pr_window r > 1 then (of_nat (pr_reqSeq r) :: 64 word) OR GOLEM_WCP_COARSE_FINISHED_FLAG else of_nat (pr_reqSeq r)),
      wk_inflight := True, wk_inflightNode := pr_targetNode r\<rparr>"
  define s1 where "s1 = s\<lparr>sc_workers := (sc_workers s)[pr_workerSlot r := w]\<rparr>"
  have g: "sc_workers (grant_at idx s) = sc_workers s1"
    "sc_inflightPerNode (grant_at idx s) = (sc_inflightPerNode s)[pr_targetNode r := sc_inflightPerNode s ! pr_targetNode r + 1]"
    "sc_pendingQ (grant_at idx s) = take idx (sc_pendingQ s) @ drop (Suc idx) (sc_pendingQ s)"
    by (simp_all add: grant_at_def Let_def r_def s1_def w_def)
  have e: "pr_workerSlot r < length (sc_workers s)" "\<not> wk_inflight (sc_workers s ! pr_workerSlot r)"
    "pr_targetNode r < length (sc_inflightPerNode s)" "sc_inflightPerNode s ! pr_targetNode r < gc_maxInflightPerNode c"
    using el by (auto simp: eligible_def r_def)
  have load: "node_load s1 n = node_load s n + (if n = pr_targetNode r then 1 else 0)" for n
    using node_load_update [OF e(1), of w n] e(2) by (simp add: s1_def on_node_def w_def split: if_splits)
  have "node_load (grant_at idx s) n = node_load s1 n" for n by (simp add: node_load_def g)
  moreover have "\<forall>v \<in> set (sc_workers s1). wk_inflight v \<longrightarrow> wk_inflightNode v < length (sc_inflightPerNode s)"
    using inv e(3) set_update_subset_insert [of "sc_workers s" "pr_workerSlot r" w]
    by (auto simp: sched_inv_def s1_def w_def)
  moreover have "set (take idx (sc_pendingQ s) @ drop (Suc idx) (sc_pendingQ s)) \<subseteq> set (sc_pendingQ s)"
    by (auto dest: in_set_takeD in_set_dropD)
  ultimately show ?thesis
    using inv idx e load unfolding sched_inv_def g by (auto simp: nth_list_update s1_def)
qed

lemma schedule_loop_inv: "sched_inv c s \<Longrightarrow> schedule_loop c k s = (es, s') \<Longrightarrow> sched_inv c s'"
proof (induction k arbitrary: s es)
  case (Suc k)
  show ?case
  proof (cases "next_grant c s")
    case None
    with Suc.prems show ?thesis by (auto simp: sched_inv_def split: if_splits)
  next
    case (Some idx)
    note e = next_grant_eligible [OF Some]
    have "sc_pendingQ s \<noteq> []" using e(1) by auto
    with Suc.prems Some obtain es' where "schedule_loop c k (grant_at idx s) = (es', s')"
      by (auto simp: Let_def split: prod.splits)
    then show ?thesis by (rule Suc.IH [OF grant_at_inv [OF Suc.prems(1) e]])
  qed
qed simp

lemma trySchedule_inv [golem_inv]: "sched_inv c s \<Longrightarrow> trySchedule c s = (es, s') \<Longrightarrow> sched_inv c s'"
  by (auto simp: trySchedule_def schedule_loop_inv split: if_splits)

text \<open>A worker gives its node back: DONE and the coarse FINISHED.\<close>

lemma release_inv:
  assumes inv: "sched_inv c s" and slot: "slot < 4" and inf: "wk_inflight (sc_workers s ! slot)"
    and w: "\<not> wk_inflight w"
  shows "sched_inv c (s\<lparr>sc_workers := (sc_workers s)[slot := w],
    sc_inflightPerNode := release_node (wk_inflightNode (sc_workers s ! slot)) (sc_inflightPerNode s)\<rparr>)"
proof -
  let ?v = "sc_workers s ! slot"
  let ?s1 = "s\<lparr>sc_workers := (sc_workers s)[slot := w]\<rparr>"
  have len: "slot < length (sc_workers s)" using inv slot by (simp add: sched_inv_def)
  have node: "wk_inflightNode ?v < length (sc_inflightPerNode s)"
    using inv inf len nth_mem by (fastforce simp: sched_inv_def)
  have load: "node_load s n = node_load ?s1 n + (if n = wk_inflightNode ?v then 1 else 0)" for n
    using node_load_update [OF len, of w n] inf w by (auto simp: on_node_def split: if_splits)
  have rel: "release_node (wk_inflightNode ?v) (sc_inflightPerNode s) =
      (sc_inflightPerNode s)[wk_inflightNode ?v := sc_inflightPerNode s ! wk_inflightNode ?v - 1]"
    using inv node load [of "wk_inflightNode ?v"] by (simp add: release_node_def sched_inv_def)
  have "node_load (s\<lparr>sc_workers := (sc_workers s)[slot := w], sc_inflightPerNode := ns\<rparr>) n = node_load ?s1 n" for n ns
    by (simp add: node_load_def)
  moreover have "\<forall>v \<in> set ((sc_workers s)[slot := w]). wk_inflight v \<longrightarrow> wk_inflightNode v < length (sc_inflightPerNode s)"
    using inv w set_update_subset_insert [of "sc_workers s" slot w] by (auto simp: sched_inv_def)
  moreover have "(sc_inflightPerNode s)[wk_inflightNode ?v := sc_inflightPerNode s ! wk_inflightNode ?v - 1] ! n = node_load ?s1 n \<and>
      node_load ?s1 n \<le> gc_maxInflightPerNode c" if "n < length (sc_inflightPerNode s)" for n
  proof -
    have "sc_inflightPerNode s ! n = node_load s n" "node_load s n \<le> gc_maxInflightPerNode c"
      using inv that by (simp_all add: sched_inv_def)
    then show ?thesis using load [of n] that by (cases "n = wk_inflightNode ?v") auto
  qed
  ultimately show ?thesis
    using inv unfolding sched_inv_def rel by simp
qed

lemma worker_update_inv:
  assumes inv: "sched_inv c s" and slot: "slot < 4"
    and w: "wk_inflight w = wk_inflight (sc_workers s ! slot)" "wk_inflight w \<longrightarrow> wk_inflightNode w = wk_inflightNode (sc_workers s ! slot)"
  shows "sched_inv c (s\<lparr>sc_workers := (sc_workers s)[slot := w]\<rparr>)"
proof -
  have len: "slot < length (sc_workers s)" using inv slot by (simp add: sched_inv_def)
  have "on_node n w = on_node n (sc_workers s ! slot)" for n using w by (auto simp: on_node_def)
  then have load: "node_load (s\<lparr>sc_workers := (sc_workers s)[slot := w]\<rparr>) n = node_load s n" for n
    using node_load_update [OF len, of w n] by simp
  have "\<forall>v \<in> set ((sc_workers s)[slot := w]). wk_inflight v \<longrightarrow> wk_inflightNode v < length (sc_inflightPerNode s)"
    using inv w nth_mem [OF len] set_update_subset_insert [of "sc_workers s" slot w] by (auto simp: sched_inv_def)
  then show ?thesis using inv load by (simp add: sched_inv_def)
qed


text \<open>
  Steps of the protocol: messages come from the four workers, and a DONE only from a worker whose
  grant is outstanding.
\<close>

fun op_ok :: "gsched \<Rightarrow> sched_op \<Rightarrow> bool" where
  "op_ok s (OpRequest m slot) \<longleftrightarrow> slot < 4"
| "op_ok s (OpDone m slot) \<longleftrightarrow> slot < 4 \<and> wk_inflight (sc_workers s ! slot)"
| "op_ok s (OpFinished slot) \<longleftrightarrow> slot < 4"

lemma finished_update_inv: "sched_inv c s \<Longrightarrow> slot < 4 \<Longrightarrow> sched_inv c (finished_update slot s)"
proof -
  assume inv: "sched_inv c s" and slot: "slot < 4"
  let ?w = "sc_workers s ! slot"
  have upd: "sched_inv c (s\<lparr>sc_workers := (sc_workers s)[slot := ?w\<lparr>wk_finished := True\<rparr>]\<rparr>)"
    by (rule worker_update_inv [OF inv slot]) auto
  have idle: "sched_inv c (s\<lparr>sc_workers := (sc_workers s)[slot := ?w\<lparr>wk_finished := True, wk_inflight := False, wk_inflightNode := 0\<rparr>]\<rparr>)"
    if "\<not> wk_inflight ?w" using that by (intro worker_update_inv [OF inv slot]) auto
  show ?thesis
    using upd idle release_inv [OF inv slot, of "?w\<lparr>wk_finished := True, wk_inflight := False, wk_inflightNode := 0\<rparr>"]
    by (simp add: finished_update_def Let_def)
qed

lemma sched_step_inv [golem_inv]:
  assumes inv: "sched_inv c s" and ok: "op_ok s x" and st: "sched_step c x s = (es, s')"
  shows "sched_inv c s'"
proof (cases x)
  case (OpRequest m slot)
  let ?w = "(sc_workers s ! slot)\<lparr>wk_lastReqSeq := ms_reqSeq m\<rparr>"
  have "sched_inv c (s\<lparr>sc_workers := (sc_workers s)[slot := ?w]\<rparr>)"
    using OpRequest ok by (intro worker_update_inv [OF inv]) auto
  then have "sched_inv c (s\<lparr>sc_workers := (sc_workers s)[slot := ?w], sc_pendingQ := sc_pendingQ s @ [r]\<rparr>)"
    if "length (sc_pendingQ s) < gc_queueDepth c" "pr_workerSlot r < 4" for r
    using that by (auto simp: sched_inv_def node_load_def)
  then show ?thesis
    using st OpRequest ok inv by (auto simp: handle_request_def not_le split: if_splits elim!: trySchedule_inv [rotated])
next
  case (OpDone m slot)
  then have "sched_inv c (done_update m slot s)"
    using release_inv [OF inv, of slot "(sc_workers s ! slot)\<lparr>wk_lastDoneSeq := ms_reqSeq m, wk_inflight := False, wk_inflightNode := 0\<rparr>"] ok
    by (simp add: done_update_def Let_def)
  then show ?thesis using st OpDone trySchedule_inv by (auto simp: handle_done_def split: prod.splits)
next
  case (OpFinished slot)
  then show ?thesis using st ok finished_update_inv [OF inv] by (auto simp: handle_finished_def)
qed

text \<open>Runs of the manager's scheduler; \<open>None\<close> when an operation breaks the protocol.\<close>

fun sched_run :: "gc_config \<Rightarrow> sched_op list \<Rightarrow> gsched \<Rightarrow> (gc_effect list \<times> gsched) option" where
  "sched_run c [] s = Some ([], s)"
| "sched_run c (x # xs) s =
    (if op_ok s x then
       case sched_step c x s of (es, s1) \<Rightarrow>
         (case sched_run c xs s1 of None \<Rightarrow> None | Some (fs, s2) \<Rightarrow> Some (es @ fs, s2))
     else None)"

lemma sched_run_inv: "sched_inv c s \<Longrightarrow> sched_run c xs s = Some (es, s') \<Longrightarrow> sched_inv c s'"
proof (induction xs arbitrary: s es)
  case (Cons x xs)
  obtain e1 s1 where st: "sched_step c x s = (e1, s1)" by (cases "sched_step c x s")
  with Cons.prems obtain e2 where "op_ok s x" "sched_run c xs s1 = Some (e2, s')"
    by (auto split: if_splits option.splits)
  then show ?case using Cons.IH sched_step_inv [OF Cons.prems(1) _ st] by blast
qed simp

text \<open>C35: the grant scheduler keeps its caps: in every run of REQUEST, DONE and FINISHED messages in
  which a DONE answers an outstanding grant, each memory node's counter is the number of workers
  in flight on it and never exceeds \<open>max_inflight_per_node\<close>, and the request queue never exceeds
  \<open>queue_depth\<close>.\<close>

theorem sched_caps:
  assumes "sched_run c xs (new_gsched c) = Some (es, s)" "n < gc_numMemoryNodes c"
  shows "sc_inflightPerNode s ! n = node_load s n \<and> node_load s n \<le> gc_maxInflightPerNode c \<and>
    length (sc_pendingQ s) \<le> gc_queueDepth c"
proof -
  have len: "length (sc_inflightPerNode t') = length (sc_inflightPerNode t)"
    if "schedule_loop c k t = (e, t')" for k t t' e
    using that by (induction k arbitrary: t e) (auto simp: grant_at_def Let_def split: if_splits option.splits prod.splits)
  have len1: "length (sc_inflightPerNode t') = length (sc_inflightPerNode t)"
    if "sched_step c x t = (e, t')" for x t t' e
    using that by (cases x)
      (auto simp: handle_request_def handle_done_def handle_finished_def trySchedule_def done_update_def
        finished_update_def release_node_def Let_def dest!: len split: if_splits prod.splits)
  have len2: "length (sc_inflightPerNode t') = length (sc_inflightPerNode t)"
    if "sched_run c ys t = Some (e, t')" for ys t t' e
    using that by (induction ys arbitrary: t e) (auto dest!: len1 split: if_splits option.splits prod.splits)
  have "length (sc_inflightPerNode s) = gc_numMemoryNodes c"
    using len2 [OF assms(1)] by (simp add: new_gsched_def)
  then show ?thesis
    using sched_run_inv [OF new_gsched_inv assms(1)] assms(2) by (simp add: sched_inv_def)
qed


section \<open>Progress of the scheduler\<close>

lemma scan_order_covers: "set (scan_order s) = {..<length (sc_pendingQ s)}"
proof
  show "set (scan_order s) \<subseteq> {..<length (sc_pendingQ s)}" using scan_order_bound by blast
  show "{..<length (sc_pendingQ s)} \<subseteq> set (scan_order s)"
  proof
    fix idx assume "idx \<in> {..<length (sc_pendingQ s)}"
    define n where "n = length (sc_pendingQ s)"
    define k where "k = (if sc_scheduleCursor s \<ge> n then 0 else sc_scheduleCursor s)"
    have n: "idx < n" "k < n" using \<open>idx \<in> _\<close> by (auto simp: n_def k_def)
    have "(k + (idx + n - k) mod n) mod n = (k + (idx + n - k)) mod n" by (simp add: mod_add_right_eq)
    also have "\<dots> = idx" using n by simp
    finally have "idx = (k + (idx + n - k) mod n) mod n" by simp
    then have "idx \<in> (\<lambda>x. (k + x) mod n) ` {0..<n}" using n by (intro image_eqI [of _ _ "(idx + n - k) mod n"]) auto
    moreover have "set (scan_order s) = (\<lambda>x. (k + x) mod n) ` {0..<n}"
      by (simp add: scan_order_def Let_def n_def k_def)
    ultimately show "idx \<in> set (scan_order s)" by blast
  qed
qed

lemma next_grant_None: "next_grant c s = None \<Longrightarrow> r \<in> set (sc_pendingQ s) \<Longrightarrow> \<not> eligible c s r"
  by (auto simp: next_grant_def find_None_iff scan_order_covers in_set_conv_nth)

lemma length_sendRsp: "slot < 4 \<Longrightarrow> length (sendRsp slot m) = 1"
  by (simp add: sendRsp_def)

lemma grant_at_queue:
  "idx < length (sc_pendingQ s) \<Longrightarrow> length (sc_pendingQ (grant_at idx s)) + 1 = length (sc_pendingQ s)"
  by (simp add: grant_at_def Let_def)

lemma schedule_loop_progress:
  assumes "sched_inv c s" "schedule_loop c k s = (es, s')"
  shows "length es + length (sc_pendingQ s') = length (sc_pendingQ s) \<and> length es \<le> k \<and>
    (length es = k \<or> \<not> (\<exists>r \<in> set (sc_pendingQ s'). eligible c s' r))"
  using assms
proof (induction k arbitrary: s es)
  case (Suc k)
  show ?case
  proof (cases "next_grant c s")
    case None
    let ?s = "s\<lparr>sc_scheduleCursor := (if sc_scheduleCursor s \<ge> length (sc_pendingQ s) then 0 else sc_scheduleCursor s)\<rparr>"
    from None Suc.prems have "es = [] \<and> (s' = s \<or> s' = ?s)" by (auto split: if_splits)
    moreover have "eligible c ?s r = eligible c s r" for r by (simp add: eligible_def)
    ultimately show ?thesis using next_grant_None [OF None] by auto
  next
    case (Some idx)
    note e = next_grant_eligible [OF Some]
    have "sc_pendingQ s \<noteq> []" using e(1) by auto
    with Suc.prems Some obtain es' where es': "schedule_loop c k (grant_at idx s) = (es', s')"
      and es: "es = sendRsp (pr_workerSlot (sc_pendingQ s ! idx)) (grant_message c (sc_pendingQ s ! idx)) @ es'"
      by (auto simp: Let_def split: prod.splits)
    have "pr_workerSlot (sc_pendingQ s ! idx) < 4" using Suc.prems(1) e(1) by (simp add: sched_inv_def)
    then have "length es = Suc (length es')" by (simp add: es length_sendRsp)
    then show ?thesis using Suc.IH [OF grant_at_inv [OF Suc.prems(1) e] es'] grant_at_queue [OF e(1)] by auto
  qed
qed simp

text \<open>C36: a scheduling pass is work-conserving: it issues at most \<open>max_grants_per_schedule\<close> grants, one per
  request it removes from the queue, and if it stops short of that number, no request is left
  whose worker is idle and whose memory node has room.\<close>

theorem trySchedule_work_conserving:
  assumes "sched_inv c s" "gc_role c = MANAGER" "trySchedule c s = (es, s')"
  shows "length es + length (sc_pendingQ s') = length (sc_pendingQ s) \<and> length es \<le> gc_maxGrantsPerSchedule c \<and>
    \<not> (length es < gc_maxGrantsPerSchedule c \<and> (\<exists>r \<in> set (sc_pendingQ s'). eligible c s' r))"
  using schedule_loop_progress [OF assms(1), of "gc_maxGrantsPerSchedule c" es s'] assms(2,3) by (auto simp: trySchedule_def)

text \<open>GROUP_DONE is announced to all four workers exactly when every worker has finished, no request
  is queued and no grant is outstanding; the per-node counters need no separate check.\<close>

theorem group_done_exact:
  assumes "sched_inv c s" "gc_role c = MANAGER"
  shows "(maybeSendGroupDone c s = [] \<longleftrightarrow>
      \<not> (list_all wk_finished (sc_workers s) \<and> sc_pendingQ s = [] \<and> list_all (\<lambda>w. \<not> wk_inflight w) (sc_workers s))) \<and>
    (maybeSendGroupDone c s = [] \<or> maybeSendGroupDone c s = map (\<lambda>slot. SendRsp slot (group_done_message c slot)) [0..<4])"
proof -
  have "node_load s n = 0" if "list_all (\<lambda>w. \<not> wk_inflight w) (sc_workers s)" for n
    using that by (auto simp: node_load_def count_if_def on_node_def list_all_iff filter_empty_conv)
  then have "list_all (\<lambda>n. n = 0) (sc_inflightPerNode s)" if "list_all (\<lambda>w. \<not> wk_inflight w) (sc_workers s)"
    using assms(1) that by (auto simp: sched_inv_def list_all_iff in_set_conv_nth)
  moreover have "concat (map (\<lambda>slot. sendRsp slot (group_done_message c slot)) [0..<4]) =
      map (\<lambda>slot. SendRsp slot (group_done_message c slot)) [0..<4]"
    by (simp add: sendRsp_def group_done_message_def new_msg_def upt_rec)
  ultimately show ?thesis
    using assms(2) by (auto simp: maybeSendGroupDone_def allWorkersFinished_def groupDrained_def)
qed

section \<open>Two defects of the handlers\<close>

definition demo_request :: "nat \<Rightarrow> GroupCtrlMsg" where
  "demo_request seq = (new_msg REQUEST)\<lparr>ms_reqSeq := seq, ms_window := 2, ms_targetNode := 0\<rparr>"

text \<open>Three workers ask for node 0, which takes two; both holders send the coarse FINISHED.\<close>

definition strand_ops :: "sched_op list" where
  "strand_ops = [OpRequest (demo_request 1) 0, OpRequest (demo_request 2) 1, OpRequest (demo_request 3) 2,
     OpFinished 0, OpFinished 1]"

text \<open>Evaluation of a pass over a queue of one request, with one grant per pass.\<close>

lemma trySchedule_single:
  assumes "sc_pendingQ s = [r]" "gc_role c = MANAGER" "gc_maxGrantsPerSchedule c = 1"
  shows "trySchedule c s =
    (if eligible c s r then (sendRsp (pr_workerSlot r) (grant_message c r), grant_at 0 s)
     else ([], s\<lparr>sc_scheduleCursor := 0\<rparr>))"
proof -
  have "scan_order s = [0]" using assms(1) by (simp add: scan_order_def)
  then have "next_grant c s = (if eligible c s r then Some 0 else None)" using assms(1) by (simp add: next_grant_def)
  then show ?thesis using assms by (auto simp: trySchedule_def Let_def)
qed

lemma demo_config_simps [simp]:
  "gc_role (demo_config r) = r" "gc_maxGrantsPerSchedule (demo_config r) = 1" "gc_queueDepth (demo_config r) = 32"
  "gc_maxInflightPerNode (demo_config r) = 2" "gc_numMemoryNodes (demo_config r) = 5"
  by (simp_all add: demo_config_def)

definition demo_pending :: "nat \<Rightarrow> nat \<Rightarrow> PendingReq" where
  "demo_pending seq slot = \<lparr>pr_workerSlot = slot, pr_reqSeq = seq, pr_window = 2, pr_srcAddr = 0, pr_dstAddr = 0,
     pr_bytes = 0, pr_targetNode = 0\<rparr>"

definition demo_grant :: "nat \<Rightarrow> WorkerState" where
  "demo_grant seq = \<lparr>wk_lastReqSeq = seq, wk_lastGrantSeq = of_nat seq OR GOLEM_WCP_COARSE_FINISHED_FLAG, wk_lastDoneSeq = 0,
     wk_finished = False, wk_inflight = True, wk_inflightNode = 0\<rparr>"

definition demo_sched :: "PendingReq list \<Rightarrow> WorkerState list \<Rightarrow> nat \<Rightarrow> gsched" where
  "demo_sched q ws load = \<lparr>sc_pendingQ = q, sc_workers = ws, sc_inflightPerNode = [load, 0, 0, 0, 0], sc_scheduleCursor = 0\<rparr>"

lemma demo_new: "new_gsched (demo_config MANAGER) = demo_sched [] [new_worker, new_worker, new_worker, new_worker] 0"
  by (simp add: new_gsched_def demo_sched_def numeral_eq_Suc)

lemma demo_request_step:
  assumes "slot < length ws" "ws ! slot = new_worker" "length ws = 4"
  shows "sched_step (demo_config MANAGER) (OpRequest (demo_request seq) slot) (demo_sched [] ws load) =
    (if load < 2 then (sendRsp slot (grant_message (demo_config MANAGER) (demo_pending seq slot)),
                       demo_sched [] (ws[slot := demo_grant seq]) (load + 1))
     else ([], demo_sched [demo_pending seq slot] (ws[slot := new_worker\<lparr>wk_lastReqSeq := seq\<rparr>]) load))"
proof -
  let ?s = "demo_sched [demo_pending seq slot] (ws[slot := new_worker\<lparr>wk_lastReqSeq := seq\<rparr>]) load"
  have "sched_step (demo_config MANAGER) (OpRequest (demo_request seq) slot) (demo_sched [] ws load) = trySchedule (demo_config MANAGER) ?s"
    using assms by (simp add: handle_request_def demo_sched_def demo_pending_def demo_request_def new_msg_def)
  also have "\<dots> = (if eligible (demo_config MANAGER) ?s (demo_pending seq slot)
      then (sendRsp slot (grant_message (demo_config MANAGER) (demo_pending seq slot)), grant_at 0 ?s) else ([], ?s\<lparr>sc_scheduleCursor := 0\<rparr>))"
    by (subst trySchedule_single [of _ "demo_pending seq slot"]) (simp_all add: demo_sched_def demo_pending_def)
  finally show ?thesis
    using assms by (simp add: eligible_def demo_sched_def demo_pending_def new_worker_def grant_at_def Let_def demo_grant_def)
qed

lemma demo_finished_step:
  assumes "slot < length ws" "ws ! slot = demo_grant seq" "q \<noteq> []"
  shows "sched_step (demo_config MANAGER) (OpFinished slot) (demo_sched q ws (Suc load)) =
    ([], demo_sched q (ws[slot := (demo_grant seq)\<lparr>wk_finished := True, wk_inflight := False\<rparr>]) load)"
proof -
  have f: "GOLEM_WCP_COARSE_FINISHED_FLAG = push_bit 63 1" by (simp add: GOLEM_WCP_COARSE_FINISHED_FLAG_def)
  have "bit ((of_nat seq OR GOLEM_WCP_COARSE_FINISHED_FLAG) AND GOLEM_WCP_COARSE_FINISHED_FLAG) 63"
    unfolding f by (simp add: bit_simps)
  then have "(of_nat seq OR GOLEM_WCP_COARSE_FINISHED_FLAG) AND GOLEM_WCP_COARSE_FINISHED_FLAG \<noteq> 0" by force
  then show ?thesis
    using assms by (simp add: handle_finished_def finished_update_def Let_def demo_sched_def demo_grant_def release_node_def
        maybeSendGroupDone_def groupDrained_def)
qed

definition stranded :: "gc_config \<Rightarrow> gsched \<Rightarrow> bool" where
  "stranded c s \<longleftrightarrow> list_all (\<lambda>w. \<not> wk_inflight w) (sc_workers s) \<and> list_ex (eligible c s) (sc_pendingQ s)"

text \<open>a coarse FINISHED frees the worker's memory node without a scheduling pass: after this run of
  protocol messages no grant is outstanding, so no DONE can come, and a request whose node is
  free again stays in the queue, ungranted, with its worker waiting for it.\<close>

theorem finished_strands_request:
  "(case sched_run (demo_config MANAGER) strand_ops (new_gsched (demo_config MANAGER)) of
      None \<Rightarrow> False
    | Some (es, s) \<Rightarrow> length es = 2 \<and> stranded (demo_config MANAGER) s \<and> map pr_reqSeq (sc_pendingQ s) = [3])"
proof -
  let ?n = new_worker
  let ?f = "\<lambda>seq. (demo_grant seq)\<lparr>wk_finished := True, wk_inflight := False\<rparr>"
  let ?r = "?n\<lparr>wk_lastReqSeq := 3\<rparr>"
  have "\<exists>es. sched_run (demo_config MANAGER) strand_ops (new_gsched (demo_config MANAGER)) =
      Some (es, demo_sched [demo_pending 3 2] [?f 1, ?f 2, ?r, ?n] 0) \<and> length es = 2"
    unfolding strand_ops_def demo_new sched_run.simps
    by (simp add: demo_request_step demo_finished_step length_sendRsp numeral_2_eq_2 del: sched_step.simps)
  then obtain es where "sched_run (demo_config MANAGER) strand_ops (new_gsched (demo_config MANAGER)) =
      Some (es, demo_sched [demo_pending 3 2] [?f 1, ?f 2, ?r, ?n] 0)" "length es = 2" by blast
  then show ?thesis
    by (simp add: stranded_def demo_sched_def demo_grant_def new_worker_def demo_pending_def eligible_def)
qed

lemma demo_done_step:
  assumes "slot < length ws" "ws ! slot = new_worker"
  shows "snd (sched_step (demo_config MANAGER) (OpDone (demo_request seq) slot) (demo_sched [] ws (Suc load))) =
    demo_sched [] (ws[slot := new_worker\<lparr>wk_lastDoneSeq := seq\<rparr>]) load"
  using assms by (simp add: handle_done_def done_update_def Let_def demo_sched_def new_worker_def release_node_def trySchedule_def
      demo_request_def new_msg_def)

text \<open>a DONE from a worker without an outstanding grant takes the in-flight credit of node 0 away
  from another worker, since the handler does not test \<open>inflight\<close>: node 0 then has more workers
  in flight than its counter says and than \<open>max_inflight_per_node\<close> allows.\<close>

theorem spurious_done_breaks_cap:
  "(let c = demo_config MANAGER;
        run = (\<lambda>xs. fold (\<lambda>x s. snd (sched_step c x s)) xs (new_gsched c));
        s = run [OpRequest (demo_request 1) 0, OpRequest (demo_request 2) 1, OpDone (demo_request 9) 3,
                 OpRequest (demo_request 3) 2]
    in node_load s 0 = 3 \<and> sc_inflightPerNode s ! 0 = 2 \<and> gc_maxInflightPerNode c = 2)"
  unfolding Let_def demo_new fold_simps
  by (simp add: demo_request_step demo_done_step del: sched_step.simps)
    (simp add: demo_sched_def node_load_def on_node_def demo_grant_def new_worker_def)


theorem sched_caps_witness:
  "(case sched_run (demo_config MANAGER) strand_ops (new_gsched (demo_config MANAGER)) of
      None \<Rightarrow> False
    | Some (es, s) \<Rightarrow> sc_inflightPerNode s ! 0 = node_load s 0 \<and> node_load s 0 \<le> 2 \<and> length (sc_pendingQ s) \<le> 32)"
proof -
  let ?c = "demo_config MANAGER"
  have "sched_run ?c strand_ops (new_gsched ?c) \<noteq> None"
    unfolding strand_ops_def demo_new sched_run.simps
    by (simp add: demo_request_step demo_finished_step length_sendRsp numeral_2_eq_2 del: sched_step.simps)
  then obtain es s where run: "sched_run ?c strand_ops (new_gsched ?c) = Some (es, s)" by auto
  have "0 < gc_numMemoryNodes ?c" by simp
  from sched_caps [OF run this] run show ?thesis by simp
qed

theorem trySchedule_work_conserving_witness:
  "\<exists>es s'. trySchedule (demo_config MANAGER) (demo_sched [demo_pending 7 1] [new_worker, new_worker, new_worker, new_worker] 0) = (es, s') \<and>
     length es + length (sc_pendingQ s') = 1 \<and> sc_pendingQ s' = []"
proof -
  let ?c = "demo_config MANAGER"
  let ?s = "demo_sched [demo_pending 7 1] [new_worker, new_worker, new_worker, new_worker] 0"
  have inv: "sched_inv ?c ?s"
    by (auto simp: sched_inv_def demo_sched_def demo_pending_def new_worker_def node_load_def on_node_def nth_Cons' numeral_eq_Suc less_Suc_eq)
  have t: "trySchedule ?c ?s = (sendRsp 1 (grant_message ?c (demo_pending 7 1)), grant_at 0 ?s)"
    by (subst trySchedule_single [of _ "demo_pending 7 1"]) (simp_all add: demo_sched_def demo_pending_def eligible_def new_worker_def)
  have "gc_role ?c = MANAGER" by simp
  from trySchedule_work_conserving [OF inv this t] t show ?thesis by (auto simp: demo_sched_def grant_at_def Let_def sendRsp_def)
qed

theorem group_done_exact_witness:
  "\<exists>s. sched_inv (demo_config MANAGER) s \<and> maybeSendGroupDone (demo_config MANAGER) s =
     map (\<lambda>slot. SendRsp slot (group_done_message (demo_config MANAGER) slot)) [0..<4]"
proof -
  let ?c = "demo_config MANAGER"
  let ?s = "demo_sched [] (replicate 4 (new_worker\<lparr>wk_finished := True\<rparr>)) 0"
  have inv: "sched_inv ?c ?s"
    by (auto simp: sched_inv_def demo_sched_def new_worker_def node_load_def on_node_def nth_Cons' numeral_eq_Suc less_Suc_eq)
  have "maybeSendGroupDone ?c ?s \<noteq> []"
    using group_done_exact [OF inv] by (simp add: demo_sched_def new_worker_def list_all_iff)
  then show ?thesis using group_done_exact [OF inv] inv by auto
qed

end
