(* ===== verification/Group_Kv_Manager.thy ===== *)
theory Group_Kv_Manager
  imports Group_Base
begin

text \<open>
  \<^verbatim>\<open>golem/groupctrl/groupctrl.cc\<close>, the manager's side of the Attention K/V distribution: a K/V tile that
  several workers ask for is loaded once into a manager slot (DMA into scratch memory, then chunked
  local reads), delivered to every subscriber, and released when all expected workers have
  acknowledged or cancelled; requests that find no slot wait in a queue, and a released slot may be
  refilled ahead of demand.

  Operations that the code runs to completion are functions on \<open>kvm\<close>; the effects that they have
  are appended to \<open>kv_out\<close>. The answers of the local memory port are the parameters \<open>maxReq\<close>
  (\<open>localMaxRequestBytes\<close>) and \<open>acc\<close> (whether the request with a given tag is accepted; every tag is
  used once). Completion callbacks run later, as operations of their own.
\<close>

unbundle bit_operations_syntax

section \<open>State\<close>

record KvSubscriber =
  sb_present :: bool
  sb_requestId :: nat
  sb_generation :: nat
  sb_kDstAddr :: addr
  sb_vDstAddr :: addr

definition new_subscriber :: KvSubscriber where
  "new_subscriber = \<lparr>sb_present = False, sb_requestId = 0, sb_generation = 0, sb_kDstAddr = 0, sb_vDstAddr = 0\<rparr>"

record KvSlot =
  sl_occupied :: bool
  sl_failed :: bool
  sl_speculative :: bool
  sl_readInflight :: bool
  sl_readingV :: bool
  sl_epoch :: nat
  sl_generation :: nat
  sl_jobTag :: nat
  sl_queryGroup :: nat
  sl_kvTileIndex :: nat
  sl_physicalKvTileIndex :: nat
  sl_numKvTiles :: nat
  sl_kvLength :: nat
  sl_kvTileRows :: nat
  sl_tileRows :: nat
  sl_rowsPerBand :: nat
  sl_headDim :: nat
  sl_nodeStrideBytes :: nat
  sl_kAddr :: addr
  sl_vAddr :: addr
  sl_bytes :: nat
  sl_kLoadsPending :: nat
  sl_vLoadsPending :: nat
  sl_requestedMask :: "8 word"
  sl_deliveredMask :: "8 word"
  sl_completedMask :: "8 word"
  sl_cancelledMask :: "8 word"
  sl_readOffset :: nat
  sl_subscribers :: "KvSubscriber list"
  sl_kData :: "byte list"
  sl_vData :: "byte list"

definition new_slot :: KvSlot where
  "new_slot = \<lparr>sl_occupied = False, sl_failed = False, sl_speculative = False, sl_readInflight = False,
     sl_readingV = False, sl_epoch = 0, sl_generation = 0, sl_jobTag = 0, sl_queryGroup = 0,
     sl_kvTileIndex = 0, sl_physicalKvTileIndex = 0, sl_numKvTiles = 0, sl_kvLength = 0, sl_kvTileRows = 0,
     sl_tileRows = 0, sl_rowsPerBand = 0, sl_headDim = 0, sl_nodeStrideBytes = 0, sl_kAddr = 0, sl_vAddr = 0,
     sl_bytes = 0, sl_kLoadsPending = 0, sl_vLoadsPending = 0, sl_requestedMask = 0, sl_deliveredMask = 0,
     sl_completedMask = 0, sl_cancelledMask = 0, sl_readOffset = 0,
     sl_subscribers = replicate 4 new_subscriber, sl_kData = [], sl_vData = []\<rparr>"

record PendingKvRequest =
  pk_workerSlot :: nat
  pk_requestId :: nat
  pk_request :: AttentionKvRequest

record kvm =
  kv_slots :: "KvSlot list"
  kv_pending :: "PendingKvRequest list"
  kv_nextEpoch :: nat
  kv_nextTag :: nat
  kv_out :: "gc_effect list"

definition new_kvm :: "gc_config \<Rightarrow> kvm" where
  "new_kvm c = \<lparr>kv_slots = replicate (gc_kvSlotCount c) new_slot, kv_pending = [], kv_nextEpoch = 1,
     kv_nextTag = 1, kv_out = []\<rparr>"

definition emit :: "gc_effect list \<Rightarrow> kvm \<Rightarrow> kvm" where
  "emit es s = s\<lparr>kv_out := kv_out s @ es\<rparr>"

definition upd_slot :: "nat \<Rightarrow> KvSlot \<Rightarrow> kvm \<Rightarrow> kvm" where
  "upd_slot i sl s = s\<lparr>kv_slots := (kv_slots s)[i := sl]\<rparr>"

definition worker_bit :: "nat \<Rightarrow> 8 word" where
  "worker_bit w = push_bit w 1"

section \<open>Loading and delivering a tile\<close>

definition slot_matches :: "GroupCtrlMsg \<Rightarrow> KvSlot \<Rightarrow> bool" where
  "slot_matches m sl \<longleftrightarrow> sl_occupied sl \<and> sl_jobTag sl = ms_jobTag m \<and> sl_queryGroup sl = ms_queryGroup m \<and>
     sl_kvTileIndex sl = ms_kvTileIndex m \<and> sl_physicalKvTileIndex sl = ms_physicalKvTileIndex m"

definition findAttentionKvSlot :: "GroupCtrlMsg \<Rightarrow> kvm \<Rightarrow> nat option" where
  "findAttentionKvSlot m s = find (\<lambda>i. slot_matches m (kv_slots s ! i)) [0..<length (kv_slots s)]"

definition findFreeAttentionKvSlot :: "kvm \<Rightarrow> nat option" where
  "findFreeAttentionKvSlot s = find (\<lambda>i. \<not> sl_occupied (kv_slots s ! i)) [0..<length (kv_slots s)]"

definition started_slot :: "GroupCtrlMsg \<Rightarrow> nat \<Rightarrow> KvSlot" where
  "started_slot m epoch = new_slot\<lparr>sl_occupied := True, sl_epoch := epoch, sl_generation := ms_generation m,
     sl_jobTag := ms_jobTag m, sl_queryGroup := ms_queryGroup m, sl_kvTileIndex := ms_kvTileIndex m,
     sl_physicalKvTileIndex := ms_physicalKvTileIndex m, sl_numKvTiles := ms_numKvTiles m,
     sl_kvLength := ms_kvLength m, sl_kvTileRows := ms_kvTileRows m, sl_tileRows := ms_tileRows m,
     sl_rowsPerBand := ms_rowsPerBand m, sl_headDim := ms_headDim m,
     sl_nodeStrideBytes := ms_nodeStrideBytes m, sl_kAddr := ms_kAddr m, sl_vAddr := ms_vAddr m,
     sl_bytes := ms_bytes m\<rparr>"

definition startAttentionKvSlot :: "nat \<Rightarrow> GroupCtrlMsg \<Rightarrow> kvm \<Rightarrow> kvm" where
  "startAttentionKvSlot i m s =
    (let s1 = upd_slot i (started_slot m (kv_nextEpoch s)) (s\<lparr>kv_nextEpoch := kv_nextEpoch s + 1\<rparr>)
     in emit [Stat StatKvManagerLoads 1, Stat StatKvManagerBytes (2 * ms_bytes m),
              Stat StatKvMaxSlots (count_if sl_occupied (kv_slots s1))] s1)"

definition subscribed :: "GroupCtrlMsg \<Rightarrow> nat \<Rightarrow> KvSlot \<Rightarrow> KvSlot" where
  "subscribed m w sl = sl\<lparr>sl_speculative := False,
     sl_subscribers := (sl_subscribers sl)[w := \<lparr>sb_present = True, sb_requestId = ms_reqSeq m,
        sb_generation = ms_generation m, sb_kDstAddr = ms_kDstAddr m, sb_vDstAddr = ms_vDstAddr m\<rparr>],
     sl_requestedMask := sl_requestedMask sl OR worker_bit w\<rparr>"

definition addAttentionKvSubscriber :: "nat \<Rightarrow> GroupCtrlMsg \<Rightarrow> nat \<Rightarrow> kvm \<Rightarrow> kvm" where
  "addAttentionKvSubscriber i m w s =
    (let sl = kv_slots s ! i
     in upd_slot i (subscribed m w sl)
          (if sl_speculative sl then emit [Stat StatKvManagerLookaheadHits 1] s else s))"

text \<open>The row chunks of \<open>issueAttentionKvDma\<close>: \<open>(rowsIssued, rows)\<close>, cut at the node bands.\<close>

function dma_chunks :: "nat \<Rightarrow> nat \<Rightarrow> nat \<Rightarrow> nat \<Rightarrow> (nat \<times> nat) list" where
  "dma_chunks firstRow rowsPerBand tileRows rowsIssued =
    (if rowsIssued < tileRows \<and> rowsPerBand \<noteq> 0 then
       let rowInBand = u32 (firstRow + rowsIssued) mod rowsPerBand;
           rows = min (tileRows - rowsIssued) (rowsPerBand - rowInBand)
       in (rowsIssued, rows) # dma_chunks firstRow rowsPerBand tileRows (rowsIssued + rows)
     else [])"
  by pat_completeness auto
termination
proof (relation "measure (\<lambda>(f, b, t, r). t - r)", goal_cases)
  case (2 firstRow rowsPerBand tileRows rowsIssued rowInBand rows)
  then have "rowInBand < rowsPerBand" by simp
  with 2 show ?case by simp
qed simp

declare dma_chunks.simps [simp del]

definition row_bytes :: "KvSlot \<Rightarrow> nat" where
  "row_bytes sl = sl_headDim sl * 4"

definition first_row :: "KvSlot \<Rightarrow> nat" where
  "first_row sl = u32 (sl_physicalKvTileIndex sl * sl_kvTileRows sl)"

definition dma_effect :: "gc_config \<Rightarrow> nat \<Rightarrow> bool \<Rightarrow> KvSlot \<Rightarrow> nat \<times> nat \<Rightarrow> gc_effect" where
  "dma_effect c i v sl chunk =
    (let globalRow = u32 (first_row sl + fst chunk)
     in Dma ((if v then sl_vAddr sl else sl_kAddr sl) + globalRow div sl_rowsPerBand sl * sl_nodeStrideBytes sl +
               globalRow mod sl_rowsPerBand sl * row_bytes sl)
            (snd chunk * row_bytes sl)
            (scratch_base c i v + fst chunk * row_bytes sl) i (sl_epoch sl) v)"

definition issueAttentionKvDma :: "gc_config \<Rightarrow> nat \<Rightarrow> bool \<Rightarrow> kvm \<Rightarrow> golem_error + kvm" where
  "issueAttentionKvDma c i v s =
    (let sl = kv_slots s ! i;
         chunks = dma_chunks (first_row sl) (sl_rowsPerBand sl) (sl_tileRows sl) 0
     in if sl_tileRows sl \<noteq> 0 \<and> sl_rowsPerBand sl = 0 then Inl DivisionByZero
        else Inr (emit (map (dma_effect c i v sl) chunks)
               (upd_slot i (if v then sl\<lparr>sl_vLoadsPending := sl_vLoadsPending sl + length chunks\<rparr>
                            else sl\<lparr>sl_kLoadsPending := sl_kLoadsPending sl + length chunks\<rparr>) s)))"

definition delivery_message :: "gc_config \<Rightarrow> nat \<Rightarrow> KvSlot \<Rightarrow> GroupCtrlMsg" where
  "delivery_message c w sl =
    (let sb = sl_subscribers sl ! w
     in (new_msg ATTENTION_KV_DELIVERY)\<lparr>ms_groupId := gc_groupId c mod 256, ms_workerSlot := w,
          ms_reqSeq := sb_requestId sb, ms_generation := sb_generation sb, ms_kDstAddr := sb_kDstAddr sb,
          ms_vDstAddr := sb_vDstAddr sb, ms_status := (if sl_failed sl then 0 else 1),
          ms_kData := (if sl_failed sl then [] else sl_kData sl),
          ms_vData := (if sl_failed sl then [] else sl_vData sl)\<rparr>)"

definition deliver_to :: "gc_config \<Rightarrow> nat \<Rightarrow> nat \<Rightarrow> kvm \<Rightarrow> kvm" where
  "deliver_to c i w s =
    (let sl = kv_slots s ! i
     in if \<not> sb_present (sl_subscribers sl ! w) \<or> sl_deliveredMask sl AND worker_bit w \<noteq> 0 then s
        else emit (sendRsp w (delivery_message c w sl) @ [Stat StatKvDeliveries 1] @
                   (if sl_failed sl then [] else [Stat StatKvDeliveryBytes (length (sl_kData sl) + length (sl_vData sl))]))
               (upd_slot i (sl\<lparr>sl_deliveredMask := sl_deliveredMask sl OR worker_bit w\<rparr>) s))"

definition slot_ready :: "KvSlot \<Rightarrow> bool" where
  "slot_ready sl \<longleftrightarrow> sl_failed sl \<or> (length (sl_kData sl) = sl_bytes sl \<and> length (sl_vData sl) = sl_bytes sl)"

definition deliverAttentionKvSlot :: "gc_config \<Rightarrow> nat \<Rightarrow> kvm \<Rightarrow> kvm" where
  "deliverAttentionKvSlot c i s =
    (if i \<ge> length (kv_slots s) then s
     else if \<not> sl_occupied (kv_slots s ! i) \<or> \<not> slot_ready (kv_slots s ! i) then s
     else fold (deliver_to c i) [0..<4] s)"

definition issue_read :: "gc_config \<Rightarrow> nat \<Rightarrow> (nat \<Rightarrow> bool) \<Rightarrow> nat \<Rightarrow> kvm \<Rightarrow> kvm" where
  "issue_read c maxReq acc i s =
    (let sl = kv_slots s ! i;
         chunk = min (sl_bytes sl - sl_readOffset sl) maxReq;
         source = scratch_base c i (sl_readingV sl) + sl_readOffset sl;
         tag = kv_nextTag s
     in emit [ReadLocal source chunk tag i (sl_epoch sl)]
          (upd_slot i (if acc tag then sl\<lparr>sl_readInflight := True\<rparr> else sl) (s\<lparr>kv_nextTag := tag + 1\<rparr>)))"

text \<open>The recursive call after the K operand happens once, for the V operand, and is written out.\<close>

definition pumpAttentionKvManagerRead :: "gc_config \<Rightarrow> nat \<Rightarrow> (nat \<Rightarrow> bool) \<Rightarrow> nat \<Rightarrow> kvm \<Rightarrow> kvm" where
  "pumpAttentionKvManagerRead c maxReq acc i s =
    (if i \<ge> length (kv_slots s) then s
     else
       let sl = kv_slots s ! i
       in if \<not> sl_occupied sl \<or> sl_failed sl \<or> sl_readInflight sl \<or> sl_kLoadsPending sl \<noteq> 0 \<or> sl_vLoadsPending sl \<noteq> 0 then s
          else if sl_readOffset sl \<noteq> sl_bytes sl then issue_read c maxReq acc i s
          else if sl_readingV sl then deliverAttentionKvSlot c i s
          else
            let s1 = upd_slot i (sl\<lparr>sl_readingV := True, sl_readOffset := 0\<rparr>) s
            in if sl_bytes sl \<noteq> 0 then issue_read c maxReq acc i s1 else deliverAttentionKvSlot c i s1)"

definition completeAttentionKvDma ::
  "gc_config \<Rightarrow> nat \<Rightarrow> (nat \<Rightarrow> bool) \<Rightarrow> nat \<Rightarrow> nat \<Rightarrow> bool \<Rightarrow> bool \<Rightarrow> kvm \<Rightarrow> kvm" where
  "completeAttentionKvDma c maxReq acc i epoch v ok s =
    (if i \<ge> length (kv_slots s) then s
     else
       let sl = kv_slots s ! i;
           pending = (if v then sl_vLoadsPending sl else sl_kLoadsPending sl)
       in if \<not> sl_occupied sl \<or> sl_epoch sl \<noteq> epoch then s
          else if pending = 0 then s
          else
            let sl1 = sl\<lparr>sl_failed := sl_failed sl \<or> \<not> ok\<rparr>;
                sl2 = (if v then sl1\<lparr>sl_vLoadsPending := pending - 1\<rparr> else sl1\<lparr>sl_kLoadsPending := pending - 1\<rparr>);
                s1 = upd_slot i sl2 s
            in if sl_kLoadsPending sl2 = 0 \<and> sl_vLoadsPending sl2 = 0
               then (if sl_failed sl2 then deliverAttentionKvSlot c i s1
                     else pumpAttentionKvManagerRead c maxReq acc i s1)
               else s1)"

text \<open>The completion callback of a local read of slot \<open>i\<close> issued with \<open>epoch\<close> and \<open>tag\<close>.\<close>

definition kv_readDone ::
  "gc_config \<Rightarrow> nat \<Rightarrow> (nat \<Rightarrow> bool) \<Rightarrow> nat \<Rightarrow> nat \<Rightarrow> nat \<Rightarrow> bool \<Rightarrow> nat \<Rightarrow> byte list \<Rightarrow> kvm \<Rightarrow> kvm" where
  "kv_readDone c maxReq acc i epoch tag ok callbackTag bytes s =
    (if i \<ge> length (kv_slots s) then s
     else
       let sl = kv_slots s ! i
       in if \<not> sl_occupied sl \<or> sl_epoch sl \<noteq> epoch then s
          else
            let sl1 = sl\<lparr>sl_readInflight := False\<rparr>
            in if \<not> ok \<or> callbackTag \<noteq> tag \<or> bytes = []
               then deliverAttentionKvSlot c i (upd_slot i (sl1\<lparr>sl_failed := True\<rparr>) s)
               else
                 let sl2 = (if sl_readingV sl1 then sl1\<lparr>sl_vData := sl_vData sl1 @ bytes\<rparr>
                            else sl1\<lparr>sl_kData := sl_kData sl1 @ bytes\<rparr>)
                 in pumpAttentionKvManagerRead c maxReq acc i
                      (upd_slot i (sl2\<lparr>sl_readOffset := sl_readOffset sl2 + length bytes\<rparr>) s))"


section \<open>Requests, acknowledgements, cancellation, release\<close>

definition failure_message :: "GroupCtrlMsg \<Rightarrow> GroupCtrlMsg" where
  "failure_message m = (new_msg ATTENTION_KV_DELIVERY)\<lparr>ms_reqSeq := ms_reqSeq m,
     ms_generation := ms_generation m, ms_status := 0\<rparr>"

definition slot_compatible :: "GroupCtrlMsg \<Rightarrow> KvSlot \<Rightarrow> bool" where
  "slot_compatible m sl \<longleftrightarrow> sl_bytes sl = ms_bytes m \<and> sl_kvTileRows sl = ms_kvTileRows m \<and>
     sl_numKvTiles sl = ms_numKvTiles m \<and> sl_kvLength sl = ms_kvLength m \<and> sl_tileRows sl = ms_tileRows m \<and>
     sl_rowsPerBand sl = ms_rowsPerBand m \<and> sl_headDim sl = ms_headDim m \<and>
     sl_nodeStrideBytes sl = ms_nodeStrideBytes m \<and> sl_kAddr sl = ms_kAddr m \<and> sl_vAddr sl = ms_vAddr m"

definition kv_request_refused :: "gc_config \<Rightarrow> GroupCtrlMsg \<Rightarrow> nat \<Rightarrow> bool" where
  "kv_request_refused c m w \<longleftrightarrow> \<not> gc_kvEnable c \<or> gc_role c \<noteq> MANAGER \<or> w \<ge> 4 \<or> ms_generation m = 0 \<or>
     ms_bytes m = 0 \<or> ms_numKvTiles m = 0 \<or> ms_kvLength m = 0 \<or> ms_kvTileIndex m \<ge> ms_numKvTiles m \<or>
     ms_bytes m > gc_kvTileBytes c"

definition handleAttentionKvRequest :: "gc_config \<Rightarrow> GroupCtrlMsg \<Rightarrow> nat \<Rightarrow> kvm \<Rightarrow> golem_error + kvm" where
  "handleAttentionKvRequest c m w s =
    (if kv_request_refused c m w then Inr (emit (sendRsp w (failure_message m)) s)
     else case findAttentionKvSlot m s of
       Some i \<Rightarrow>
         if \<not> slot_compatible m (kv_slots s ! i) \<or> sb_present (sl_subscribers (kv_slots s ! i) ! w)
         then Inr (emit (sendRsp w (failure_message m)) s)
         else Inr (deliverAttentionKvSlot c i (addAttentionKvSubscriber i m w (emit [Stat StatKvCoalesced 1] s)))
     | None \<Rightarrow>
         (case findFreeAttentionKvSlot s of
            None \<Rightarrow>
              if length (kv_pending s) \<ge> gc_queueDepth c then Inr (emit (sendRsp w (failure_message m)) s)
              else Inr (emit [Stat StatKvSlotStalls 1]
                     (s\<lparr>kv_pending := kv_pending s @ [\<lparr>pk_workerSlot = w, pk_requestId = ms_reqSeq m,
                        pk_request = attentionKvRequestFromMessage m\<rparr>]\<rparr>))
          | Some i \<Rightarrow>
              bindE (issueAttentionKvDma c i False (addAttentionKvSubscriber i m w (startAttentionKvSlot i m s)))
                (issueAttentionKvDma c i True)))"

definition pending_message :: "PendingKvRequest \<Rightarrow> GroupCtrlMsg" where
  "pending_message p = fillAttentionKvMessage ((new_msg ATTENTION_KV_REQUEST)\<lparr>ms_reqSeq := pk_requestId p,
     ms_bytes := u32 (rq_tileRows (pk_request p) * rq_headDim (pk_request p) * 4)\<rparr>) (pk_request p)"

lemma bindE_cong [fundef_cong]:
  "m = m' \<Longrightarrow> (\<And>x. m' = Inr x \<Longrightarrow> f x = g x) \<Longrightarrow> bindE m f = bindE m' g"
  by (cases m') auto

lemma pending_frame [simp]:
  "kv_pending (emit es s) = kv_pending s" "kv_pending (upd_slot i sl s) = kv_pending s"
  "kv_pending (startAttentionKvSlot i m s) = kv_pending s"
  "kv_pending (addAttentionKvSubscriber i m w s) = kv_pending s"
  "kv_pending (deliver_to c i w s) = kv_pending s"
  by (simp_all add: emit_def upd_slot_def startAttentionKvSlot_def addAttentionKvSubscriber_def deliver_to_def Let_def)

lemma fold_deliver_pending [simp]: "kv_pending (fold (deliver_to c i) ws s) = kv_pending s"
  by (induction ws arbitrary: s) simp_all

lemma deliver_pending [simp]: "kv_pending (deliverAttentionKvSlot c i s) = kv_pending s"
  by (simp add: deliverAttentionKvSlot_def)

lemma issue_pending: "issueAttentionKvDma c i v s = Inr s' \<Longrightarrow> kv_pending s' = kv_pending s"
  by (auto simp: issueAttentionKvDma_def Let_def split: if_splits)

lemma handle_pending:
  assumes "handleAttentionKvRequest c m w s = Inr s'"
    and "findAttentionKvSlot m s \<noteq> None \<or> findFreeAttentionKvSlot s \<noteq> None"
  shows "kv_pending s' = kv_pending s"
proof (cases "kv_request_refused c m w")
  case True
  with assms(1) show ?thesis by (auto simp: handleAttentionKvRequest_def)
next
  case False
  show ?thesis
  proof (cases "findAttentionKvSlot m s")
    case (Some i)
    with False assms(1) show ?thesis by (auto simp: handleAttentionKvRequest_def split: if_splits)
  next
    case None
    with assms(2) obtain i where "findFreeAttentionKvSlot s = Some i" by auto
    with None False assms(1) show ?thesis
      by (auto simp: handleAttentionKvRequest_def dest!: bindE_InrD issue_pending)
  qed
qed

lemma find_frame [simp]:
  "findAttentionKvSlot m (s\<lparr>kv_pending := q\<rparr>) = findAttentionKvSlot m s"
  "findFreeAttentionKvSlot (s\<lparr>kv_pending := q\<rparr>) = findFreeAttentionKvSlot s"
  by (simp_all add: findAttentionKvSlot_def findFreeAttentionKvSlot_def)

function processPendingAttentionKvRequests :: "gc_config \<Rightarrow> kvm \<Rightarrow> golem_error + kvm" where
  "processPendingAttentionKvRequests c s =
    (case kv_pending s of
       [] \<Rightarrow> Inr s
     | p # rest \<Rightarrow>
         if findAttentionKvSlot (pending_message p) s = None \<and> findFreeAttentionKvSlot s = None then Inr s
         else bindE (handleAttentionKvRequest c (pending_message p) (pk_workerSlot p) (s\<lparr>kv_pending := rest\<rparr>))
                (processPendingAttentionKvRequests c))"
  by pat_completeness auto
termination
proof (relation "measure (\<lambda>(c, s). length (kv_pending s))", goal_cases)
  case (2 c s p rest s')
  then have "kv_pending s' = rest" using handle_pending [of c "pending_message p" _ "s\<lparr>kv_pending := rest\<rparr>" s'] by simp
  with 2 show ?case by simp
qed simp

declare processPendingAttentionKvRequests.simps [simp del]

definition lookahead_message :: "KvSlot \<Rightarrow> nat \<Rightarrow> nat \<Rightarrow> nat \<Rightarrow> GroupCtrlMsg" where
  "lookahead_message released nextOrdinal nextTile tileRows = (new_msg ATTENTION_KV_REQUEST)\<lparr>
     ms_generation := sl_generation released, ms_jobTag := sl_jobTag released,
     ms_queryGroup := sl_queryGroup released, ms_kvTileIndex := nextOrdinal,
     ms_physicalKvTileIndex := nextTile, ms_numKvTiles := sl_numKvTiles released,
     ms_kvLength := sl_kvLength released, ms_kvTileRows := sl_kvTileRows released, ms_tileRows := tileRows,
     ms_rowsPerBand := sl_rowsPerBand released, ms_headDim := sl_headDim released,
     ms_nodeStrideBytes := sl_nodeStrideBytes released, ms_kAddr := sl_kAddr released,
     ms_vAddr := sl_vAddr released, ms_bytes := u32 (u32 (tileRows * sl_headDim released) * 4)\<rparr>"

definition farthest_ordinal :: "KvSlot \<Rightarrow> kvm \<Rightarrow> nat" where
  "farthest_ordinal released s =
    fold (\<lambda>sl acc. if sl_occupied sl \<and> sl_jobTag sl = sl_jobTag released \<and>
                     sl_queryGroup sl = sl_queryGroup released \<and> sl_numKvTiles sl = sl_numKvTiles released
                   then max acc (sl_kvTileIndex sl) else acc)
      (kv_slots s) (sl_kvTileIndex released)"

definition maybeStartAttentionKvLookahead :: "gc_config \<Rightarrow> KvSlot \<Rightarrow> kvm \<Rightarrow> golem_error + kvm" where
  "maybeStartAttentionKvLookahead c released s =
    (if \<not> gc_kvLookahead c \<or> gc_role c \<noteq> MANAGER \<or> sl_failed released \<or> sl_numKvTiles released = 0 \<or>
        sl_kvLength released = 0 \<or> kv_pending s \<noteq> [] then Inr s
     else case findFreeAttentionKvSlot s of
       None \<Rightarrow> Inr s
     | Some i \<Rightarrow>
         let nextOrdinal = u32 (farthest_ordinal released s + 1)
         in if nextOrdinal \<ge> sl_numKvTiles released then Inr s
            else
              let ordinalDelta = sub32 nextOrdinal (sl_kvTileIndex released);
                  nextTile = u32 (sl_physicalKvTileIndex released + ordinalDelta) mod sl_numKvTiles released;
                  firstRow = nextTile * sl_kvTileRows released
              in if firstRow \<ge> sl_kvLength released then Inr s
                 else
                   let tileRows = min (sl_kvTileRows released) (sl_kvLength released - firstRow);
                       s1 = startAttentionKvSlot i (lookahead_message released nextOrdinal nextTile tileRows) s;
                       s2 = emit [Stat StatKvManagerLookaheadLoads 1]
                              (upd_slot i ((kv_slots s1 ! i)\<lparr>sl_speculative := True\<rparr>) s1)
                   in bindE (issueAttentionKvDma c i False s2) (issueAttentionKvDma c i True))"

definition slot_accounted :: "gc_config \<Rightarrow> KvSlot \<Rightarrow> bool" where
  "slot_accounted c sl \<longleftrightarrow>
    (let expectedMask = (mask (gc_kvExpectedWorkers c) :: 8 word);
         accountedMask = sl_requestedMask sl OR sl_cancelledMask sl;
         doneMask = sl_completedMask sl OR sl_cancelledMask sl
     in accountedMask AND expectedMask = expectedMask \<and> doneMask AND expectedMask = expectedMask)"

definition maybeReleaseAttentionKvSlot :: "gc_config \<Rightarrow> bool \<Rightarrow> nat \<Rightarrow> kvm \<Rightarrow> golem_error + kvm" where
  "maybeReleaseAttentionKvSlot c allowLookahead i s =
    (if i \<ge> length (kv_slots s) then Inr s
     else
       let released = kv_slots s ! i
       in if \<not> sl_occupied released then Inr s
          else if \<not> slot_accounted c released then Inr s
          else bindE (processPendingAttentionKvRequests c (upd_slot i new_slot s)) (\<lambda>s1.
                 if allowLookahead then maybeStartAttentionKvLookahead c released s1 else Inr s1))"

definition ack_matches :: "GroupCtrlMsg \<Rightarrow> nat \<Rightarrow> KvSlot \<Rightarrow> bool" where
  "ack_matches m w sl \<longleftrightarrow>
    (let sb = sl_subscribers sl ! w
     in sl_occupied sl \<and> sb_present sb \<and> sb_requestId sb = ms_reqSeq m \<and> sb_generation sb = ms_generation m)"

definition handleAttentionKvAck :: "gc_config \<Rightarrow> GroupCtrlMsg \<Rightarrow> nat \<Rightarrow> kvm \<Rightarrow> golem_error + kvm" where
  "handleAttentionKvAck c m w s =
    (if \<not> gc_kvEnable c \<or> gc_role c \<noteq> MANAGER \<or> w \<ge> 4 then Inr s
     else case find (\<lambda>i. ack_matches m w (kv_slots s ! i)) [0..<length (kv_slots s)] of
       None \<Rightarrow> Inr s
     | Some i \<Rightarrow>
         let sl = kv_slots s ! i
         in maybeReleaseAttentionKvSlot c True i
              (upd_slot i (sl\<lparr>sl_completedMask := sl_completedMask sl OR worker_bit w\<rparr>) s))"

text \<open>One iteration of the cancellation loop, with the running count.\<close>

definition cancel_slot :: "gc_config \<Rightarrow> GroupCtrlMsg \<Rightarrow> nat \<Rightarrow> nat \<Rightarrow> kvm \<times> nat \<Rightarrow> golem_error + (kvm \<times> nat)" where
  "cancel_slot c m w i x =
    (case x of (s, cancelled) \<Rightarrow>
       let sl = kv_slots s ! i; sb = sl_subscribers sl ! w
       in if \<not> sl_occupied sl \<or> sl_generation sl \<noteq> ms_generation m then Inr (s, cancelled)
          else
            let hit = sb_present sb \<and> sb_generation sb = ms_generation m;
                sl1 = (if hit then sl\<lparr>sl_completedMask := sl_completedMask sl OR worker_bit w\<rparr>
                       else sl\<lparr>sl_cancelledMask := sl_cancelledMask sl OR worker_bit w\<rparr>)
            in bindE (maybeReleaseAttentionKvSlot c False i (upd_slot i sl1 s)) (\<lambda>s'.
                 Inr (s', if hit then cancelled + 1 else cancelled)))"

primrec foldE :: "('i \<Rightarrow> 'a \<Rightarrow> 'e + 'a) \<Rightarrow> 'i list \<Rightarrow> 'a \<Rightarrow> 'e + 'a" where
  "foldE f [] x = Inr x"
| "foldE f (i # ks) x = bindE (f i x) (foldE f ks)"

definition handleAttentionKvCancel :: "gc_config \<Rightarrow> GroupCtrlMsg \<Rightarrow> nat \<Rightarrow> kvm \<Rightarrow> golem_error + kvm" where
  "handleAttentionKvCancel c m w s =
    (if \<not> gc_kvEnable c \<or> gc_role c \<noteq> MANAGER \<or> w \<ge> 4 \<or> ms_generation m = 0 then Inr s
     else bindE (foldE (cancel_slot c m w) [0..<length (kv_slots s)] (s, 0)) (\<lambda>(s1, n).
            let dropped = (\<lambda>p. pk_workerSlot p = w \<and> rq_generation (pk_request p) = ms_generation m);
                cancelled = n + count_if dropped (kv_pending s1);
                s2 = s1\<lparr>kv_pending := filter (\<lambda>p. \<not> dropped p) (kv_pending s1)\<rparr>
            in Inr (if cancelled \<noteq> 0 then emit [Stat StatKvCancels cancelled] s2 else s2)))"

text \<open>The manager's part of \<open>tick\<close>.\<close>

definition kv_manager_tick :: "gc_config \<Rightarrow> nat \<Rightarrow> (nat \<Rightarrow> bool) \<Rightarrow> kvm \<Rightarrow> kvm" where
  "kv_manager_tick c maxReq acc s =
    (if gc_kvEnable c then fold (pumpAttentionKvManagerRead c maxReq acc) [0..<length (kv_slots s)] s else s)"


section \<open>The DMA of a tile\<close>

text \<open>Host address of a row of the tile: bands of \<open>rowsPerBand\<close> rows, one band per memory node.\<close>

definition row_address :: "KvSlot \<Rightarrow> bool \<Rightarrow> nat \<Rightarrow> addr" where
  "row_address sl v k =
    (let row = first_row sl + k
     in (if v then sl_vAddr sl else sl_kAddr sl) + row div sl_rowsPerBand sl * sl_nodeStrideBytes sl +
        row mod sl_rowsPerBand sl * row_bytes sl)"

text \<open>The rows that a DMA request moves, as pairs of source and destination address.\<close>

fun row_moves :: "nat \<Rightarrow> gc_effect \<Rightarrow> (addr \<times> addr) list" where
  "row_moves rb (Dma source bytes destination i e v) =
     map (\<lambda>j. (source + j * rb, destination + j * rb)) [0..<bytes div rb]"
| "row_moves rb _ = []"

definition tile_dma :: "gc_config \<Rightarrow> nat \<Rightarrow> bool \<Rightarrow> KvSlot \<Rightarrow> gc_effect list" where
  "tile_dma c i v sl =
    map (dma_effect c i v sl) (dma_chunks (first_row sl) (sl_rowsPerBand sl) (sl_tileRows sl) 0)"

lemma chunk_moves:
  assumes "0 < sl_rowsPerBand sl" "0 < row_bytes sl" "first_row sl + r + n \<le> 2 ^ 32" "0 < n"
    and "(first_row sl + r) mod sl_rowsPerBand sl + n \<le> sl_rowsPerBand sl"
  shows "row_moves (row_bytes sl) (dma_effect c i v sl (r, n)) =
    map (\<lambda>k. (row_address sl v k, scratch_base c i v + k * row_bytes sl)) [r..<r + n]"
proof -
  define b where "b = sl_rowsPerBand sl"
  define g where "g = first_row sl + r"
  have "u32 g = g" using assms(3,4) by (intro u32_id) (simp add: g_def)
  have band: "(g + j) div b = g div b \<and> (g + j) mod b = g mod b + j" if "j < n" for j
  proof -
    have lt: "g mod b + j < b" using assms(5) that by (simp add: g_def b_def)
    have eq: "g + j = (g mod b + j) + b * (g div b)" by simp
    have "b \<noteq> 0" using lt by auto
    then have "(g mod b + j + b * (g div b)) div b = g div b" "(g mod b + j + b * (g div b)) mod b = g mod b + j"
      using lt by (simp_all only: div_mult_self2 mod_mult_self2 div_less mod_less add_0_right not_False_eq_True)
    then show ?thesis using eq by metis
  qed
  have "row_moves (row_bytes sl) (dma_effect c i v sl (r, n)) =
      map (\<lambda>j. (row_address sl v (r + j), scratch_base c i v + (r + j) * row_bytes sl)) [0..<n]"
  proof -
    let ?base = "if v then sl_vAddr sl else sl_kAddr sl"
    have "dma_effect c i v sl (r, n) = Dma (?base + g div b * sl_nodeStrideBytes sl + g mod b * row_bytes sl) (n * row_bytes sl)
        (scratch_base c i v + r * row_bytes sl) i (sl_epoch sl) v"
      unfolding dma_effect_def Let_def fst_conv snd_conv g_def [symmetric] \<open>u32 g = g\<close> b_def [symmetric] ..
    moreover have "row_address sl v (r + j) = ?base + g div b * sl_nodeStrideBytes sl + g mod b * row_bytes sl + j * row_bytes sl"
      if "j < n" for j
    proof -
      have "first_row sl + (r + j) = g + j" by (simp add: g_def)
      then show ?thesis unfolding row_address_def Let_def b_def [symmetric] using band [OF that] by (simp only: distrib_right add.assoc)
    qed
    ultimately show ?thesis using assms(2) by (simp add: distrib_right)
  qed
  also have "\<dots> = map (\<lambda>k. (row_address sl v k, scratch_base c i v + k * row_bytes sl)) (map (\<lambda>j. r + j) [0..<n])"
    by simp
  also have "map (\<lambda>j. r + j) [0..<n] = [r..<r + n]" by (induction n) auto
  finally show ?thesis .
qed

lemma dma_chunks_moves:
  assumes "0 < sl_rowsPerBand sl" "0 < row_bytes sl" "first_row sl + sl_tileRows sl \<le> 2 ^ 32" "r \<le> sl_tileRows sl"
  shows "concat (map (\<lambda>ch. row_moves (row_bytes sl) (dma_effect c i v sl ch))
      (dma_chunks (first_row sl) (sl_rowsPerBand sl) (sl_tileRows sl) r)) =
    map (\<lambda>k. (row_address sl v k, scratch_base c i v + k * row_bytes sl)) [r..<sl_tileRows sl]"
  using assms(4)
proof (induction "sl_tileRows sl - r" arbitrary: r rule: less_induct)
  case less
  show ?case
  proof (cases "r = sl_tileRows sl")
    case True
    then show ?thesis by (simp add: dma_chunks.simps)
  next
    case False
    then have r: "r < sl_tileRows sl" using less.prems by simp
    define x where "x = u32 (first_row sl + r) mod sl_rowsPerBand sl"
    define n where "n = min (sl_tileRows sl - r) (sl_rowsPerBand sl - x)"
    have x: "x < sl_rowsPerBand sl" "x = (first_row sl + r) mod sl_rowsPerBand sl"
      using assms(1,3) r by (simp_all add: x_def)
    have n: "0 < n" "r + n \<le> sl_tileRows sl" "(first_row sl + r) mod sl_rowsPerBand sl + n \<le> sl_rowsPerBand sl"
      using r x by (auto simp: n_def)
    have step: "dma_chunks (first_row sl) (sl_rowsPerBand sl) (sl_tileRows sl) r =
        (r, n) # dma_chunks (first_row sl) (sl_rowsPerBand sl) (sl_tileRows sl) (r + n)"
      using r assms(1) by (subst dma_chunks.simps) (simp add: Let_def n_def x_def)
    have fit: "first_row sl + r + n \<le> 2 ^ 32" using n(2) assms(3) by linarith
    have "[r..<sl_tileRows sl] = [r..<r + n] @ [r + n..<sl_tileRows sl]"
      using n upt_add_eq_append [of r "r + n" "sl_tileRows sl - (r + n)"] by simp
    then show ?thesis
      using less.hyps [of "r + n"] n chunk_moves [OF assms(1,2) fit n(1,3), of c i v] unfolding step by simp
  qed
qed

text \<open>C5: the DMA of a K/V tile: the row chunks into which the manager splits a tile move every row of
  the tile exactly once, in order, from its host address (the memory node of its band, the offset
  within the band) to its place in the slot's scratch tile; the loop that computes them
  terminates for every positive band size.\<close>

theorem kv_dma_moves_tile:
  assumes "0 < sl_rowsPerBand sl" "0 < sl_headDim sl" "first_row sl + sl_tileRows sl \<le> 2 ^ 32"
  shows "concat (map (row_moves (row_bytes sl)) (tile_dma c i v sl)) =
    map (\<lambda>k. (row_address sl v k, scratch_base c i v + k * row_bytes sl)) [0..<sl_tileRows sl]"
  using dma_chunks_moves [of sl 0 c i v] assms by (simp add: tile_dma_def comp_def row_bytes_def)

text \<open>Six rows of eight bytes, from row six on, in bands of four: two rows of the second band, four of the third.\<close>

definition demo_band_slot :: KvSlot where
  "demo_band_slot = new_slot\<lparr>sl_physicalKvTileIndex := 1, sl_kvTileRows := 6, sl_tileRows := 6, sl_rowsPerBand := 4, sl_headDim := 2,
     sl_nodeStrideBytes := 4096, sl_kAddr := 65536\<rparr>"

theorem kv_dma_moves_tile_witness:
  "concat (map (row_moves 8) (tile_dma (demo_config MANAGER) 0 False demo_band_slot)) =
     [(65536 + 4096 + 16, 0x40000), (65536 + 4096 + 24, 0x40008), (65536 + 2 * 4096, 0x40010), (65536 + 2 * 4096 + 8, 0x40018),
      (65536 + 2 * 4096 + 16, 0x40020), (65536 + 2 * 4096 + 24, 0x40028)]"
proof -
  have "0 < sl_rowsPerBand demo_band_slot" "0 < sl_headDim demo_band_slot" "first_row demo_band_slot + sl_tileRows demo_band_slot \<le> 2 ^ 32"
    by (simp_all add: demo_band_slot_def first_row_def u32_def)
  from kv_dma_moves_tile [OF this, of "demo_config MANAGER" 0 False] show ?thesis
    by (simp add: demo_band_slot_def row_bytes_def row_address_def first_row_def u32_def scratch_base_def demo_config_def upt_rec)
qed

end
