(* ===== verification/Group_Kv_Delivery.thy ===== *)
theory Group_Kv_Delivery
  imports Group_Kv_Manager
begin

text \<open>
  Runs of the manager's K/V distribution and their invariant: what a slot has read so far is a
  prefix of its scratch tiles, every subscriber stands for a request that was received, and every
  delivery that succeeds carries the complete tiles.

  \<open>tile i e v\<close> is the content of the scratch tile that the DMA of slot \<open>i\<close> under epoch \<open>e\<close> leaves
  for the K (\<open>v = False\<close>) or V operand: the contract of the local memory is that a read callback
  returns the requested range of it. \<open>asked\<close> collects the requests of the run.
\<close>

unbundle bit_operations_syntax

section \<open>Frame facts\<close>

lemma kvm_frame [simp]:
  "kv_slots (emit es s) = kv_slots s" "kv_out (emit es s) = kv_out s @ es"
  "kv_nextEpoch (emit es s) = kv_nextEpoch s" "kv_nextTag (emit es s) = kv_nextTag s"
  "kv_slots (upd_slot i sl s) = (kv_slots s)[i := sl]" "kv_out (upd_slot i sl s) = kv_out s"
  "kv_nextEpoch (upd_slot i sl s) = kv_nextEpoch s" "kv_nextTag (upd_slot i sl s) = kv_nextTag s"
  by (simp_all add: emit_def upd_slot_def)

lemma find_free_bound: "findFreeAttentionKvSlot s = Some i \<Longrightarrow> i < length (kv_slots s) \<and> \<not> sl_occupied (kv_slots s ! i)"
  by (auto simp: findFreeAttentionKvSlot_def find_Some_iff)

lemma find_slot_bound: "findAttentionKvSlot m s = Some i \<Longrightarrow> i < length (kv_slots s) \<and> slot_matches m (kv_slots s ! i)"
  by (auto simp: findAttentionKvSlot_def find_Some_iff)

lemma bit_worker_bit: "w < 8 \<Longrightarrow> bit (worker_bit w) k \<longleftrightarrow> k = w"
  by (auto simp: worker_bit_def bit_simps)

section \<open>The invariant\<close>

text \<open>The request \<open>m\<close> asks for the tile that the slot holds.\<close>

definition serves :: "GroupCtrlMsg \<Rightarrow> KvSlot \<Rightarrow> bool" where
  "serves m sl \<longleftrightarrow> sl_jobTag sl = ms_jobTag m \<and> sl_queryGroup sl = ms_queryGroup m \<and>
     sl_kvTileIndex sl = ms_kvTileIndex m \<and> sl_physicalKvTileIndex sl = ms_physicalKvTileIndex m \<and>
     sl_kvTileRows sl = ms_kvTileRows m \<and> sl_tileRows sl = ms_tileRows m \<and>
     sl_rowsPerBand sl = ms_rowsPerBand m \<and> sl_headDim sl = ms_headDim m \<and>
     sl_nodeStrideBytes sl = ms_nodeStrideBytes m \<and> sl_kAddr sl = ms_kAddr m \<and> sl_vAddr sl = ms_vAddr m"

definition sub_of :: "GroupCtrlMsg \<Rightarrow> KvSubscriber" where
  "sub_of m = \<lparr>sb_present = True, sb_requestId = ms_reqSeq m, sb_generation = ms_generation m,
     sb_kDstAddr = ms_kDstAddr m, sb_vDstAddr = ms_vDstAddr m\<rparr>"

definition subscriber_ok :: "(GroupCtrlMsg \<times> nat) set \<Rightarrow> KvSlot \<Rightarrow> nat \<Rightarrow> bool" where
  "subscriber_ok asked sl w \<longleftrightarrow> (sb_present (sl_subscribers sl ! w) \<longrightarrow>
     (\<exists>m. (m, w) \<in> asked \<and> serves m sl \<and> sl_subscribers sl ! w = sub_of m))"

definition data_ok :: "(nat \<Rightarrow> nat \<Rightarrow> bool \<Rightarrow> nat \<Rightarrow> byte) \<Rightarrow> nat \<Rightarrow> KvSlot \<Rightarrow> bool" where
  "data_ok tile i sl \<longleftrightarrow> sl_readOffset sl \<le> sl_bytes sl \<and>
     sl_kData sl = map (tile i (sl_epoch sl) False) [0..<if sl_readingV sl then sl_bytes sl else sl_readOffset sl] \<and>
     sl_vData sl = map (tile i (sl_epoch sl) True) [0..<if sl_readingV sl then sl_readOffset sl else 0]"

definition slot_inv ::
  "gc_config \<Rightarrow> (nat \<Rightarrow> nat \<Rightarrow> bool \<Rightarrow> nat \<Rightarrow> byte) \<Rightarrow> (GroupCtrlMsg \<times> nat) set \<Rightarrow> gc_effect set \<Rightarrow> nat \<Rightarrow> KvSlot \<Rightarrow> bool" where
  "slot_inv c tile asked out i sl \<longleftrightarrow> sl_occupied sl \<longrightarrow>
     length (sl_subscribers sl) = 4 \<and> (\<forall>w < 4. subscriber_ok asked sl w) \<and> data_ok tile i sl \<and>
     (\<forall>v. set (tile_dma c i v sl) \<subseteq> out)"

definition delivery_ok ::
  "gc_config \<Rightarrow> (nat \<Rightarrow> nat \<Rightarrow> bool \<Rightarrow> nat \<Rightarrow> byte) \<Rightarrow> (GroupCtrlMsg \<times> nat) set \<Rightarrow> gc_effect set \<Rightarrow> nat \<Rightarrow> GroupCtrlMsg \<Rightarrow> bool" where
  "delivery_ok c tile asked out w d \<longleftrightarrow>
    (\<exists>m i e n. (m, w) \<in> asked \<and> ms_reqSeq d = ms_reqSeq m \<and> ms_generation d = ms_generation m \<and>
       ms_kDstAddr d = ms_kDstAddr m \<and> ms_vDstAddr d = ms_vDstAddr m \<and>
       ms_kData d = map (tile i e False) [0..<n] \<and> ms_vData d = map (tile i e True) [0..<n] \<and>
       (\<forall>v. set (tile_dma c i v (started_slot m e)) \<subseteq> out))"

definition effect_ok ::
  "gc_config \<Rightarrow> (nat \<Rightarrow> nat \<Rightarrow> bool \<Rightarrow> nat \<Rightarrow> byte) \<Rightarrow> (GroupCtrlMsg \<times> nat) set \<Rightarrow> gc_effect set \<Rightarrow> gc_effect \<Rightarrow> bool" where
  "effect_ok c tile asked out x \<longleftrightarrow>
    (\<forall>w d. x = SendRsp w d \<and> ms_type d = ATTENTION_KV_DELIVERY \<and> ms_status d = 1 \<longrightarrow> delivery_ok c tile asked out w d)"

definition pending_ok :: "(GroupCtrlMsg \<times> nat) set \<Rightarrow> PendingKvRequest \<Rightarrow> bool" where
  "pending_ok asked p \<longleftrightarrow> pk_workerSlot p < 4 \<and>
    (\<exists>m. (m, pk_workerSlot p) \<in> asked \<and> pk_requestId p = ms_reqSeq m \<and> pk_request p = attentionKvRequestFromMessage m)"

definition kv_inv ::
  "gc_config \<Rightarrow> (nat \<Rightarrow> nat \<Rightarrow> bool \<Rightarrow> nat \<Rightarrow> byte) \<Rightarrow> (GroupCtrlMsg \<times> nat) set \<Rightarrow> kvm \<Rightarrow> bool" where
  "kv_inv c tile asked s \<longleftrightarrow>
     (\<forall>i < length (kv_slots s). slot_inv c tile asked (set (kv_out s)) i (kv_slots s ! i)) \<and>
     (\<forall>p \<in> set (kv_pending s). pending_ok asked p) \<and>
     (\<forall>x \<in> set (kv_out s). effect_ok c tile asked (set (kv_out s)) x)"

lemma slot_inv_mono: "slot_inv c tile asked out i sl \<Longrightarrow> out \<subseteq> out' \<Longrightarrow> slot_inv c tile asked out' i sl"
  by (auto simp: slot_inv_def)

lemma delivery_ok_mono:
  assumes "delivery_ok c tile asked out w d" "out \<subseteq> out'"
  shows "delivery_ok c tile asked out' w d"
proof -
  from assms(1) obtain m i e n where "(m, w) \<in> asked" "ms_reqSeq d = ms_reqSeq m" "ms_generation d = ms_generation m"
      "ms_kDstAddr d = ms_kDstAddr m" "ms_vDstAddr d = ms_vDstAddr m" "ms_kData d = map (tile i e False) [0..<n]"
      "ms_vData d = map (tile i e True) [0..<n]" "\<forall>v. set (tile_dma c i v (started_slot m e)) \<subseteq> out"
    unfolding delivery_ok_def by blast
  then show ?thesis unfolding delivery_ok_def using assms(2) by blast
qed

lemma effect_ok_mono: "effect_ok c tile asked out x \<Longrightarrow> out \<subseteq> out' \<Longrightarrow> effect_ok c tile asked out' x"
  unfolding effect_ok_def using delivery_ok_mono by blast

lemma kv_inv_emit:
  assumes "kv_inv c tile asked s" "\<And>x. x \<in> set es \<Longrightarrow> effect_ok c tile asked (set (kv_out s) \<union> set es) x"
  shows "kv_inv c tile asked (emit es s)"
  using assms unfolding kv_inv_def
  by (auto intro: slot_inv_mono [of c tile asked "set (kv_out s)"] effect_ok_mono [of c tile asked "set (kv_out s)"])

lemma kv_inv_upd:
  assumes "kv_inv c tile asked s" "slot_inv c tile asked (set (kv_out s)) i sl"
  shows "kv_inv c tile asked (upd_slot i sl s)"
proof -
  have "slot_inv c tile asked (set (kv_out s)) k ((kv_slots s)[i := sl] ! k)" if "k < length (kv_slots s)" for k
    using assms that by (cases "k = i") (auto simp: kv_inv_def)
  then show ?thesis using assms(1) by (simp add: kv_inv_def)
qed

lemma kv_invD: "kv_inv c tile asked s \<Longrightarrow> i < length (kv_slots s) \<Longrightarrow> slot_inv c tile asked (set (kv_out s)) i (kv_slots s ! i)"
  by (simp add: kv_inv_def)

text \<open>Effects that are no successful delivery.\<close>

lemma effect_ok_simps [simp]:
  "effect_ok c tile asked out (Stat st n)" "effect_ok c tile asked out (Dma a b d i e v)"
  "effect_ok c tile asked out (ReadLocal a b t i e)" "effect_ok c tile asked out (WriteLocal a bs t i)"
  by (simp_all add: effect_ok_def)

lemma effect_ok_failure: "x \<in> set (sendRsp w (failure_message m)) \<Longrightarrow> effect_ok c tile asked out x"
  by (auto simp: sendRsp_def failure_message_def new_msg_def effect_ok_def split: if_splits)

text \<open>Slot fields that the invariant does not read.\<close>

lemma tile_dma_frame [simp]:
  "tile_dma c i v (sl\<lparr>sl_failed := b\<rparr>) = tile_dma c i v sl"
  "tile_dma c i v (sl\<lparr>sl_speculative := b\<rparr>) = tile_dma c i v sl"
  "tile_dma c i v (sl\<lparr>sl_readInflight := b\<rparr>) = tile_dma c i v sl"
  "tile_dma c i v (sl\<lparr>sl_readingV := b\<rparr>) = tile_dma c i v sl"
  "tile_dma c i v (sl\<lparr>sl_kLoadsPending := n\<rparr>) = tile_dma c i v sl"
  "tile_dma c i v (sl\<lparr>sl_vLoadsPending := n\<rparr>) = tile_dma c i v sl"
  "tile_dma c i v (sl\<lparr>sl_requestedMask := k\<rparr>) = tile_dma c i v sl"
  "tile_dma c i v (sl\<lparr>sl_deliveredMask := k\<rparr>) = tile_dma c i v sl"
  "tile_dma c i v (sl\<lparr>sl_completedMask := k\<rparr>) = tile_dma c i v sl"
  "tile_dma c i v (sl\<lparr>sl_cancelledMask := k\<rparr>) = tile_dma c i v sl"
  "tile_dma c i v (sl\<lparr>sl_readOffset := n\<rparr>) = tile_dma c i v sl"
  "tile_dma c i v (sl\<lparr>sl_subscribers := ss\<rparr>) = tile_dma c i v sl"
  "tile_dma c i v (sl\<lparr>sl_kData := bs\<rparr>) = tile_dma c i v sl"
  "tile_dma c i v (sl\<lparr>sl_vData := bs\<rparr>) = tile_dma c i v sl"
  by (simp_all add: tile_dma_def dma_effect_def first_row_def row_bytes_def Let_def)

lemma slot_inv_frame [simp]:
  "slot_inv c tile asked out i (sl\<lparr>sl_failed := b\<rparr>) = slot_inv c tile asked out i sl"
  "slot_inv c tile asked out i (sl\<lparr>sl_speculative := b\<rparr>) = slot_inv c tile asked out i sl"
  "slot_inv c tile asked out i (sl\<lparr>sl_readInflight := b\<rparr>) = slot_inv c tile asked out i sl"
  "slot_inv c tile asked out i (sl\<lparr>sl_kLoadsPending := n\<rparr>) = slot_inv c tile asked out i sl"
  "slot_inv c tile asked out i (sl\<lparr>sl_vLoadsPending := n\<rparr>) = slot_inv c tile asked out i sl"
  "slot_inv c tile asked out i (sl\<lparr>sl_requestedMask := k\<rparr>) = slot_inv c tile asked out i sl"
  "slot_inv c tile asked out i (sl\<lparr>sl_deliveredMask := k\<rparr>) = slot_inv c tile asked out i sl"
  "slot_inv c tile asked out i (sl\<lparr>sl_completedMask := k\<rparr>) = slot_inv c tile asked out i sl"
  "slot_inv c tile asked out i (sl\<lparr>sl_cancelledMask := k\<rparr>) = slot_inv c tile asked out i sl"
  by (simp_all add: slot_inv_def subscriber_ok_def data_ok_def serves_def)

lemma slot_inv_new [simp]: "slot_inv c tile asked out i new_slot"
  by (simp add: slot_inv_def new_slot_def)

lemma serves_dma: "serves m sl \<Longrightarrow> tile_dma c i v (started_slot m (sl_epoch sl)) = tile_dma c i v sl"
  by (simp add: tile_dma_def dma_effect_def first_row_def row_bytes_def Let_def serves_def started_slot_def)


section \<open>Every operation keeps the invariant\<close>

lemma delivery_message_ok:
  assumes "slot_inv c tile asked out i sl" "sl_occupied sl" "w < 4" "sb_present (sl_subscribers sl ! w)"
    and "slot_ready sl" "\<not> sl_failed sl"
  shows "delivery_ok c tile asked out w (delivery_message c w sl)"
proof -
  have inv: "subscriber_ok asked sl w" "data_ok tile i sl" "\<forall>v. set (tile_dma c i v sl) \<subseteq> out"
    using assms(1-3) by (auto simp: slot_inv_def)
  obtain m where m: "(m, w) \<in> asked" "serves m sl" "sl_subscribers sl ! w = sub_of m"
    using inv(1) assms(4) by (auto simp: subscriber_ok_def)
  have full: "bs = map f [0..<n]" if "bs = map f [0..<k]" "length bs = n" for bs :: "byte list" and f k n
    using that by simp
  have data: "sl_kData sl = map (tile i (sl_epoch sl) False) [0..<sl_bytes sl]"
    "sl_vData sl = map (tile i (sl_epoch sl) True) [0..<sl_bytes sl]"
    using inv(2) assms(5,6) full unfolding data_ok_def slot_ready_def by blast+
  have "\<forall>v. set (tile_dma c i v (started_slot m (sl_epoch sl))) \<subseteq> out"
    using inv(3) serves_dma [OF m(2)] by metis
  then show ?thesis
    unfolding delivery_ok_def delivery_message_def Let_def m(3) sub_of_def using m(1) data assms(6)
    by (intro exI [of _ m] exI [of _ i] exI [of _ "sl_epoch sl"] exI [of _ "sl_bytes sl"]) simp
qed

lemma deliver_to_keeps:
  assumes "kv_inv c tile asked s" "i < length (kv_slots s)" "sl_occupied (kv_slots s ! i)" "slot_ready (kv_slots s ! i)" "w < 4"
  shows "kv_inv c tile asked (deliver_to c i w s) \<and> length (kv_slots (deliver_to c i w s)) = length (kv_slots s) \<and>
    sl_occupied (kv_slots (deliver_to c i w s) ! i) \<and> slot_ready (kv_slots (deliver_to c i w s) ! i)"
proof -
  let ?sl = "kv_slots s ! i"
  have inv: "slot_inv c tile asked (set (kv_out s)) i ?sl" by (rule kv_invD [OF assms(1,2)])
  have msg: "effect_ok c tile asked (set (kv_out s)) x"
    if "x \<in> set (sendRsp w (delivery_message c w ?sl))" "sb_present (sl_subscribers ?sl ! w)" for x
  proof (cases "sl_failed ?sl")
    case True
    then show ?thesis using that by (auto simp: sendRsp_def delivery_message_def Let_def effect_ok_def split: if_splits)
  next
    case False
    from delivery_message_ok [OF inv assms(3,5) that(2) assms(4) this] show ?thesis
      using that by (auto simp: sendRsp_def effect_ok_def delivery_message_def Let_def new_msg_def split: if_splits)
  qed
  let ?es = "sendRsp w (delivery_message c w ?sl) @ [Stat StatKvDeliveries 1] @
      (if sl_failed ?sl then [] else [Stat StatKvDeliveryBytes (length (sl_kData ?sl) + length (sl_vData ?sl))])"
  let ?s1 = "upd_slot i (?sl\<lparr>sl_deliveredMask := sl_deliveredMask ?sl OR worker_bit w\<rparr>) s"
  have s1: "kv_inv c tile asked ?s1" using inv by (intro kv_inv_upd [OF assms(1)]) simp
  have "kv_inv c tile asked (emit ?es ?s1)" if "sb_present (sl_subscribers ?sl ! w)"
  proof (rule kv_inv_emit [OF s1])
    fix x assume "x \<in> set ?es"
    then consider "x \<in> set (sendRsp w (delivery_message c w ?sl))" | k n where "x = Stat k n" by (auto split: if_splits)
    then show "effect_ok c tile asked (set (kv_out ?s1) \<union> set ?es) x"
    proof cases
      case 1
      show ?thesis by (rule effect_ok_mono [OF msg [OF 1 that]]) auto
    qed simp
  qed
  then show ?thesis
    using assms by (simp add: deliver_to_def Let_def slot_ready_def)
qed

lemma fold_deliver_inv:
  assumes "kv_inv c tile asked s" "i < length (kv_slots s)" "sl_occupied (kv_slots s ! i)" "slot_ready (kv_slots s ! i)"
    and "\<forall>w \<in> set ws. w < 4"
  shows "kv_inv c tile asked (fold (deliver_to c i) ws s)"
  using assms
proof (induction ws arbitrary: s)
  case (Cons w ws)
  then show ?case using deliver_to_keeps [of c tile asked s i w] by simp
qed simp

lemma deliver_inv [golem_inv]:
  assumes "kv_inv c tile asked s"
  shows "kv_inv c tile asked (deliverAttentionKvSlot c i s)"
  using assms fold_deliver_inv [OF assms, of i "[0..<4]"] by (auto simp: deliverAttentionKvSlot_def)

lemma issue_read_inv:
  assumes "kv_inv c tile asked s" "i < length (kv_slots s)"
  shows "kv_inv c tile asked (issue_read c maxReq acc i s)"
proof -
  let ?sl = "kv_slots s ! i"
  have "kv_inv c tile asked (s\<lparr>kv_nextTag := t\<rparr>)" for t using assms(1) by (simp add: kv_inv_def)
  then have "kv_inv c tile asked (upd_slot i (if b then ?sl\<lparr>sl_readInflight := True\<rparr> else ?sl) (s\<lparr>kv_nextTag := t\<rparr>))" for b t
    using kv_invD [OF assms] by (intro kv_inv_upd) auto
  then show ?thesis unfolding issue_read_def Let_def by (rule kv_inv_emit) simp
qed

lemma kv_pump_inv [golem_inv]:
  assumes "kv_inv c tile asked s"
  shows "kv_inv c tile asked (pumpAttentionKvManagerRead c maxReq acc i s)"
proof (cases "i < length (kv_slots s)")
  case True
  let ?sl = "kv_slots s ! i"
  let ?s1 = "upd_slot i (?sl\<lparr>sl_readingV := True, sl_readOffset := 0\<rparr>) s"
  have inv: "slot_inv c tile asked (set (kv_out s)) i ?sl" by (rule kv_invD [OF assms True])
  have "kv_inv c tile asked ?s1" if "\<not> sl_readingV ?sl" "sl_readOffset ?sl = sl_bytes ?sl"
    using inv that by (intro kv_inv_upd [OF assms]) (auto simp: slot_inv_def data_ok_def subscriber_ok_def serves_def)
  then show ?thesis
    using True assms issue_read_inv [OF assms True] issue_read_inv [of c tile asked ?s1 i] deliver_inv
    by (auto simp: pumpAttentionKvManagerRead_def Let_def)
qed (simp add: pumpAttentionKvManagerRead_def assms)

lemma completeDma_inv [golem_inv]:
  assumes "kv_inv c tile asked s"
  shows "kv_inv c tile asked (completeAttentionKvDma c maxReq acc i epoch v ok s)"
proof (cases "i < length (kv_slots s)")
  case True
  let ?sl = "kv_slots s ! i"
  have inv: "slot_inv c tile asked (set (kv_out s)) i ?sl" by (rule kv_invD [OF assms True])
  have "kv_inv c tile asked (upd_slot i (?sl\<lparr>sl_failed := b, sl_vLoadsPending := n\<rparr>) s)"
    "kv_inv c tile asked (upd_slot i (?sl\<lparr>sl_failed := b, sl_kLoadsPending := n\<rparr>) s)" for b n
    using inv by (auto intro!: kv_inv_upd [OF assms])
  then show ?thesis
    using assms by (auto simp: completeAttentionKvDma_def Let_def deliver_inv kv_pump_inv)
qed (simp add: completeAttentionKvDma_def assms)

text \<open>The memory contract: a read that the slot waits for returns the requested range of its tile.\<close>

definition read_contract ::
  "nat \<Rightarrow> (nat \<Rightarrow> nat \<Rightarrow> bool \<Rightarrow> nat \<Rightarrow> byte) \<Rightarrow> nat \<Rightarrow> nat \<Rightarrow> bool \<Rightarrow> byte list \<Rightarrow> kvm \<Rightarrow> bool" where
  "read_contract maxReq tile i epoch ok bytes s \<longleftrightarrow>
    (let sl = kv_slots s ! i
     in i < length (kv_slots s) \<and> sl_occupied sl \<and> sl_epoch sl = epoch \<and> ok \<longrightarrow>
        bytes = map (tile i epoch (sl_readingV sl))
          [sl_readOffset sl..<sl_readOffset sl + min (sl_bytes sl - sl_readOffset sl) maxReq])"

lemma data_ok_append:
  assumes "data_ok tile i sl" "bytes = map (tile i (sl_epoch sl) (sl_readingV sl)) [sl_readOffset sl..<sl_readOffset sl + n]"
    and "sl_readOffset sl + n \<le> sl_bytes sl"
  shows "data_ok tile i ((if sl_readingV sl then sl\<lparr>sl_vData := sl_vData sl @ bytes\<rparr> else sl\<lparr>sl_kData := sl_kData sl @ bytes\<rparr>)
      \<lparr>sl_readOffset := sl_readOffset sl + length bytes\<rparr>)"
proof -
  have up: "[0..<sl_readOffset sl + n] = [0..<sl_readOffset sl] @ [sl_readOffset sl..<sl_readOffset sl + n]"
    using upt_add_eq_append [of 0 "sl_readOffset sl" n] by simp
  show ?thesis using assms by (cases "sl_readingV sl") (simp_all add: data_ok_def up)
qed

lemma readDone_inv [golem_inv]:
  assumes "kv_inv c tile asked s" "read_contract maxReq tile i epoch ok bytes s"
  shows "kv_inv c tile asked (kv_readDone c maxReq acc i epoch tag ok ctag bytes s)"
proof (cases "i < length (kv_slots s) \<and> sl_occupied (kv_slots s ! i) \<and> sl_epoch (kv_slots s ! i) = epoch")
  case True
  let ?sl = "kv_slots s ! i"
  let ?b = "(?sl\<lparr>sl_readInflight := False\<rparr>)"
  let ?sl2 = "if sl_readingV ?b then ?b\<lparr>sl_vData := sl_vData ?b @ bytes\<rparr> else ?b\<lparr>sl_kData := sl_kData ?b @ bytes\<rparr>"
  let ?sl3 = "?sl2\<lparr>sl_readOffset := sl_readOffset ?sl2 + length bytes\<rparr>"
  have inv: "slot_inv c tile asked (set (kv_out s)) i ?sl" using kv_invD [OF assms(1)] True by blast
  have fail: "kv_inv c tile asked (upd_slot i (?b\<lparr>sl_failed := True\<rparr>) s)"
    using inv by (intro kv_inv_upd [OF assms(1)]) simp
  have "kv_inv c tile asked (upd_slot i ?sl3 s)" if "ok"
  proof (rule kv_inv_upd [OF assms(1)])
    have "bytes = map (tile i (sl_epoch ?b) (sl_readingV ?b))
        [sl_readOffset ?b..<sl_readOffset ?b + min (sl_bytes ?sl - sl_readOffset ?sl) maxReq]"
      using assms(2) True that by (simp add: read_contract_def Let_def)
    moreover have "data_ok tile i ?b" using inv True by (simp add: slot_inv_def data_ok_def)
    moreover have "sl_readOffset ?b + min (sl_bytes ?sl - sl_readOffset ?sl) maxReq \<le> sl_bytes ?b"
      using inv True by (auto simp: slot_inv_def data_ok_def min_def)
    ultimately have d: "data_ok tile i ?sl3"
      using data_ok_append [of tile i ?b bytes] by (cases "sl_readingV ?sl") simp_all
    have "sl_subscribers ?sl3 = sl_subscribers ?sl" "tile_dma c i v ?sl3 = tile_dma c i v ?sl" for v
      by (cases "sl_readingV ?sl"; simp)+
    moreover have "subscriber_ok asked ?sl3 w = subscriber_ok asked ?sl w" for w
      by (cases "sl_readingV ?sl") (simp_all add: subscriber_ok_def serves_def)
    ultimately show "slot_inv c tile asked (set (kv_out s)) i ?sl3"
      using inv True d unfolding slot_inv_def by auto
  qed
  then show ?thesis
    using True fail deliver_inv kv_pump_inv by (simp add: kv_readDone_def Let_def)
next
  case False
  then show ?thesis using assms(1) by (auto simp: kv_readDone_def Let_def)
qed


text \<open>A message that repeats a received request, as the queue of waiting requests rebuilds it.\<close>

definition asks :: "(GroupCtrlMsg \<times> nat) set \<Rightarrow> nat \<Rightarrow> GroupCtrlMsg \<Rightarrow> bool" where
  "asks asked w m \<longleftrightarrow> (\<exists>m0. (m0, w) \<in> asked \<and> ms_reqSeq m0 = ms_reqSeq m \<and>
     attentionKvRequestFromMessage m0 = attentionKvRequestFromMessage m)"

lemma asks_serves:
  assumes "asks asked w m" "serves m sl"
  shows "\<exists>m0. (m0, w) \<in> asked \<and> serves m0 sl \<and> sub_of m0 = sub_of m"
  using assms by (auto simp: asks_def serves_def sub_of_def attentionKvRequestFromMessage_def)

lemma subscribed_inv:
  assumes "slot_inv c tile asked out i sl" "asks asked w m" "serves m sl"
  shows "slot_inv c tile asked out i (subscribed m w sl)"
proof (cases "sl_occupied sl")
  case True
  then have inv: "length (sl_subscribers sl) = 4" "\<And>u. u < 4 \<Longrightarrow> subscriber_ok asked sl u" "data_ok tile i sl"
    "\<And>v. set (tile_dma c i v sl) \<subseteq> out"
    using assms(1) by (auto simp: slot_inv_def)
  have sub: "sl_subscribers (subscribed m w sl) = (sl_subscribers sl)[w := sub_of m]"
    by (simp add: subscribed_def sub_of_def)
  have serves: "serves m' (subscribed m w sl) = serves m' sl" for m' by (simp add: serves_def subscribed_def)
  have "subscriber_ok asked (subscribed m w sl) u" if "u < 4" for u
    using inv(1) inv(2) [OF that] that asks_serves [OF assms(2,3)]
    by (cases "u = w") (auto simp: subscriber_ok_def sub serves)
  moreover have "data_ok tile i (subscribed m w sl)" using inv(3) by (simp add: data_ok_def subscribed_def)
  moreover have "tile_dma c i v (subscribed m w sl) = tile_dma c i v sl" for v by (simp add: subscribed_def)
  ultimately show ?thesis using inv by (simp add: slot_inv_def sub)
next
  case False
  then show ?thesis by (simp add: slot_inv_def subscribed_def)
qed

lemma started_inv:
  assumes "\<And>v. set (tile_dma c i v (started_slot m e)) \<subseteq> out"
  shows "slot_inv c tile asked out i (started_slot m e)"
  using assms by (auto simp: slot_inv_def data_ok_def subscriber_ok_def started_slot_def new_slot_def new_subscriber_def nth_Cons' numeral_eq_Suc less_Suc_eq)

lemma serves_started: "serves m (started_slot m e)"
  by (simp add: serves_def started_slot_def)

lemma issue_effect:
  assumes "issueAttentionKvDma c i v s = Inr s'"
  shows "kv_out s' = kv_out s @ tile_dma c i v (kv_slots s ! i) \<and> kv_pending s' = kv_pending s \<and>
    kv_slots s' = (kv_slots s)[i := (if v then (kv_slots s ! i)\<lparr>sl_vLoadsPending := sl_vLoadsPending (kv_slots s ! i) + length (tile_dma c i v (kv_slots s ! i))\<rparr>
      else (kv_slots s ! i)\<lparr>sl_kLoadsPending := sl_kLoadsPending (kv_slots s ! i) + length (tile_dma c i v (kv_slots s ! i))\<rparr>)]"
  using assms by (auto simp: issueAttentionKvDma_def Let_def tile_dma_def split: if_splits)

text \<open>Both DMA operands of a slot, issued from a state that satisfies the invariant but for the slot.\<close>

lemma issue_both_inv:
  assumes inv: "kv_inv c tile asked s" and i: "i < length (kv_slots s)"
    and eq: "kv_slots s1 = (kv_slots s)[i := sl]" "kv_pending s1 = kv_pending s" "set (kv_out s) \<subseteq> set (kv_out s1)"
    and out: "\<And>x. x \<in> set (kv_out s1) \<Longrightarrow> effect_ok c tile asked (set (kv_out s1)) x"
    and sl: "\<And>out. (\<And>v. set (tile_dma c i v sl) \<subseteq> out) \<Longrightarrow> slot_inv c tile asked out i sl"
    and run: "bindE (issueAttentionKvDma c i False s1) (issueAttentionKvDma c i True) = Inr s3"
  shows "kv_inv c tile asked s3"
proof -
  from run obtain s2 where s2: "issueAttentionKvDma c i False s1 = Inr s2" and s3: "issueAttentionKvDma c i True s2 = Inr s3"
    by (auto dest: bindE_InrD)
  note e2 = issue_effect [OF s2] and e3 = issue_effect [OF s3]
  have at: "kv_slots s1 ! i = sl" using eq i by simp
  have out3: "kv_out s3 = kv_out s1 @ tile_dma c i False sl @ tile_dma c i True sl"
    using e2 e3 i eq at by simp
  have slots3: "kv_slots s3 = (kv_slots s)[i := sl\<lparr>sl_kLoadsPending := sl_kLoadsPending sl + length (tile_dma c i False sl),
      sl_vLoadsPending := sl_vLoadsPending sl + length (tile_dma c i True sl)\<rparr>]"
    using e2 e3 i eq at by simp
  have dma: "effect_ok c tile asked out x" if "x \<in> set (tile_dma c i v sl)" for x v out
    using that by (auto simp: tile_dma_def dma_effect_def Let_def)
  have "effect_ok c tile asked (set (kv_out s3)) x" if x: "x \<in> set (kv_out s3)" for x
  proof -
    consider "x \<in> set (kv_out s1)" | v where "x \<in> set (tile_dma c i v sl)" using x by (auto simp: out3)
    then show ?thesis
    proof cases
      case 1
      then show ?thesis by (rule effect_ok_mono [OF out]) (simp add: out3)
    qed (rule dma)
  qed
  moreover have "slot_inv c tile asked (set (kv_out s3)) k (kv_slots s3 ! k)" if "k < length (kv_slots s3)" for k
  proof (cases "k = i")
    case True
    have "set (tile_dma c i v sl) \<subseteq> set (kv_out s3)" for v by (cases v) (auto simp: out3)
    from sl [OF this] show ?thesis using True i by (simp add: slots3)
  next
    case False
    then show ?thesis
      using kv_invD [OF inv, of k] that eq(3) by (auto simp: slots3 out3 intro: slot_inv_mono)
  qed
  moreover have "\<forall>p \<in> set (kv_pending s3). pending_ok asked p" using inv e2 e3 eq(2) by (simp add: kv_inv_def)
  ultimately show ?thesis by (simp add: kv_inv_def)
qed

lemma handle_request_inv [golem_inv]:
  assumes inv: "kv_inv c tile asked s" and asks: "asks asked w m" and run: "handleAttentionKvRequest c m w s = Inr s'"
  shows "kv_inv c tile asked s'"
proof -
  have fail: "kv_inv c tile asked (emit (sendRsp w (failure_message m)) s)"
    by (rule kv_inv_emit [OF inv]) (rule effect_ok_failure)
  show ?thesis
  proof (cases "kv_request_refused c m w")
    case True
    then show ?thesis using run fail by (simp add: handleAttentionKvRequest_def)
  next
    case False
    then have w: "w < 4" by (simp add: kv_request_refused_def)
    show ?thesis
    proof (cases "findAttentionKvSlot m s")
      case (Some i)
      note b = find_slot_bound [OF Some]
      let ?sl = "kv_slots s ! i"
      let ?s1 = "addAttentionKvSubscriber i m w (emit [Stat StatKvCoalesced 1] s)"
      have "kv_inv c tile asked ?s1" if "slot_compatible m ?sl"
      proof -
        have "serves m ?sl" using b that by (auto simp: serves_def slot_matches_def slot_compatible_def)
        note sub = subscribed_inv [OF kv_invD [OF inv] asks this]
        have e: "kv_inv c tile asked (emit es s)" if "\<And>x. x \<in> set es \<Longrightarrow> \<exists>k n. x = Stat k n" for es
          using that by (intro kv_inv_emit [OF inv]) (metis effect_ok_simps(1))
        have "kv_inv c tile asked (upd_slot i (subscribed m w ?sl) (emit es s))"
          if "\<And>x. x \<in> set es \<Longrightarrow> \<exists>k n. x = Stat k n" for es
          using e [OF that] sub b by (intro kv_inv_upd) (auto intro: slot_inv_mono)
        from this [of "[Stat StatKvCoalesced 1]"] this [of "[Stat StatKvCoalesced 1, Stat StatKvManagerLookaheadHits 1]"]
        show ?thesis by (auto simp: addAttentionKvSubscriber_def Let_def emit_def)
      qed
      then show ?thesis using Some False run fail by (auto simp: handleAttentionKvRequest_def deliver_inv split: if_splits)
    next
      case None
      show ?thesis
      proof (cases "findFreeAttentionKvSlot s")
        case None': None
        obtain m0 where m0: "(m0, w) \<in> asked" "ms_reqSeq m0 = ms_reqSeq m"
            "attentionKvRequestFromMessage m0 = attentionKvRequestFromMessage m" using asks by (auto simp: asks_def)
        let ?p = "\<lparr>pk_workerSlot = w, pk_requestId = ms_reqSeq m, pk_request = attentionKvRequestFromMessage m\<rparr>"
        have "pending_ok asked ?p" using m0 w by (auto simp: pending_ok_def)
        then have "kv_inv c tile asked (s\<lparr>kv_pending := kv_pending s @ [?p]\<rparr>)" using inv by (auto simp: kv_inv_def)
        then have "kv_inv c tile asked (emit [Stat StatKvSlotStalls 1] (s\<lparr>kv_pending := kv_pending s @ [?p]\<rparr>))"
          by (rule kv_inv_emit) simp
        then show ?thesis using None None' False run fail by (auto simp: handleAttentionKvRequest_def split: if_splits)
      next
        case (Some i)
        note b = find_free_bound [OF Some]
        let ?s1 = "addAttentionKvSubscriber i m w (startAttentionKvSlot i m s)"
        have r: "bindE (issueAttentionKvDma c i False ?s1) (issueAttentionKvDma c i True) = Inr s'"
          using None Some False run by (simp add: handleAttentionKvRequest_def)
        have st: "\<not> sl_speculative (started_slot m e)" for e by (simp add: started_slot_def new_slot_def)
        show ?thesis
        proof (rule issue_both_inv [OF inv _ _ _ _ _ _ r, where sl = "subscribed m w (started_slot m (kv_nextEpoch s))"])
          show "kv_slots ?s1 = (kv_slots s)[i := subscribed m w (started_slot m (kv_nextEpoch s))]"
            using b st by (simp add: addAttentionKvSubscriber_def startAttentionKvSlot_def Let_def)
          show "set (kv_out s) \<subseteq> set (kv_out ?s1)" using b st by (auto simp: addAttentionKvSubscriber_def startAttentionKvSlot_def Let_def)
          show "effect_ok c tile asked (set (kv_out ?s1)) x" if "x \<in> set (kv_out ?s1)" for x
            using that inv b st
            by (auto simp: addAttentionKvSubscriber_def startAttentionKvSlot_def Let_def kv_inv_def
                intro: effect_ok_mono [of c tile asked "set (kv_out s)" x])
          show "slot_inv c tile asked out i (subscribed m w (started_slot m (kv_nextEpoch s)))"
            if "\<And>v. set (tile_dma c i v (subscribed m w (started_slot m (kv_nextEpoch s)))) \<subseteq> out" for out
            using that by (intro subscribed_inv [OF started_inv asks serves_started]) (simp add: subscribed_def)
        qed (use b in simp_all)
      qed
    qed
  qed
qed


lemma pending_asks: "pending_ok asked p \<Longrightarrow> asks asked (pk_workerSlot p) (pending_message p)"
proof -
  assume "pending_ok asked p"
  then obtain m where m: "(m, pk_workerSlot p) \<in> asked" "pk_requestId p = ms_reqSeq m" "pk_request p = attentionKvRequestFromMessage m"
    by (auto simp: pending_ok_def)
  have "ms_reqSeq (pending_message p) = pk_requestId p" "attentionKvRequestFromMessage (pending_message p) = pk_request p"
    by (simp_all add: pending_message_def) (simp add: fillAttentionKvMessage_def)
  then show ?thesis unfolding asks_def using m by (intro exI [of _ m]) simp
qed

lemma process_inv [golem_inv]:
  "kv_inv c tile asked s \<Longrightarrow> processPendingAttentionKvRequests c s = Inr s' \<Longrightarrow> kv_inv c tile asked s'"
proof (induction c s arbitrary: s' rule: processPendingAttentionKvRequests.induct)
  case (1 c s)
  show ?case
  proof (cases "kv_pending s")
    case Nil
    then show ?thesis using 1 by (simp add: processPendingAttentionKvRequests.simps)
  next
    case (Cons p rest)
    show ?thesis
    proof (cases "findAttentionKvSlot (pending_message p) s = None \<and> findFreeAttentionKvSlot s = None")
      case True
      then show ?thesis using 1(2,3) Cons by (simp add: processPendingAttentionKvRequests.simps)
    next
      case False
      have p: "asks asked (pk_workerSlot p) (pending_message p)" "kv_inv c tile asked (s\<lparr>kv_pending := rest\<rparr>)"
        using 1(2) Cons by (auto simp: kv_inv_def intro: pending_asks)
      have "processPendingAttentionKvRequests c s =
          bindE (handleAttentionKvRequest c (pending_message p) (pk_workerSlot p) (s\<lparr>kv_pending := rest\<rparr>)) (processPendingAttentionKvRequests c)"
        by (subst processPendingAttentionKvRequests.simps) (use Cons False in auto)
      with 1(3) obtain s1 where s1: "handleAttentionKvRequest c (pending_message p) (pk_workerSlot p) (s\<lparr>kv_pending := rest\<rparr>) = Inr s1"
        and s': "processPendingAttentionKvRequests c s1 = Inr s'" by (auto dest: bindE_InrD)
      have "kv_inv c tile asked s1" by (rule handle_request_inv [OF p(2,1) s1])
      then show ?thesis using 1(1) [OF Cons False s1 _ s'] by blast
    qed
  qed
qed

lemma lookahead_inv [golem_inv]:
  assumes inv: "kv_inv c tile asked s" and run: "maybeStartAttentionKvLookahead c released s = Inr s'"
  shows "kv_inv c tile asked s'"
proof -
  have start: "kv_inv c tile asked s'"
    if i: "findFreeAttentionKvSlot s = Some i"
      and s1: "s1 = emit [Stat StatKvManagerLookaheadLoads 1]
        (upd_slot i ((kv_slots (startAttentionKvSlot i m s) ! i)\<lparr>sl_speculative := True\<rparr>) (startAttentionKvSlot i m s))"
      and r: "bindE (issueAttentionKvDma c i False s1) (issueAttentionKvDma c i True) = Inr s'" for i m s1
  proof (rule issue_both_inv [OF inv _ _ _ _ _ _ r, where sl = "(started_slot m (kv_nextEpoch s))\<lparr>sl_speculative := True\<rparr>"])
    note b = find_free_bound [OF i]
    show "i < length (kv_slots s)" using b by simp
    show "kv_slots s1 = (kv_slots s)[i := (started_slot m (kv_nextEpoch s))\<lparr>sl_speculative := True\<rparr>]"
      using b by (simp add: s1 startAttentionKvSlot_def Let_def)
    show "kv_pending s1 = kv_pending s" by (simp add: s1)
    show "set (kv_out s) \<subseteq> set (kv_out s1)" by (auto simp: s1 startAttentionKvSlot_def Let_def)
    show "effect_ok c tile asked (set (kv_out s1)) x" if "x \<in> set (kv_out s1)" for x
      using that inv by (auto simp: s1 startAttentionKvSlot_def Let_def kv_inv_def
          intro: effect_ok_mono [of c tile asked "set (kv_out s)" x])
    show "slot_inv c tile asked out i ((started_slot m (kv_nextEpoch s))\<lparr>sl_speculative := True\<rparr>)"
      if "\<And>v. set (tile_dma c i v ((started_slot m (kv_nextEpoch s))\<lparr>sl_speculative := True\<rparr>)) \<subseteq> out" for out
      using that started_inv by simp
  qed
  show ?thesis
    using run inv by (auto simp: maybeStartAttentionKvLookahead_def Let_def split: if_splits option.splits intro: start [OF _ refl])
qed

lemma release_inv_kv [golem_inv]:
  assumes inv: "kv_inv c tile asked s" and run: "maybeReleaseAttentionKvSlot c allow i s = Inr s'"
  shows "kv_inv c tile asked s'"
proof -
  have "kv_inv c tile asked (upd_slot i new_slot s)" by (rule kv_inv_upd [OF inv]) simp
  note rel = this
  show ?thesis
  proof (cases "i < length (kv_slots s) \<and> sl_occupied (kv_slots s ! i) \<and> slot_accounted c (kv_slots s ! i)")
    case True
    with run obtain s1 where s1: "processPendingAttentionKvRequests c (upd_slot i new_slot s) = Inr s1"
      and s': "(if allow then maybeStartAttentionKvLookahead c (kv_slots s ! i) s1 else Inr s1) = Inr s'"
      by (auto simp: maybeReleaseAttentionKvSlot_def Let_def dest!: bindE_InrD)
    show ?thesis using s' process_inv [OF rel s1] lookahead_inv [of c tile asked s1] by (cases allow) auto
  next
    case False
    then show ?thesis using run inv by (auto simp: maybeReleaseAttentionKvSlot_def Let_def split: if_splits)
  qed
qed

lemma ack_inv [golem_inv]:
  assumes inv: "kv_inv c tile asked s" and run: "handleAttentionKvAck c m w s = Inr s'"
  shows "kv_inv c tile asked s'"
proof -
  have "kv_inv c tile asked (upd_slot i ((kv_slots s ! i)\<lparr>sl_completedMask := k\<rparr>) s)" if "i < length (kv_slots s)" for i k
    using kv_invD [OF inv that] by (intro kv_inv_upd [OF inv]) simp
  then show ?thesis
    using run inv
    by (auto simp: handleAttentionKvAck_def Let_def find_Some_iff split: if_splits option.splits elim!: release_inv_kv [rotated])
qed

lemma cancel_slot_inv:
  assumes inv: "kv_inv c tile asked s" and i: "i < length (kv_slots s)" and run: "cancel_slot c m w i (s, n) = Inr (s', n')"
  shows "kv_inv c tile asked s'"
proof -
  have "kv_inv c tile asked (upd_slot i ((kv_slots s ! i)\<lparr>sl_completedMask := k\<rparr>) s)"
    "kv_inv c tile asked (upd_slot i ((kv_slots s ! i)\<lparr>sl_cancelledMask := k\<rparr>) s)" for k
    using kv_invD [OF inv i] by (auto intro!: kv_inv_upd [OF inv])
  then show ?thesis
    using run inv by (auto simp: cancel_slot_def Let_def dest!: bindE_InrD split: if_splits elim!: release_inv_kv [rotated])
qed


text \<open>No operation changes the number of slots.\<close>

lemma fold_deliver_len [simp]: "length (kv_slots (fold (deliver_to c i) ws s)) = length (kv_slots s)"
  by (induction ws arbitrary: s) (simp_all add: deliver_to_def Let_def)

lemma deliver_len [simp]: "length (kv_slots (deliverAttentionKvSlot c i s)) = length (kv_slots s)"
  by (simp add: deliverAttentionKvSlot_def)

lemma pump_len [simp]: "length (kv_slots (pumpAttentionKvManagerRead c maxReq acc i s)) = length (kv_slots s)"
  by (simp add: pumpAttentionKvManagerRead_def issue_read_def Let_def)

lemma start_len [simp]: "length (kv_slots (startAttentionKvSlot i m s)) = length (kv_slots s)"
  "length (kv_slots (addAttentionKvSubscriber i m w s)) = length (kv_slots s)"
  by (simp_all add: startAttentionKvSlot_def addAttentionKvSubscriber_def Let_def)

lemma issue_len: "issueAttentionKvDma c i v s = Inr s' \<Longrightarrow> length (kv_slots s') = length (kv_slots s)"
  using issue_effect by fastforce

lemma handle_len: "handleAttentionKvRequest c m w s = Inr s' \<Longrightarrow> length (kv_slots s') = length (kv_slots s)"
  by (auto simp: handleAttentionKvRequest_def dest!: bindE_InrD issue_len split: if_splits option.splits)

lemma process_len: "processPendingAttentionKvRequests c s = Inr s' \<Longrightarrow> length (kv_slots s') = length (kv_slots s)"
proof (induction c s arbitrary: s' rule: processPendingAttentionKvRequests.induct)
  case (1 c s)
  show ?case
  proof (cases "kv_pending s = [] \<or> findAttentionKvSlot (pending_message (hd (kv_pending s))) s = None \<and> findFreeAttentionKvSlot s = None")
    case True
    then show ?thesis using 1(2) by (cases "kv_pending s") (auto simp: processPendingAttentionKvRequests.simps)
  next
    case False
    then obtain p rest where ps: "kv_pending s = p # rest"
      and nf: "\<not> (findAttentionKvSlot (pending_message p) s = None \<and> findFreeAttentionKvSlot s = None)"
      by (cases "kv_pending s") auto
    have "processPendingAttentionKvRequests c s =
        bindE (handleAttentionKvRequest c (pending_message p) (pk_workerSlot p) (s\<lparr>kv_pending := rest\<rparr>)) (processPendingAttentionKvRequests c)"
      by (subst processPendingAttentionKvRequests.simps) (use ps nf in auto)
    with 1(2) obtain s1 where s1: "handleAttentionKvRequest c (pending_message p) (pk_workerSlot p) (s\<lparr>kv_pending := rest\<rparr>) = Inr s1"
      and s': "processPendingAttentionKvRequests c s1 = Inr s'" by (auto dest: bindE_InrD)
    then show ?thesis using 1(1) [OF ps nf s1 s'] handle_len [OF s1] by simp
  qed
qed

lemma lookahead_len: "maybeStartAttentionKvLookahead c r s = Inr s' \<Longrightarrow> length (kv_slots s') = length (kv_slots s)"
  by (auto simp: maybeStartAttentionKvLookahead_def Let_def dest!: bindE_InrD issue_len split: if_splits option.splits)

lemma release_len: "maybeReleaseAttentionKvSlot c allow i s = Inr s' \<Longrightarrow> length (kv_slots s') = length (kv_slots s)"
  by (auto simp: maybeReleaseAttentionKvSlot_def Let_def dest!: bindE_InrD process_len lookahead_len split: if_splits)

lemma cancel_slot_len: "cancel_slot c m w i (s, n) = Inr (s', n') \<Longrightarrow> length (kv_slots s') = length (kv_slots s)"
  by (auto simp: cancel_slot_def Let_def dest!: bindE_InrD release_len split: if_splits)

lemma cancel_fold_inv:
  assumes "kv_inv c tile asked s" "\<forall>i \<in> set ks. i < length (kv_slots s)" "foldE (cancel_slot c m w) ks (s, n) = Inr (s', n')"
  shows "kv_inv c tile asked s'"
  using assms
proof (induction ks arbitrary: s n)
  case (Cons k ks)
  then obtain x where x: "cancel_slot c m w k (s, n) = Inr x" "foldE (cancel_slot c m w) ks x = Inr (s', n')"
    by (auto dest: bindE_InrD)
  obtain s1 n1 where p: "x = (s1, n1)" by (cases x)
  show ?case
    using Cons.IH [of s1 n1] Cons.prems x cancel_slot_inv [of c tile asked s k m w n s1 n1] cancel_slot_len [of c m w k s n s1 n1]
    by (simp add: p)
qed simp

lemma kv_cancel_inv [golem_inv]:
  assumes inv: "kv_inv c tile asked s" and run: "handleAttentionKvCancel c m w s = Inr s'"
  shows "kv_inv c tile asked s'"
proof (cases "\<not> gc_kvEnable c \<or> gc_role c \<noteq> MANAGER \<or> w \<ge> 4 \<or> ms_generation m = 0")
  case True
  then show ?thesis using run inv by (auto simp: handleAttentionKvCancel_def)
next
  case False
  let ?q = "\<lambda>p. \<not> (pk_workerSlot p = w \<and> rq_generation (pk_request p) = ms_generation m)"
  let ?k = "\<lambda>s1 n. n + count_if (\<lambda>p. pk_workerSlot p = w \<and> rq_generation (pk_request p) = ms_generation m) (kv_pending s1)"
  from False run obtain x where x: "foldE (cancel_slot c m w) [0..<length (kv_slots s)] (s, 0) = Inr x"
    "(case x of (s1, n) \<Rightarrow> Inr (if ?k s1 n \<noteq> 0 then emit [Stat StatKvCancels (?k s1 n)] (s1\<lparr>kv_pending := filter ?q (kv_pending s1)\<rparr>)
        else s1\<lparr>kv_pending := filter ?q (kv_pending s1)\<rparr>)) = (Inr s' :: golem_error + kvm)"
    unfolding handleAttentionKvCancel_def Let_def by (auto dest!: bindE_InrD)
  obtain s1 n where p: "x = (s1, n)" by (cases x)
  note f = x(1) [unfolded p]
  have s': "s' = s1\<lparr>kv_pending := filter ?q (kv_pending s1)\<rparr> \<or>
      s' = emit [Stat StatKvCancels (?k s1 n)] (s1\<lparr>kv_pending := filter ?q (kv_pending s1)\<rparr>)"
    using x(2) unfolding p prod.case sum.inject by (simp only: split: if_splits) blast+
  have "kv_inv c tile asked s1" by (rule cancel_fold_inv [OF inv _ f]) simp
  then have d: "kv_inv c tile asked (s1\<lparr>kv_pending := filter ?q (kv_pending s1)\<rparr>)" by (auto simp: kv_inv_def)
  then have "kv_inv c tile asked (emit [Stat StatKvCancels k] (s1\<lparr>kv_pending := filter ?q (kv_pending s1)\<rparr>))" for k
    by (rule kv_inv_emit) simp
  then show ?thesis using s' d by blast
qed

lemma kv_tick_inv [golem_inv]:
  assumes "kv_inv c tile asked s"
  shows "kv_inv c tile asked (kv_manager_tick c maxReq acc s)"
proof -
  have "kv_inv c tile asked t \<Longrightarrow> kv_inv c tile asked (fold (pumpAttentionKvManagerRead c maxReq acc) ks t)" for ks t
    by (induction ks arbitrary: t) (simp_all add: kv_pump_inv)
  then show ?thesis using assms by (simp add: kv_manager_tick_def)
qed

section \<open>Runs\<close>

datatype kv_op =
    KvRequest GroupCtrlMsg nat
  | KvAck GroupCtrlMsg nat
  | KvCancel GroupCtrlMsg nat
  | KvDmaDone nat nat bool bool
  | KvReadDone nat nat nat bool nat "byte list"
  | KvTick

fun kv_step :: "gc_config \<Rightarrow> nat \<Rightarrow> (nat \<Rightarrow> bool) \<Rightarrow> kv_op \<Rightarrow> kvm \<Rightarrow> golem_error + kvm" where
  "kv_step c maxReq acc (KvRequest m w) s = handleAttentionKvRequest c m w s"
| "kv_step c maxReq acc (KvAck m w) s = handleAttentionKvAck c m w s"
| "kv_step c maxReq acc (KvCancel m w) s = handleAttentionKvCancel c m w s"
| "kv_step c maxReq acc (KvDmaDone i e v ok) s = Inr (completeAttentionKvDma c maxReq acc i e v ok s)"
| "kv_step c maxReq acc (KvReadDone i e tag ok ctag bs) s = Inr (kv_readDone c maxReq acc i e tag ok ctag bs s)"
| "kv_step c maxReq acc KvTick s = Inr (kv_manager_tick c maxReq acc s)"

fun kv_contract :: "nat \<Rightarrow> (nat \<Rightarrow> nat \<Rightarrow> bool \<Rightarrow> nat \<Rightarrow> byte) \<Rightarrow> kv_op \<Rightarrow> kvm \<Rightarrow> bool" where
  "kv_contract maxReq tile (KvReadDone i e tag ok ctag bs) s = read_contract maxReq tile i e ok bs s"
| "kv_contract maxReq tile _ s = True"

inductive kv_run ::
  "gc_config \<Rightarrow> nat \<Rightarrow> (nat \<Rightarrow> bool) \<Rightarrow> (nat \<Rightarrow> nat \<Rightarrow> bool \<Rightarrow> nat \<Rightarrow> byte) \<Rightarrow> kv_op list \<Rightarrow> kvm \<Rightarrow> kvm \<Rightarrow> bool"
  for c maxReq acc tile where
  kv_run_nil: "kv_run c maxReq acc tile [] s s"
| kv_run_step: "kv_contract maxReq tile x s \<Longrightarrow> kv_step c maxReq acc x s = Inr s1 \<Longrightarrow>
    kv_run c maxReq acc tile xs s1 s2 \<Longrightarrow> kv_run c maxReq acc tile (x # xs) s s2"

lemma kv_step_inv:
  assumes "kv_inv c tile asked s" "kv_contract maxReq tile x s" "kv_step c maxReq acc x s = Inr s'"
    and "\<And>m w. x = KvRequest m w \<Longrightarrow> (m, w) \<in> asked"
  shows "kv_inv c tile asked s'"
proof (cases x)
  case (KvRequest m w)
  have "asks asked w m" using assms(4) [OF KvRequest] by (auto simp: asks_def)
  then show ?thesis using KvRequest assms handle_request_inv by auto
qed (use assms in \<open>auto intro: golem_inv\<close>)

lemma kv_run_inv:
  assumes "kv_run c maxReq acc tile xs s s'" "kv_inv c tile asked s" "\<And>m w. KvRequest m w \<in> set xs \<Longrightarrow> (m, w) \<in> asked"
  shows "kv_inv c tile asked s'"
  using assms
proof (induction rule: kv_run.induct)
  case (kv_run_step x s s1 xs s2)
  have "kv_inv c tile asked s1" by (rule kv_step_inv [OF kv_run_step.prems(1) kv_run_step.hyps(1,2)]) (use kv_run_step.prems in auto)
  then show ?case using kv_run_step by auto
qed

lemma new_kvm_inv: "kv_inv c tile asked (new_kvm c)"
  by (simp add: kv_inv_def new_kvm_def)



section \<open>Every loaded tile is delivered\<close>

text \<open>A slot whose DMA is complete and whose local read is in flight.\<close>

definition reading :: "(nat \<Rightarrow> nat \<Rightarrow> bool \<Rightarrow> nat \<Rightarrow> byte) \<Rightarrow> nat \<Rightarrow> kvm \<Rightarrow> bool" where
  "reading tile i s \<longleftrightarrow> i < length (kv_slots s) \<and>
    (let sl = kv_slots s ! i
     in sl_occupied sl \<and> \<not> sl_failed sl \<and> sl_readInflight sl \<and> sl_kLoadsPending sl = 0 \<and> sl_vLoadsPending sl = 0 \<and>
        sl_readOffset sl < sl_bytes sl \<and> data_ok tile i sl \<and> length (sl_subscribers sl) = 4)"

definition bytes_left :: "nat \<Rightarrow> kvm \<Rightarrow> nat" where
  "bytes_left i s =
    (let sl = kv_slots s ! i in (if sl_readingV sl then sl_bytes sl else 2 * sl_bytes sl) - sl_readOffset sl)"

text \<open>The subscriber of worker \<open>w\<close> has been sent a successful delivery in \<open>out\<close>.\<close>

definition served :: "gc_effect list \<Rightarrow> KvSubscriber \<Rightarrow> nat \<Rightarrow> bool" where
  "served out sb w \<longleftrightarrow> (\<exists>d. SendRsp w d \<in> set out \<and> ms_type d = ATTENTION_KV_DELIVERY \<and> ms_status d = 1 \<and>
     ms_reqSeq d = sb_requestId sb \<and> ms_generation d = sb_generation sb)"

lemma deliver_to_serves:
  assumes "i < length (kv_slots s)" "\<not> sl_failed (kv_slots s ! i)" "w < 4" "sb_present (sl_subscribers (kv_slots s ! i) ! w)"
    and "sl_deliveredMask (kv_slots s ! i) AND worker_bit w = 0"
  shows "served (kv_out (deliver_to c i w s)) (sl_subscribers (kv_slots s ! i) ! w) w"
proof -
  define sl where "sl = kv_slots s ! i"
  let ?d = "delivery_message c w sl"
  have t: "ms_type ?d = ATTENTION_KV_DELIVERY" by (simp add: delivery_message_def Let_def new_msg_def)
  then have "sendRsp w ?d = [SendRsp w ?d]" using assms(3) by (simp add: sendRsp_def)
  then have "SendRsp w ?d \<in> set (kv_out (deliver_to c i w s))"
    using assms(4,5) unfolding deliver_to_def Let_def sl_def [symmetric] by simp
  moreover have "ms_status ?d = 1" "ms_reqSeq ?d = sb_requestId (sl_subscribers sl ! w)"
    "ms_generation ?d = sb_generation (sl_subscribers sl ! w)"
    using assms(2) by (simp_all add: delivery_message_def Let_def sl_def)
  ultimately show ?thesis unfolding served_def sl_def [symmetric] using t by blast
qed

lemma deliver_to_other:
  assumes "w \<noteq> u" "w < 4" "u < 4" "i < length (kv_slots s)"
  shows "sl_deliveredMask (kv_slots (deliver_to c i u s) ! i) AND worker_bit w = sl_deliveredMask (kv_slots s ! i) AND worker_bit w"
proof -
  have "(k OR worker_bit u) AND worker_bit w = k AND worker_bit w" for k
  proof (rule bit_eqI)
    fix n
    show "bit ((k OR worker_bit u) AND worker_bit w) n = bit (k AND worker_bit w) n"
      using bit_worker_bit [of w n] bit_worker_bit [of u n] assms by (auto simp: bit_or_iff bit_and_iff)
  qed
  then show ?thesis using assms(4) by (simp add: deliver_to_def Let_def)
qed

lemma deliver_to_frame:
  "i < length (kv_slots s) \<Longrightarrow> sl_subscribers (kv_slots (deliver_to c i u s) ! i) = sl_subscribers (kv_slots s ! i) \<and>
     sl_failed (kv_slots (deliver_to c i u s) ! i) = sl_failed (kv_slots s ! i) \<and>
     set (kv_out s) \<subseteq> set (kv_out (deliver_to c i u s)) \<and> length (kv_slots (deliver_to c i u s)) = length (kv_slots s)"
  by (auto simp: deliver_to_def Let_def)

lemma served_mono: "served out sb w \<Longrightarrow> set out \<subseteq> set out' \<Longrightarrow> served out' sb w"
  by (auto simp: served_def)

lemma fold_deliver_out:
  "i < length (kv_slots s) \<Longrightarrow> set (kv_out s) \<subseteq> set (kv_out (fold (deliver_to c i) ws s))"
proof (induction ws arbitrary: s)
  case (Cons w ws)
  note f = deliver_to_frame [OF Cons.prems, of c w]
  have "set (kv_out (deliver_to c i w s)) \<subseteq> set (kv_out (fold (deliver_to c i) ws (deliver_to c i w s)))"
    by (rule Cons.IH) (use f Cons.prems in simp)
  then show ?case using f by auto
qed simp

lemma fold_deliver_serves:
  assumes "i < length (kv_slots s)" "\<not> sl_failed (kv_slots s ! i)" "\<forall>u \<in> set ws. u < 4" "w \<in> set ws"
    and "sb_present (sl_subscribers (kv_slots s ! i) ! w)" "sl_deliveredMask (kv_slots s ! i) AND worker_bit w = 0"
  shows "served (kv_out (fold (deliver_to c i) ws s)) (sl_subscribers (kv_slots s ! i) ! w) w"
  using assms
proof (induction ws arbitrary: s)
  case (Cons u ws)
  note f = deliver_to_frame [OF Cons.prems(1), of c u]
  show ?case
  proof (cases "u = w")
    case True
    have "served (kv_out (deliver_to c i w s)) (sl_subscribers (kv_slots s ! i) ! w) w"
      using Cons.prems by (intro deliver_to_serves) auto
    moreover have "set (kv_out (deliver_to c i w s)) \<subseteq> set (kv_out (fold (deliver_to c i) ws (deliver_to c i w s)))"
      by (rule fold_deliver_out) (use f True Cons.prems(1) in simp)
    ultimately show ?thesis using True served_mono by simp
  next
    case False
    then show ?thesis
      using Cons.IH [of "deliver_to c i u s"] Cons.prems f deliver_to_other [of w u i s c] by simp
  qed
qed simp

lemma deliver_serves:
  assumes "i < length (kv_slots s)" "sl_occupied (kv_slots s ! i)" "\<not> sl_failed (kv_slots s ! i)" "slot_ready (kv_slots s ! i)"
    and "w < 4" "sb_present (sl_subscribers (kv_slots s ! i) ! w)" "sl_deliveredMask (kv_slots s ! i) AND worker_bit w = 0"
  shows "served (kv_out (deliverAttentionKvSlot c i s)) (sl_subscribers (kv_slots s ! i) ! w) w"
  using assms fold_deliver_serves [of i s "[0..<4]" w c] by (simp add: deliverAttentionKvSlot_def)

text \<open>Issuing the next read, when the memory accepts it.\<close>

lemma issue_read_reading:
  assumes "i < length (kv_slots s)" "sl_occupied (kv_slots s ! i)" "\<not> sl_failed (kv_slots s ! i)"
    "sl_kLoadsPending (kv_slots s ! i) = 0" "sl_vLoadsPending (kv_slots s ! i) = 0" "length (sl_subscribers (kv_slots s ! i)) = 4"
    "data_ok tile i (kv_slots s ! i)" "sl_readOffset (kv_slots s ! i) < sl_bytes (kv_slots s ! i)"
  shows "reading tile i (issue_read c maxReq (\<lambda>_. True) i s)" "bytes_left i (issue_read c maxReq (\<lambda>_. True) i s) = bytes_left i s"
    "sl_subscribers (kv_slots (issue_read c maxReq (\<lambda>_. True) i s) ! i) = sl_subscribers (kv_slots s ! i)"
    "sl_deliveredMask (kv_slots (issue_read c maxReq (\<lambda>_. True) i s) ! i) = sl_deliveredMask (kv_slots s ! i)"
  using assms by (simp_all add: reading_def issue_read_def Let_def data_ok_def bytes_left_def)

definition served_read :: "nat \<Rightarrow> (nat \<Rightarrow> nat \<Rightarrow> bool \<Rightarrow> nat \<Rightarrow> byte) \<Rightarrow> nat \<Rightarrow> kvm \<Rightarrow> kv_op" where
  "served_read maxReq tile i s =
    (let sl = kv_slots s ! i
     in KvReadDone i (sl_epoch sl) 0 True 0 (map (tile i (sl_epoch sl) (sl_readingV sl))
          [sl_readOffset sl..<sl_readOffset sl + min (sl_bytes sl - sl_readOffset sl) maxReq]))"

definition after_read :: "nat \<Rightarrow> (nat \<Rightarrow> nat \<Rightarrow> bool \<Rightarrow> nat \<Rightarrow> byte) \<Rightarrow> nat \<Rightarrow> KvSlot \<Rightarrow> KvSlot" where
  "after_read maxReq tile i sl =
    (let n = min (sl_bytes sl - sl_readOffset sl) maxReq;
         bs = map (tile i (sl_epoch sl) (sl_readingV sl)) [sl_readOffset sl..<sl_readOffset sl + n];
         b = sl\<lparr>sl_readInflight := False\<rparr>
     in (if sl_readingV sl then b\<lparr>sl_vData := sl_vData b @ bs\<rparr> else b\<lparr>sl_kData := sl_kData b @ bs\<rparr>)
          \<lparr>sl_readOffset := sl_readOffset sl + n\<rparr>)"

lemma after_read_simps [simp]:
  "sl_occupied (after_read maxReq tile i sl) = sl_occupied sl" "sl_failed (after_read maxReq tile i sl) = sl_failed sl"
  "\<not> sl_readInflight (after_read maxReq tile i sl)" "sl_kLoadsPending (after_read maxReq tile i sl) = sl_kLoadsPending sl"
  "sl_vLoadsPending (after_read maxReq tile i sl) = sl_vLoadsPending sl" "sl_bytes (after_read maxReq tile i sl) = sl_bytes sl"
  "sl_readingV (after_read maxReq tile i sl) = sl_readingV sl" "sl_subscribers (after_read maxReq tile i sl) = sl_subscribers sl"
  "sl_deliveredMask (after_read maxReq tile i sl) = sl_deliveredMask sl"
  "sl_readOffset (after_read maxReq tile i sl) = sl_readOffset sl + min (sl_bytes sl - sl_readOffset sl) maxReq"
  by (simp_all add: after_read_def Let_def)

lemma after_read_data:
  assumes "data_ok tile i sl"
  shows "data_ok tile i (after_read maxReq tile i sl)"
proof -
  let ?b = "sl\<lparr>sl_readInflight := False\<rparr>"
  let ?n = "min (sl_bytes sl - sl_readOffset sl) maxReq"
  have "data_ok tile i ?b" "sl_readOffset ?b + ?n \<le> sl_bytes ?b" using assms by (auto simp: data_ok_def)
  from data_ok_append [OF this(1) refl this(2)] show ?thesis
    by (cases "sl_readingV sl") (simp_all add: after_read_def Let_def)
qed

lemma readDone_pump:
  assumes "reading tile i s" "0 < maxReq"
  shows "kv_step c maxReq acc (served_read maxReq tile i s) s =
    Inr (pumpAttentionKvManagerRead c maxReq acc i (upd_slot i (after_read maxReq tile i (kv_slots s ! i)) s))"
proof -
  have f: "i < length (kv_slots s)" "sl_occupied (kv_slots s ! i)" "sl_readOffset (kv_slots s ! i) < sl_bytes (kv_slots s ! i)"
    using assms(1) by (auto simp: reading_def Let_def)
  define sl where "sl = kv_slots s ! i"
  define n where "n = min (sl_bytes sl - sl_readOffset sl) maxReq"
  define bs where "bs = map (tile i (sl_epoch sl) (sl_readingV sl)) [sl_readOffset sl..<sl_readOffset sl + n]"
  have bs: "bs \<noteq> []" "length bs = n" using f assms(2) by (auto simp: bs_def n_def sl_def)
  have "kv_step c maxReq acc (served_read maxReq tile i s) s = Inr (kv_readDone c maxReq acc i (sl_epoch sl) 0 True 0 bs s)"
    by (simp add: served_read_def Let_def bs_def n_def sl_def)
  also have "kv_readDone c maxReq acc i (sl_epoch sl) 0 True 0 bs s =
      pumpAttentionKvManagerRead c maxReq acc i (upd_slot i (after_read maxReq tile i sl) s)"
    using f bs unfolding kv_readDone_def after_read_def Let_def sl_def [symmetric] n_def [symmetric] bs_def [symmetric]
    by (cases "sl_readingV sl") simp_all
  finally show ?thesis by (simp add: sl_def)
qed


text \<open>One answered read: either the next read is in flight and fewer bytes are left, or everybody is served.\<close>

lemma reading_step:
  assumes rd: "reading tile i s" and max: "0 < maxReq"
  obtains s' where "kv_step c maxReq (\<lambda>_. True) (served_read maxReq tile i s) s = Inr s'"
    "reading tile i s' \<and> bytes_left i s' < bytes_left i s \<and> sl_subscribers (kv_slots s' ! i) = sl_subscribers (kv_slots s ! i) \<and>
       sl_deliveredMask (kv_slots s' ! i) = sl_deliveredMask (kv_slots s ! i) \<or>
     (\<forall>w < 4. sb_present (sl_subscribers (kv_slots s ! i) ! w) \<and> sl_deliveredMask (kv_slots s ! i) AND worker_bit w = 0 \<longrightarrow>
        served (kv_out s') (sl_subscribers (kv_slots s ! i) ! w) w)"
proof -
  define sl where "sl = kv_slots s ! i"
  define a where "a = after_read maxReq tile i sl"
  let ?t = "upd_slot i a s"
  let ?p = "pumpAttentionKvManagerRead c maxReq (\<lambda>_. True) i ?t"
  have f: "i < length (kv_slots s)" "sl_occupied sl" "\<not> sl_failed sl" "sl_kLoadsPending sl = 0" "sl_vLoadsPending sl = 0"
    "sl_readOffset sl < sl_bytes sl" "data_ok tile i sl" "length (sl_subscribers sl) = 4"
    using rd by (auto simp: reading_def Let_def sl_def)
  have run: "kv_step c maxReq (\<lambda>_. True) (served_read maxReq tile i s) s = Inr ?p"
    using readDone_pump [OF rd max] by (simp add: a_def sl_def)
  have ta: "kv_slots ?t ! i = a" "i < length (kv_slots ?t)" using f(1) by simp_all
  have d: "data_ok tile i a" using after_read_data [OF f(7)] by (simp add: a_def)
  have off: "sl_readOffset sl < sl_readOffset a" "sl_readOffset a \<le> sl_bytes sl" using f(6) max by (auto simp: a_def)
  have a: "sl_occupied a" "\<not> sl_failed a" "\<not> sl_readInflight a" "sl_kLoadsPending a = 0" "sl_vLoadsPending a = 0" "sl_bytes a = sl_bytes sl"
    "sl_readingV a = sl_readingV sl" "sl_subscribers a = sl_subscribers sl" "sl_deliveredMask a = sl_deliveredMask sl"
    using f by (simp_all add: a_def)
  note left = bytes_left_def Let_def sl_def [symmetric]
  show thesis
  proof (cases "sl_readOffset a = sl_bytes sl")
    case False
    have p: "?p = issue_read c maxReq (\<lambda>_. True) i ?t"
      using ta a False by (simp add: pumpAttentionKvManagerRead_def Let_def)
    have "bytes_left i ?t < bytes_left i s" using ta(1) off a by (cases "sl_readingV sl") (simp_all add: left)
    then show thesis
      using that [OF run] issue_read_reading [of i ?t tile c maxReq] ta a d off False f(8) unfolding p by (simp add: sl_def)
  next
    case True
    show thesis
    proof (cases "sl_readingV sl")
      case V: True
      have p: "?p = deliverAttentionKvSlot c i ?t"
        using ta a True V by (simp add: pumpAttentionKvManagerRead_def Let_def)
      have "slot_ready a" using d True V a by (simp add: slot_ready_def data_ok_def)
      then show thesis
        using that [OF run] deliver_serves [OF ta(2), of _ c] ta a unfolding p by (simp add: sl_def)
    next
      case K: False
      let ?u = "upd_slot i (a\<lparr>sl_readingV := True, sl_readOffset := 0\<rparr>) ?t"
      have p: "?p = issue_read c maxReq (\<lambda>_. True) i ?u"
        using ta a True K f(6) by (simp add: pumpAttentionKvManagerRead_def Let_def)
      have u: "kv_slots ?u ! i = a\<lparr>sl_readingV := True, sl_readOffset := 0\<rparr>" "i < length (kv_slots ?u)" using f(1) by simp_all
      have "data_ok tile i (a\<lparr>sl_readingV := True, sl_readOffset := 0\<rparr>)" using d True K a by (simp add: data_ok_def)
      moreover have "bytes_left i ?u < bytes_left i s" using u(1) f(6) a K by (simp add: left)
      ultimately show thesis
        using that [OF run] issue_read_reading [of i ?u tile c maxReq] u a f(6,8) unfolding p by (simp add: sl_def)
    qed
  qed
qed

lemma tile_delivered:
  assumes "reading tile i s" "0 < maxReq"
  shows "\<exists>ops s'. kv_run c maxReq (\<lambda>_. True) tile ops s s' \<and> length ops \<le> bytes_left i s \<and>
    (\<forall>w < 4. sb_present (sl_subscribers (kv_slots s ! i) ! w) \<and> sl_deliveredMask (kv_slots s ! i) AND worker_bit w = 0 \<longrightarrow>
       served (kv_out s') (sl_subscribers (kv_slots s ! i) ! w) w)"
  using assms(1)
proof (induction "bytes_left i s" arbitrary: s rule: less_induct)
  case less
  obtain s1 where st: "kv_step c maxReq (\<lambda>_. True) (served_read maxReq tile i s) s = Inr s1"
    and alt: "reading tile i s1 \<and> bytes_left i s1 < bytes_left i s \<and> sl_subscribers (kv_slots s1 ! i) = sl_subscribers (kv_slots s ! i) \<and>
        sl_deliveredMask (kv_slots s1 ! i) = sl_deliveredMask (kv_slots s ! i) \<or>
      (\<forall>w < 4. sb_present (sl_subscribers (kv_slots s ! i) ! w) \<and> sl_deliveredMask (kv_slots s ! i) AND worker_bit w = 0 \<longrightarrow>
        served (kv_out s1) (sl_subscribers (kv_slots s ! i) ! w) w)"
    by (rule reading_step [OF less.prems assms(2)])
  have ct: "kv_contract maxReq tile (served_read maxReq tile i s) s"
    by (simp add: served_read_def Let_def read_contract_def)
  have pos: "0 < bytes_left i s" using less.prems by (auto simp: reading_def bytes_left_def Let_def)
  show ?case
  proof (cases "reading tile i s1 \<and> bytes_left i s1 < bytes_left i s \<and> sl_subscribers (kv_slots s1 ! i) = sl_subscribers (kv_slots s ! i) \<and>
        sl_deliveredMask (kv_slots s1 ! i) = sl_deliveredMask (kv_slots s ! i)")
    case True
    from less.hyps [of s1] True obtain ops s' where "kv_run c maxReq (\<lambda>_. True) tile ops s1 s'" "length ops \<le> bytes_left i s1"
      "\<forall>w < 4. sb_present (sl_subscribers (kv_slots s ! i) ! w) \<and> sl_deliveredMask (kv_slots s ! i) AND worker_bit w = 0 \<longrightarrow>
        served (kv_out s') (sl_subscribers (kv_slots s ! i) ! w) w" by auto
    then show ?thesis
      using kv_run_step [OF ct st] True by (intro exI [of _ "served_read maxReq tile i s # ops"] exI [of _ s']) auto
  next
    case False
    with alt have sv: "\<forall>w < 4. sb_present (sl_subscribers (kv_slots s ! i) ! w) \<and> sl_deliveredMask (kv_slots s ! i) AND worker_bit w = 0 \<longrightarrow>
        served (kv_out s1) (sl_subscribers (kv_slots s ! i) ! w) w" by blast
    have "kv_run c maxReq (\<lambda>_. True) tile [served_read maxReq tile i s] s s1"
      by (rule kv_run_step [OF ct st kv_run_nil])
    with sv pos show ?thesis by (intro exI [of _ "[served_read maxReq tile i s]"] exI [of _ s1]) auto
  qed
qed


text \<open>C4: a loaded tile is delivered: when the DMA of a slot has completed and its first local read is in
  flight, and the local memory answers, then after finitely many read completions (at most the
  number of bytes of the two tiles) every subscriber that has not had its delivery yet has been
  sent a successful one.\<close>

theorem kv_tile_delivered:
  assumes "reading tile i s" "0 < maxReq"
  shows "\<exists>ops s'. kv_run c maxReq (\<lambda>_. True) tile ops s s' \<and> length ops \<le> bytes_left i s \<and>
    (\<forall>w < 4. sb_present (sl_subscribers (kv_slots s ! i) ! w) \<and> sl_deliveredMask (kv_slots s ! i) AND worker_bit w = 0 \<longrightarrow>
       served (kv_out s') (sl_subscribers (kv_slots s ! i) ! w) w)"
  by (rule tile_delivered [OF assms])

lemma delivered_after:
  assumes "reading tile i s" "0 < maxReq" "w < 4" "sb_present (sl_subscribers (kv_slots s ! i) ! w)"
    "sl_deliveredMask (kv_slots s ! i) AND worker_bit w = 0"
  shows "\<exists>ops s'. kv_run c maxReq (\<lambda>_. True) tile ops s s' \<and> served (kv_out s') (sl_subscribers (kv_slots s ! i) ! w) w"
  using tile_delivered [OF assms(1,2), of c] assms(3-5) by blast

subsection \<open>A concrete run\<close>

definition demo_kv :: "nat \<Rightarrow> nat \<Rightarrow> GroupCtrlMsg" where
  "demo_kv seq generation = (new_msg ATTENTION_KV_REQUEST)\<lparr>ms_reqSeq := seq, ms_bytes := 4, ms_generation := generation, ms_jobTag := 1,
     ms_numKvTiles := 1, ms_kvLength := 1, ms_kvTileRows := 1, ms_tileRows := 1, ms_rowsPerBand := 1,
     ms_headDim := 1, ms_kAddr := 0x1000, ms_vAddr := 0x2000, ms_kDstAddr := 0x100, ms_vDstAddr := 0x200\<rparr>"

definition demo_tile :: "nat \<Rightarrow> nat \<Rightarrow> bool \<Rightarrow> nat \<Rightarrow> byte" where
  "demo_tile i e v k = of_nat (k + (if v then 16 else 0))"

lemma demo_chunks: "dma_chunks 0 (Suc 0) (Suc 0) 0 = [(0, Suc 0)]"
  by (simp add: dma_chunks.simps u32_def)

lemma kv_run_append:
  "kv_run c maxReq acc tile xs s t \<Longrightarrow> kv_run c maxReq acc tile ys t u \<Longrightarrow> kv_run c maxReq acc tile (xs @ ys) s u"
  by (induction rule: kv_run.induct) (auto intro: kv_run.intros)

text \<open>The slot after the first request, and after both DMA completions.\<close>

definition demo_slot :: "nat \<Rightarrow> nat \<Rightarrow> nat \<Rightarrow> nat \<Rightarrow> KvSlot" where
  "demo_slot seq g kl vl = (subscribed (demo_kv seq g) 0 (started_slot (demo_kv seq g) 1))\<lparr>sl_kLoadsPending := kl, sl_vLoadsPending := vl\<rparr>"

lemma demo_slot_simps [simp]:
  "sl_occupied (demo_slot seq g kl vl)" "\<not> sl_failed (demo_slot seq g kl vl)" "\<not> sl_readInflight (demo_slot seq g kl vl)"
  "sl_kLoadsPending (demo_slot seq g kl vl) = kl" "sl_vLoadsPending (demo_slot seq g kl vl) = vl" "sl_epoch (demo_slot seq g kl vl) = 1"
  "sl_readOffset (demo_slot seq g kl vl) = 0" "sl_bytes (demo_slot seq g kl vl) = 4" "\<not> sl_readingV (demo_slot seq g kl vl)"
  "sl_deliveredMask (demo_slot seq g kl vl) = 0" "sl_kData (demo_slot seq g kl vl) = []" "sl_vData (demo_slot seq g kl vl) = []"
  "sl_completedMask (demo_slot seq g kl vl) = 0" "sl_cancelledMask (demo_slot seq g kl vl) = 0" "sl_generation (demo_slot seq g kl vl) = g"
  "sl_requestedMask (demo_slot seq g kl vl) = worker_bit 0"
  "(demo_slot seq g kl vl)\<lparr>sl_kLoadsPending := kl'\<rparr> = demo_slot seq g kl' vl"
  "(demo_slot seq g kl vl)\<lparr>sl_vLoadsPending := vl'\<rparr> = demo_slot seq g kl vl'"
  "(demo_slot seq g kl vl)\<lparr>sl_failed := False\<rparr> = demo_slot seq g kl vl"
  by (simp_all add: demo_slot_def subscribed_def started_slot_def new_slot_def demo_kv_def)

lemma demo_slot_subs: "sl_subscribers (demo_slot seq g kl vl) = [sub_of (demo_kv seq g), new_subscriber, new_subscriber, new_subscriber]"
  by (simp add: demo_slot_def subscribed_def started_slot_def new_slot_def sub_of_def numeral_eq_Suc)

lemma demo_kv_accepted: "g \<noteq> 0 \<Longrightarrow> w < 4 \<Longrightarrow> \<not> kv_request_refused (demo_config MANAGER) (demo_kv seq g) w"
  by (simp add: kv_request_refused_def demo_config_def demo_kv_def new_msg_def)

lemma demo_request_run:
  assumes "g \<noteq> 0"
  shows "\<exists>s. handleAttentionKvRequest (demo_config MANAGER) (demo_kv seq g) 0 (new_kvm (demo_config MANAGER)) = Inr s \<and>
    kv_slots s = [demo_slot seq g 1 1, new_slot] \<and> kv_pending s = []"
proof -
  let ?c = "demo_config MANAGER"
  have slots: "kv_slots (new_kvm ?c) = [new_slot, new_slot]" by (simp add: new_kvm_def demo_config_def numeral_2_eq_2)
  have idle: "\<not> sl_occupied new_slot" by (simp add: new_slot_def)
  have free: "findFreeAttentionKvSlot (new_kvm ?c) = Some 0" "findAttentionKvSlot (demo_kv seq g) (new_kvm ?c) = None"
    using idle by (simp_all add: findFreeAttentionKvSlot_def findAttentionKvSlot_def slots slot_matches_def)
  let ?s1 = "addAttentionKvSubscriber 0 (demo_kv seq g) 0 (startAttentionKvSlot 0 (demo_kv seq g) (new_kvm ?c))"
  have "demo_slot seq g 0 0 = subscribed (demo_kv seq g) 0 (started_slot (demo_kv seq g) 1)"
    by (simp add: demo_slot_def subscribed_def started_slot_def new_slot_def)
  moreover have "kv_slots (startAttentionKvSlot 0 (demo_kv seq g) (new_kvm ?c)) = [started_slot (demo_kv seq g) 1, new_slot]"
  proof -
    have "kv_nextEpoch (new_kvm ?c) = 1" by (simp add: new_kvm_def)
    then show ?thesis by (simp add: startAttentionKvSlot_def Let_def slots)
  qed
  moreover have "\<not> sl_speculative (started_slot (demo_kv seq g) 1)" "kv_pending (new_kvm ?c) = []"
    by (simp_all add: started_slot_def new_slot_def new_kvm_def)
  ultimately have s1: "kv_slots ?s1 = [demo_slot seq g 0 0, new_slot]" "kv_pending ?s1 = []"
    by (simp_all add: addAttentionKvSubscriber_def Let_def)
  have geo: "first_row (demo_slot seq g kl vl) = 0" "sl_rowsPerBand (demo_slot seq g kl vl) = 1" "sl_tileRows (demo_slot seq g kl vl) = 1" for kl vl
    by (simp_all add: first_row_def demo_slot_def subscribed_def started_slot_def demo_kv_def new_msg_def)
  obtain s2 where s2: "issueAttentionKvDma ?c 0 False ?s1 = Inr s2" "kv_slots s2 = [demo_slot seq g 1 0, new_slot]" "kv_pending s2 = []"
    using s1 by (simp add: issueAttentionKvDma_def Let_def geo demo_chunks)
  obtain s3 where s3: "issueAttentionKvDma ?c 0 True s2 = Inr s3" "kv_slots s3 = [demo_slot seq g 1 1, new_slot]" "kv_pending s3 = []"
    using s2 by (simp add: issueAttentionKvDma_def Let_def geo demo_chunks)
  show ?thesis
    using free s2 s3 demo_kv_accepted [OF assms, of 0 seq] by (simp add: handleAttentionKvRequest_def)
qed

lemma demo_reading:
  assumes "g \<noteq> 0"
  shows "\<exists>s. kv_run (demo_config MANAGER) 64 (\<lambda>_. True) demo_tile
      [KvRequest (demo_kv seq g) 0, KvDmaDone 0 1 False True, KvDmaDone 0 1 True True] (new_kvm (demo_config MANAGER)) s \<and>
    reading demo_tile 0 s \<and> sl_subscribers (kv_slots s ! 0) = [sub_of (demo_kv seq g), new_subscriber, new_subscriber, new_subscriber] \<and>
    sl_deliveredMask (kv_slots s ! 0) = 0"
proof -
  let ?c = "demo_config MANAGER"
  obtain s1 where s1: "handleAttentionKvRequest ?c (demo_kv seq g) 0 (new_kvm ?c) = Inr s1"
    "kv_slots s1 = [demo_slot seq g 1 1, new_slot]" using demo_request_run [OF assms] by blast
  let ?s2 = "upd_slot 0 (demo_slot seq g 0 1) s1"
  let ?s3 = "upd_slot 0 (demo_slot seq g 0 0) ?s2"
  let ?s4 = "issue_read ?c 64 (\<lambda>_. True) 0 ?s3"
  have s2: "completeAttentionKvDma ?c 64 (\<lambda>_. True) 0 1 False True s1 = ?s2"
    using s1(2) by (simp add: completeAttentionKvDma_def Let_def)
  have s4: "completeAttentionKvDma ?c 64 (\<lambda>_. True) 0 1 True True ?s2 = ?s4"
    using s1(2) by (simp add: completeAttentionKvDma_def Let_def pumpAttentionKvManagerRead_def)
  have rd: "reading demo_tile 0 ?s4" "sl_subscribers (kv_slots ?s4 ! 0) = sl_subscribers (kv_slots ?s3 ! 0)"
    "sl_deliveredMask (kv_slots ?s4 ! 0) = sl_deliveredMask (kv_slots ?s3 ! 0)"
    using s1(2) by (intro issue_read_reading; simp add: data_ok_def demo_slot_subs)+
  have "kv_run ?c 64 (\<lambda>_. True) demo_tile
      [KvRequest (demo_kv seq g) 0, KvDmaDone 0 1 False True, KvDmaDone 0 1 True True] (new_kvm ?c) ?s4"
    using s1(1) s2 s4 by (intro kv_run_step) (auto intro: kv_run_nil)
  then show ?thesis using rd s1(2) by (auto simp: demo_slot_subs)
qed

theorem kv_tile_delivered_witness:
  "\<exists>s ops s'. reading demo_tile 0 s \<and> kv_run (demo_config MANAGER) 64 (\<lambda>_. True) demo_tile ops s s' \<and>
     served (kv_out s') (sub_of (demo_kv 9 5)) 0"
proof -
  obtain s where s: "reading demo_tile 0 s" "sl_subscribers (kv_slots s ! 0) = [sub_of (demo_kv 9 5), new_subscriber, new_subscriber, new_subscriber]"
    "sl_deliveredMask (kv_slots s ! 0) = 0" using demo_reading [of 5 9] by auto
  have "(0::nat) < 64" by simp
  from kv_tile_delivered [OF s(1) this, of "demo_config MANAGER"] s show ?thesis by (fastforce simp: sub_of_def)
qed



section \<open>A cancellation that is lost\<close>

lemma cancel_slot_other:
  assumes "sl_occupied (kv_slots s ! i) \<Longrightarrow> sl_generation (kv_slots s ! i) \<noteq> ms_generation m"
  shows "cancel_slot c m w i (s, n) = Inr (s, n)"
  using assms by (auto simp: cancel_slot_def Let_def)

lemma cancel_other_generation:
  assumes "\<forall>i < length (kv_slots s). sl_occupied (kv_slots s ! i) \<longrightarrow> sl_generation (kv_slots s ! i) \<noteq> ms_generation m"
    and "kv_pending s = []"
  shows "handleAttentionKvCancel c m w s = Inr s"
proof -
  have "foldE (cancel_slot c m w) ks (s, 0) = Inr (s, 0)" if "\<forall>k \<in> set ks. k < length (kv_slots s)" for ks
    using that assms(1) by (induction ks) (simp_all add: cancel_slot_other)
  then have "foldE (cancel_slot c m w) [0..<length (kv_slots s)] (s, 0) = Inr (s, 0)" by simp
  moreover have "s\<lparr>kv_pending := []\<rparr> = s" using assms(2) by (cases s) simp
  ultimately show ?thesis using assms(2) by (simp add: handleAttentionKvCancel_def Let_def)
qed

lemma unaccounted:
  assumes "w < gc_kvExpectedWorkers c" "gc_kvExpectedWorkers c \<le> 4" "\<not> bit (sl_completedMask sl) w" "\<not> bit (sl_cancelledMask sl) w"
  shows "\<not> slot_accounted c sl"
proof
  let ?e = "mask (gc_kvExpectedWorkers c) :: 8 word"
  assume "slot_accounted c sl"
  then have "bit ((sl_completedMask sl OR sl_cancelledMask sl) AND ?e) w = bit ?e w" by (simp add: slot_accounted_def Let_def)
  moreover have "bit ?e w" using assms(1,2) by (simp add: bit_mask_iff)
  ultimately show False using assms(3,4) by (simp add: bit_and_iff bit_or_iff)
qed

text \<open>
  Workers 0 and 1 ask for the same tile under generations 5 and 6 (local generations of the workers
  of a group may differ); worker 1 cancels its generation. The slot carries generation 5, so the
  handler skips it: worker 1 stays a subscriber that is neither completed nor cancelled, the
  slot is not accounted for, and since the worker has dropped its request it sends no
  acknowledgement either.
\<close>

theorem kv_cancel_lost:
  "\<exists>s. kv_run (demo_config MANAGER) 64 (\<lambda>_. True) demo_tile
      [KvRequest (demo_kv 9 5) 0, KvRequest (demo_kv 3 6) 1, KvCancel ((new_msg ATTENTION_KV_CANCEL)\<lparr>ms_generation := 6\<rparr>) 1]
      (new_kvm (demo_config MANAGER)) s \<and>
    sl_occupied (kv_slots s ! 0) \<and> sb_generation (sl_subscribers (kv_slots s ! 0) ! 1) = 6 \<and>
    sl_completedMask (kv_slots s ! 0) = 0 \<and> sl_cancelledMask (kv_slots s ! 0) = 0 \<and>
    \<not> slot_accounted (demo_config MANAGER) (kv_slots s ! 0)"
proof -
  let ?c = "demo_config MANAGER"
  let ?m = "demo_kv 3 6"
  let ?x = "(new_msg ATTENTION_KV_CANCEL)\<lparr>ms_generation := 6\<rparr>"
  obtain s1 where s1: "handleAttentionKvRequest ?c (demo_kv 9 5) 0 (new_kvm ?c) = Inr s1"
    "kv_slots s1 = [demo_slot 9 5 1 1, new_slot]" "kv_pending s1 = []" using demo_request_run [of 5 9] by auto
  have match: "findAttentionKvSlot ?m s1 = Some 0" "slot_compatible ?m (demo_slot 9 5 1 1)" "\<not> sl_speculative (demo_slot 9 5 1 1)"
    by (simp_all add: findAttentionKvSlot_def s1(2) slot_matches_def slot_compatible_def)
      (simp_all add: demo_slot_def subscribed_def started_slot_def demo_kv_def new_slot_def)
  define s2 where "s2 = upd_slot 0 (subscribed ?m 1 (demo_slot 9 5 1 1)) (emit [Stat StatKvCoalesced 1] s1)"
  have not_ready: "\<not> slot_ready (subscribed ?m 1 (demo_slot 9 5 1 1))" by (simp add: slot_ready_def subscribed_def)
  have s2: "handleAttentionKvRequest ?c ?m 1 s1 = Inr s2"
    using match s1 not_ready demo_kv_accepted [of 6 1 3]
    by (simp add: handleAttentionKvRequest_def addAttentionKvSubscriber_def Let_def demo_slot_subs new_subscriber_def s2_def
        deliverAttentionKvSlot_def)
  have sl: "kv_slots s2 = [subscribed ?m 1 (demo_slot 9 5 1 1), new_slot]" "kv_pending s2 = []"
    by (simp_all add: s2_def s1)
  have g: "sl_generation (subscribed ?m 1 (demo_slot 9 5 1 1)) = 5" "\<not> sl_occupied new_slot"
    by (simp_all add: subscribed_def new_slot_def)
  have "handleAttentionKvCancel ?c ?x 1 s2 = Inr s2"
    by (rule cancel_other_generation) (use sl g in \<open>auto simp: less_Suc_eq\<close>)
  then have run: "kv_run ?c 64 (\<lambda>_. True) demo_tile [KvRequest (demo_kv 9 5) 0, KvRequest ?m 1, KvCancel ?x 1] (new_kvm ?c) s2"
    using s1(1) s2 by (intro kv_run_step) (auto intro: kv_run_nil)
  have masks: "sl_completedMask (kv_slots s2 ! 0) = 0" "sl_cancelledMask (kv_slots s2 ! 0) = 0"
    "sl_occupied (kv_slots s2 ! 0)" "sb_generation (sl_subscribers (kv_slots s2 ! 0) ! 1) = 6"
    by (simp_all add: sl subscribed_def demo_slot_subs) (simp add: demo_kv_def)
  have "\<not> slot_accounted ?c (kv_slots s2 ! 0)"
    by (rule unaccounted [of 1]) (simp_all add: masks demo_config_def)
  then show ?thesis using run masks by blast
qed

end
