(* ===== verification/Group_Kv_Worker.thy ===== *)
theory Group_Kv_Worker
  imports Group_Base
begin

text \<open>
  \<^verbatim>\<open>golem/groupctrl/groupctrl.cc\<close>, the worker's side of the Attention K/V distribution: requests with
  their callbacks, deliveries that are written chunk by chunk to the local memory (K first, then
  V), acknowledgements, and cancellation of a generation.

  The two \<open>unordered_map\<close>s are association lists; the code's iteration order is unspecified and
  here that of the list. Client callbacks are effects: they do not call back into the endpoint
  before the operation that invokes them has returned. \<open>gw_acked\<close> is a ghost: the writes that the memory
  has acknowledged, with the request they belong to.
\<close>

section \<open>State and operations\<close>

record WorkerKvCallback =
  cb_generation :: nat
  cb_hasKReady :: bool
  cb_kReadySent :: bool

record WorkerKvDelivery =
  dl_generation :: nat
  dl_kDstAddr :: addr
  dl_vDstAddr :: addr
  dl_offset :: nat
  dl_writingV :: bool
  dl_inflight :: bool
  dl_kData :: "byte list"
  dl_vData :: "byte list"

record gworker =
  gw_callbacks :: "(nat \<times> WorkerKvCallback) list"
  gw_deliveries :: "(nat \<times> WorkerKvDelivery) list"
  gw_nextKvRequestId :: nat
  gw_nextTag :: nat
  gw_out :: "gc_effect list"
  gw_acked :: "(nat \<times> addr \<times> byte list) list"

definition new_gworker :: gworker where
  "new_gworker = \<lparr>gw_callbacks = [], gw_deliveries = [], gw_nextKvRequestId = 1, gw_nextTag = 1,
     gw_out = [], gw_acked = []\<rparr>"

definition w_emit :: "gc_effect list \<Rightarrow> gworker \<Rightarrow> gworker" where
  "w_emit es s = s\<lparr>gw_out := gw_out s @ es\<rparr>"

definition worker_message :: "gc_config \<Rightarrow> GroupCtrlMsgType \<Rightarrow> GroupCtrlMsg" where
  "worker_message c t = (new_msg t)\<lparr>ms_groupId := gc_groupId c mod 256, ms_workerSlot := nat (gc_workerSlot c mod 256)\<rparr>"

text \<open>\<open>connected\<close>: the request link exists; \<open>hasCallback\<close>, \<open>hasKReady\<close>: the callbacks are callable.\<close>

definition request_refused :: "gc_config \<Rightarrow> bool \<Rightarrow> bool \<Rightarrow> AttentionKvRequest \<Rightarrow> gworker \<Rightarrow> bool" where
  "request_refused c connected hasCallback r s \<longleftrightarrow>
     \<not> gc_kvEnable c \<or> gc_role c \<noteq> WORKER \<or> \<not> connected \<or> \<not> hasCallback \<or> rq_generation r = 0 \<or>
     rq_tileRows r = 0 \<or> rq_rowsPerBand r = 0 \<or> rq_headDim r = 0 \<or> rq_tileRows r > rq_kvTileRows r \<or>
     gc_workerSlot c < 0 \<or> gc_workerSlot c \<ge> 4 \<or> length (gw_callbacks s) \<ge> gc_queueDepth c"

definition request_bytes :: "AttentionKvRequest \<Rightarrow> nat" where
  "request_bytes r = u64 (rq_tileRows r * rq_headDim r * 4)"

definition requestAttentionKvPair ::
  "gc_config \<Rightarrow> bool \<Rightarrow> AttentionKvRequest \<Rightarrow> bool \<Rightarrow> bool \<Rightarrow> gworker \<Rightarrow> bool \<times> gworker" where
  "requestAttentionKvPair c connected r hasCallback hasKReady s =
    (if request_refused c connected hasCallback r s then (False, s)
     else if request_bytes r = 0 \<or> request_bytes r > gc_kvTileBytes c \<or> request_bytes r > 2 ^ 32 - 1 then (False, s)
     else
       let requestId = gw_nextKvRequestId s;
           m = fillAttentionKvMessage ((worker_message c ATTENTION_KV_REQUEST)\<lparr>ms_reqSeq := requestId, ms_bytes := request_bytes r\<rparr>) r
       in (True, w_emit [SendReq m, Stat StatKvRequests 1]
             (s\<lparr>gw_nextKvRequestId := requestId + 1,
                gw_callbacks := gw_callbacks s @ [(requestId, \<lparr>cb_generation = rq_generation r, cb_hasKReady = hasKReady, cb_kReadySent = False\<rparr>)]\<rparr>)))"

definition cancelAttentionKvGeneration :: "gc_config \<Rightarrow> bool \<Rightarrow> nat \<Rightarrow> gworker \<Rightarrow> nat \<times> gworker" where
  "cancelAttentionKvGeneration c connected generation s =
    (if \<not> gc_kvEnable c \<or> generation = 0 then (0, s)
     else if gc_role c \<noteq> WORKER then (0, s)
     else
       let gone = map fst (filter (\<lambda>x. cb_generation (snd x) = generation) (gw_callbacks s));
           s1 = s\<lparr>gw_deliveries := filter (\<lambda>x. fst x \<notin> set gone) (gw_deliveries s),
                  gw_callbacks := filter (\<lambda>x. cb_generation (snd x) \<noteq> generation) (gw_callbacks s)\<rparr>;
           es = (if connected then [SendReq ((worker_message c ATTENTION_KV_CANCEL)\<lparr>ms_generation := generation\<rparr>)] else []) @
                (if length gone \<noteq> 0 then [Stat StatKvCancels (length gone)] else [])
       in (length gone, w_emit es s1))"

definition sendAttentionKvAck :: "gc_config \<Rightarrow> bool \<Rightarrow> nat \<Rightarrow> nat \<Rightarrow> gc_effect list" where
  "sendAttentionKvAck c connected requestId generation =
    (if \<not> connected then []
     else [SendReq ((worker_message c ATTENTION_KV_ACK)\<lparr>ms_reqSeq := requestId, ms_generation := generation\<rparr>)])"

definition completeWorkerAttentionKvDelivery :: "gc_config \<Rightarrow> bool \<Rightarrow> nat \<Rightarrow> bool \<Rightarrow> gworker \<Rightarrow> gworker" where
  "completeWorkerAttentionKvDelivery c connected requestId ok s =
    (case map_of (gw_callbacks s) requestId of
       None \<Rightarrow> s\<lparr>gw_deliveries := remove_key requestId (gw_deliveries s)\<rparr>
     | Some cb \<Rightarrow>
         w_emit (sendAttentionKvAck c connected requestId (cb_generation cb) @
                 (if \<not> cb_kReadySent cb \<and> cb_hasKReady cb then [KReady requestId False] else []) @
                 [Callback requestId ok])
           (s\<lparr>gw_callbacks := remove_key requestId (gw_callbacks s),
              gw_deliveries := remove_key requestId (gw_deliveries s)\<rparr>))"

definition dl_source :: "WorkerKvDelivery \<Rightarrow> byte list" where
  "dl_source d = (if dl_writingV d then dl_vData d else dl_kData d)"

definition dl_destination :: "WorkerKvDelivery \<Rightarrow> addr" where
  "dl_destination d = (if dl_writingV d then dl_vDstAddr d else dl_kDstAddr d) + dl_offset d"

definition dl_chunk :: "nat \<Rightarrow> WorkerKvDelivery \<Rightarrow> byte list" where
  "dl_chunk maxReq d = range_of (dl_source d) (dl_offset d) (min (length (dl_source d) - dl_offset d) maxReq)"

definition issue_write :: "nat \<Rightarrow> (nat \<Rightarrow> bool) \<Rightarrow> nat \<Rightarrow> WorkerKvDelivery \<Rightarrow> gworker \<Rightarrow> gworker" where
  "issue_write maxReq acc requestId d s =
    (let tag = gw_nextTag s
     in w_emit [WriteLocal (dl_destination d) (dl_chunk maxReq d) tag requestId]
          (s\<lparr>gw_nextTag := tag + 1,
             gw_deliveries := put_key requestId (if acc tag then d\<lparr>dl_inflight := True\<rparr> else d) (gw_deliveries s)\<rparr>))"

text \<open>The recursive call after the K operand happens once, for the V operand, and is written out.\<close>

definition pumpWorkerAttentionKvDelivery ::
  "gc_config \<Rightarrow> bool \<Rightarrow> nat \<Rightarrow> (nat \<Rightarrow> bool) \<Rightarrow> nat \<Rightarrow> gworker \<Rightarrow> gworker" where
  "pumpWorkerAttentionKvDelivery c connected maxReq acc requestId s =
    (case map_of (gw_deliveries s) requestId of
       None \<Rightarrow> s
     | Some d \<Rightarrow>
         if dl_inflight d then s
         else if dl_offset d \<noteq> length (dl_source d) then issue_write maxReq acc requestId d s
         else if dl_writingV d then completeWorkerAttentionKvDelivery c connected requestId True s
         else
           (case map_of (gw_callbacks s) requestId of
              None \<Rightarrow> completeWorkerAttentionKvDelivery c connected requestId False s
            | Some cb \<Rightarrow>
                let s1 = (if cb_kReadySent cb then s
                          else w_emit (if cb_hasKReady cb then [KReady requestId True] else [])
                                 (s\<lparr>gw_callbacks := put_key requestId (cb\<lparr>cb_kReadySent := True\<rparr>) (gw_callbacks s)\<rparr>));
                    d1 = d\<lparr>dl_writingV := True, dl_offset := 0\<rparr>;
                    s2 = s1\<lparr>gw_deliveries := put_key requestId d1 (gw_deliveries s1)\<rparr>
                in if dl_vData d \<noteq> [] then issue_write maxReq acc requestId d1 s2
                   else completeWorkerAttentionKvDelivery c connected requestId True s2))"

definition handleAttentionKvDelivery ::
  "gc_config \<Rightarrow> bool \<Rightarrow> nat \<Rightarrow> (nat \<Rightarrow> bool) \<Rightarrow> GroupCtrlMsg \<Rightarrow> gworker \<Rightarrow> gworker" where
  "handleAttentionKvDelivery c connected maxReq acc m s =
    (let requestId = ms_reqSeq m
     in case map_of (gw_callbacks s) requestId of
          None \<Rightarrow> s
        | Some cb \<Rightarrow>
            if \<not> gc_kvEnable c \<or> gc_role c \<noteq> WORKER \<or> cb_generation cb \<noteq> ms_generation m \<or> ms_status m = 0 \<or>
               ms_kData m = [] \<or> length (ms_kData m) \<noteq> length (ms_vData m)
            then completeWorkerAttentionKvDelivery c connected requestId False s
            else
              let d = \<lparr>dl_generation = ms_generation m, dl_kDstAddr = ms_kDstAddr m, dl_vDstAddr = ms_vDstAddr m, dl_offset = 0,
                       dl_writingV = False, dl_inflight = False, dl_kData = ms_kData m, dl_vData = ms_vData m\<rparr>;
                  ds = (if map_of (gw_deliveries s) requestId = None then gw_deliveries s @ [(requestId, d)] else gw_deliveries s)
              in pumpWorkerAttentionKvDelivery c connected maxReq acc requestId (s\<lparr>gw_deliveries := ds\<rparr>))"

text \<open>
  The completion callback of a write; it captures its tag and the chunk's length, and the ghost
  records the destination and bytes of the chunk.
\<close>

definition kv_writeDone ::
  "gc_config \<Rightarrow> bool \<Rightarrow> nat \<Rightarrow> (nat \<Rightarrow> bool) \<Rightarrow> nat \<Rightarrow> nat \<Rightarrow> addr \<Rightarrow> byte list \<Rightarrow> bool \<Rightarrow> nat \<Rightarrow> gworker \<Rightarrow> gworker" where
  "kv_writeDone c connected maxReq acc requestId tag destination chunk ok callbackTag s =
    (case map_of (gw_deliveries s) requestId of
       None \<Rightarrow> s
     | Some d \<Rightarrow>
         if \<not> ok \<or> callbackTag \<noteq> tag
         then completeWorkerAttentionKvDelivery c connected requestId False
                (s\<lparr>gw_deliveries := put_key requestId (d\<lparr>dl_inflight := False\<rparr>) (gw_deliveries s)\<rparr>)
         else pumpWorkerAttentionKvDelivery c connected maxReq acc requestId
                (s\<lparr>gw_deliveries := put_key requestId (d\<lparr>dl_inflight := False, dl_offset := dl_offset d + length chunk\<rparr>) (gw_deliveries s),
                   gw_acked := gw_acked s @ [(requestId, destination, chunk)]\<rparr>))"

text \<open>The worker's delivery loop of \<open>tick\<close>, over a copy of the identifiers.\<close>

definition kv_worker_tick :: "gc_config \<Rightarrow> bool \<Rightarrow> nat \<Rightarrow> (nat \<Rightarrow> bool) \<Rightarrow> gworker \<Rightarrow> gworker" where
  "kv_worker_tick c connected maxReq acc s =
    fold (pumpWorkerAttentionKvDelivery c connected maxReq acc) (map fst (gw_deliveries s)) s"

section \<open>Runs\<close>

datatype gw_op =
    GwRequest AttentionKvRequest bool bool
  | GwCancel nat
  | GwDelivery GroupCtrlMsg
  | GwWriteDone nat nat addr "byte list" bool nat
  | GwTick

fun gw_step :: "gc_config \<Rightarrow> nat \<Rightarrow> (nat \<Rightarrow> bool) \<Rightarrow> gw_op \<Rightarrow> gworker \<Rightarrow> gworker" where
  "gw_step c maxReq acc (GwRequest r hasCallback hasKReady) s = snd (requestAttentionKvPair c True r hasCallback hasKReady s)"
| "gw_step c maxReq acc (GwCancel g) s = snd (cancelAttentionKvGeneration c True g s)"
| "gw_step c maxReq acc (GwDelivery m) s = handleAttentionKvDelivery c True maxReq acc m s"
| "gw_step c maxReq acc (GwWriteDone i tag a bs ok ctag) s = kv_writeDone c True maxReq acc i tag a bs ok ctag s"
| "gw_step c maxReq acc GwTick s = kv_worker_tick c True maxReq acc s"

text \<open>A write completes only while it is in flight, with the destination and the bytes it was issued with.\<close>

fun gw_contract :: "nat \<Rightarrow> gw_op \<Rightarrow> gworker \<Rightarrow> bool" where
  "gw_contract maxReq (GwWriteDone i tag a bs ok ctag) s =
    (case map_of (gw_deliveries s) i of
       None \<Rightarrow> True
     | Some d \<Rightarrow> dl_inflight d \<and> a = dl_destination d \<and> bs = dl_chunk maxReq d)"
| "gw_contract maxReq _ s = True"

inductive gw_run :: "gc_config \<Rightarrow> nat \<Rightarrow> (nat \<Rightarrow> bool) \<Rightarrow> gw_op list \<Rightarrow> gworker \<Rightarrow> bool" for c maxReq acc where
  gw_run_init: "gw_run c maxReq acc [] new_gworker"
| gw_run_step: "gw_run c maxReq acc xs s \<Longrightarrow> gw_contract maxReq x s \<Longrightarrow>
    gw_run c maxReq acc (xs @ [x]) (gw_step c maxReq acc x s)"

section \<open>Invariant\<close>

text \<open>The effects that the invariant reads: acknowledgements and client callbacks.\<close>

fun is_ack :: "gc_effect \<Rightarrow> bool" where
  "is_ack (SendReq m) = (ms_type m = ATTENTION_KV_ACK)"
| "is_ack _ = False"

fun is_callback :: "gc_effect \<Rightarrow> bool" where
  "is_callback (Callback i ok) = True"
| "is_callback _ = False"

definition closing :: "gc_effect list \<Rightarrow> gc_effect list" where
  "closing out = filter (\<lambda>e. is_ack e \<or> is_callback e) out"

fun ack_of :: "nat \<Rightarrow> gc_effect \<Rightarrow> bool" where
  "ack_of i (SendReq m) = (ms_type m = ATTENTION_KV_ACK \<and> ms_reqSeq m = i)"
| "ack_of i _ = False"

fun callback_of :: "nat \<Rightarrow> gc_effect \<Rightarrow> bool" where
  "callback_of i (Callback j ok) = (i = j)"
| "callback_of i _ = False"

definition landed :: "GroupCtrlMsg set \<Rightarrow> (nat \<times> addr \<times> byte list) list \<Rightarrow> nat \<Rightarrow> bool" where
  "landed got ws i \<longleftrightarrow> (\<exists>m \<in> got. ms_reqSeq m = i \<and> ms_status m \<noteq> 0 \<and>
     written ws i = placed_at (ms_kDstAddr m) (ms_kData m) @ placed_at (ms_vDstAddr m) (ms_vData m))"

definition delivery_inv :: "GroupCtrlMsg set \<Rightarrow> (nat \<times> addr \<times> byte list) list \<Rightarrow> nat \<Rightarrow> WorkerKvDelivery \<Rightarrow> bool" where
  "delivery_inv got ws i d \<longleftrightarrow>
     (\<exists>m \<in> got. ms_reqSeq m = i \<and> ms_status m \<noteq> 0 \<and> dl_kDstAddr d = ms_kDstAddr m \<and> dl_vDstAddr d = ms_vDstAddr m \<and>
        dl_kData d = ms_kData m \<and> dl_vData d = ms_vData m) \<and>
     dl_offset d \<le> length (dl_source d) \<and>
     written ws i = (if dl_writingV d then placed_at (dl_kDstAddr d) (dl_kData d) @ placed_at (dl_vDstAddr d) (take (dl_offset d) (dl_vData d))
                     else placed_at (dl_kDstAddr d) (take (dl_offset d) (dl_kData d)))"

text \<open>Acknowledgements and callbacks come in pairs, at most one per request, none for an open one.\<close>

definition counts_ok :: "gc_effect list \<Rightarrow> nat set \<Rightarrow> nat \<Rightarrow> bool" where
  "counts_ok es open_ids nextId \<longleftrightarrow>
     (\<forall>i. count_if (callback_of i) es = count_if (ack_of i) es \<and> count_if (callback_of i) es \<le> 1 \<and>
        (i \<in> open_ids \<or> nextId \<le> i \<longrightarrow> count_if (callback_of i) es = 0))"

definition gw_inv :: "GroupCtrlMsg set \<Rightarrow> gworker \<Rightarrow> bool" where
  "gw_inv got s \<longleftrightarrow>
     distinct (map fst (gw_callbacks s)) \<and>
     distinct (map fst (gw_deliveries s)) \<and> keys (gw_deliveries s) \<subseteq> keys (gw_callbacks s) \<and>
     (\<forall>i \<in> keys (gw_callbacks s). i < gw_nextKvRequestId s) \<and>
     counts_ok (closing (gw_out s)) (keys (gw_callbacks s)) (gw_nextKvRequestId s) \<and>
     (\<forall>(i, d) \<in> set (gw_deliveries s). delivery_inv got (gw_acked s) i d) \<and>
     (\<forall>i. (i \<in> keys (gw_callbacks s) \<and> i \<notin> keys (gw_deliveries s)) \<or> gw_nextKvRequestId s \<le> i \<longrightarrow> written (gw_acked s) i = []) \<and>
     (\<forall>i. Callback i True \<in> set (closing (gw_out s)) \<longrightarrow> landed got (gw_acked s) i)"

lemma closing_append [simp]: "closing (xs @ ys) = closing xs @ closing ys"
  by (simp add: closing_def)

lemma count_if_append [simp]: "count_if P (xs @ ys) = count_if P xs + count_if P ys"
  by (simp add: count_if_def)

lemma w_emit_frame [simp]:
  "gw_callbacks (w_emit es s) = gw_callbacks s" "gw_deliveries (w_emit es s) = gw_deliveries s"
  "gw_nextKvRequestId (w_emit es s) = gw_nextKvRequestId s" "gw_acked (w_emit es s) = gw_acked s"
  "gw_out (w_emit es s) = gw_out s @ es" "gw_nextTag (w_emit es s) = gw_nextTag s"
  by (simp_all add: w_emit_def)

text \<open>What does not concern the invariant.\<close>

lemma gw_inv_frame:
  assumes "gw_inv got s" "map fst (gw_callbacks s') = map fst (gw_callbacks s)" "gw_deliveries s' = gw_deliveries s"
    "gw_nextKvRequestId s' = gw_nextKvRequestId s" "gw_acked s' = gw_acked s" "closing (gw_out s') = closing (gw_out s)"
  shows "gw_inv got s'"
  using assms(1) unfolding gw_inv_def keys_map assms(2-6) .

lemma gw_inv_put:
  assumes "gw_inv got s" "i \<in> keys (gw_deliveries s)" "delivery_inv got (gw_acked s) i d"
  shows "gw_inv got (s\<lparr>gw_deliveries := put_key i d (gw_deliveries s)\<rparr>)"
proof -
  have "\<forall>(j, e) \<in> set (put_key i d (gw_deliveries s)). delivery_inv got (gw_acked s) j e"
    using assms by (auto simp: gw_inv_def dest!: set_put)
  then show ?thesis using assms(1) by (simp add: gw_inv_def)
qed

lemma delivery_invD: "gw_inv got s \<Longrightarrow> map_of (gw_deliveries s) i = Some d \<Longrightarrow> delivery_inv got (gw_acked s) i d"
  by (auto simp: gw_inv_def dest: map_of_SomeD)

text \<open>A request is closed by an acknowledgement and a callback.\<close>

lemma counts_ok_close:
  assumes co: "counts_ok es ids n" and i: "i \<in> ids" "i < n"
    and ak: "\<And>j. ack_of j a \<longleftrightarrow> j = i" "\<And>j. \<not> callback_of j a"
  shows "counts_ok (es @ [a, Callback i ok]) (ids - {i}) n"
  unfolding counts_ok_def
proof
  fix j
  let ?es = "es @ [a, Callback i ok]"
  have c: "count_if (callback_of j) es = count_if (ack_of j) es" "count_if (callback_of j) es \<le> 1"
    "j \<in> ids \<or> n \<le> j \<Longrightarrow> count_if (callback_of j) es = 0"
    using co unfolding counts_ok_def by blast+
  have new: "count_if (callback_of j) ?es = count_if (callback_of j) es + (if j = i then 1 else 0)"
    "count_if (ack_of j) ?es = count_if (ack_of j) es + (if j = i then 1 else 0)"
    by (simp_all add: count_if_def ak)
  show "count_if (callback_of j) ?es = count_if (ack_of j) ?es \<and> count_if (callback_of j) ?es \<le> 1 \<and>
      (j \<in> ids - {i} \<or> n \<le> j \<longrightarrow> count_if (callback_of j) ?es = 0)"
  proof (cases "j = i")
    case True
    then have "count_if (callback_of j) es = 0" using c(3) i(1) by simp
    with True show ?thesis unfolding new c(1) [symmetric] using i by simp
  next
    case False
    then show ?thesis unfolding new c(1) [symmetric] using c(2,3) by simp
  qed
qed

lemma complete_inv:
  assumes inv: "gw_inv got s" and ok: "ok \<Longrightarrow> landed got (gw_acked s) i"
  shows "gw_inv got (completeWorkerAttentionKvDelivery c True i ok s)"
proof (cases "map_of (gw_callbacks s) i")
  case None
  then have "i \<notin> keys (gw_deliveries s)" using inv map_of_keys(2) [OF None] unfolding gw_inv_def by blast
  then have "remove_key i (gw_deliveries s) = gw_deliveries s"
    by (auto simp: remove_key_def keys_def filter_id_conv)
  then show ?thesis using None inv by (simp add: completeWorkerAttentionKvDelivery_def)
next
  case (Some cb)
  let ?s = "completeWorkerAttentionKvDelivery c True i ok s"
  let ?ack = "SendReq ((worker_message c ATTENTION_KV_ACK)\<lparr>ms_reqSeq := i, ms_generation := cb_generation cb\<rparr>)"
  have ak: "is_ack ?ack" "\<not> is_callback ?ack" "\<And>j. ack_of j ?ack \<longleftrightarrow> j = i" "\<And>j. \<not> callback_of j ?ack"
    by (auto simp: worker_message_def new_msg_def)
  have s: "gw_callbacks ?s = remove_key i (gw_callbacks s)" "gw_deliveries ?s = remove_key i (gw_deliveries s)"
    "gw_nextKvRequestId ?s = gw_nextKvRequestId s" "gw_acked ?s = gw_acked s"
    "closing (gw_out ?s) = closing (gw_out s) @ [?ack, Callback i ok]"
    using Some ak by (simp_all add: completeWorkerAttentionKvDelivery_def sendAttentionKvAck_def closing_def)
  have i: "i \<in> keys (gw_callbacks s)" by (rule map_of_keys(1) [OF Some])
  have co: "counts_ok (closing (gw_out s)) (keys (gw_callbacks s)) (gw_nextKvRequestId s)" "i < gw_nextKvRequestId s"
    using inv i by (auto simp: gw_inv_def)
  have counts: "counts_ok (closing (gw_out ?s)) (keys (gw_callbacks ?s)) (gw_nextKvRequestId ?s)"
    unfolding s keys_remove using ak by (intro counts_ok_close [OF co(1) i co(2)])
  have "written (gw_acked s) j = []" if "j \<in> keys (gw_callbacks ?s) \<and> j \<notin> keys (gw_deliveries ?s) \<or> gw_nextKvRequestId ?s \<le> j" for j
    using inv that by (auto simp: gw_inv_def s)
  moreover have "landed got (gw_acked s) j" if "Callback j True \<in> set (closing (gw_out ?s))" for j
    using inv that ok ak by (auto simp: gw_inv_def s)
  moreover have "\<forall>(j, d) \<in> set (gw_deliveries ?s). delivery_inv got (gw_acked s) j d"
    using inv by (auto simp: gw_inv_def s set_remove)
  ultimately show ?thesis
    using inv counts unfolding gw_inv_def s(1-4) by (auto simp: distinct_remove)
qed

lemma gw_inv_mono:
  assumes "gw_inv got s" "got \<subseteq> got'"
  shows "gw_inv got' s"
proof -
  have "delivery_inv got ws i d \<Longrightarrow> delivery_inv got' ws i d" for ws i d
    using assms(2) unfolding delivery_inv_def by blast
  moreover have "landed got ws i \<Longrightarrow> landed got' ws i" for ws i
    using assms(2) unfolding landed_def by blast
  ultimately show ?thesis using assms(1) unfolding gw_inv_def by blast
qed

lemma delivery_inv_inflight [simp]: "delivery_inv got ws i (d\<lparr>dl_inflight := b\<rparr>) = delivery_inv got ws i d"
  by (simp add: delivery_inv_def dl_source_def)

lemma issue_write_inv:
  assumes inv: "gw_inv got s" "i \<in> keys (gw_deliveries s)" "delivery_inv got (gw_acked s) i d"
  shows "gw_inv got (issue_write maxReq acc i d s)"
proof -
  let ?d = "if acc (gw_nextTag s) then d\<lparr>dl_inflight := True\<rparr> else d"
  have "delivery_inv got (gw_acked s) i ?d" using inv(3) by simp
  then have "gw_inv got (s\<lparr>gw_deliveries := put_key i ?d (gw_deliveries s)\<rparr>)" by (rule gw_inv_put [OF inv(1,2)])
  then show ?thesis by (rule gw_inv_frame) (simp_all add: issue_write_def Let_def closing_def)
qed

text \<open>The K operand is in memory: the delivery goes on with V.\<close>

lemma delivery_inv_turn:
  assumes "delivery_inv got ws i d" "\<not> dl_writingV d" "dl_offset d = length (dl_source d)"
  shows "delivery_inv got ws i (d\<lparr>dl_writingV := True, dl_offset := 0\<rparr>)"
  using assms by (simp add: delivery_inv_def dl_source_def placed_at_def)

lemma delivery_inv_landed:
  assumes "delivery_inv got ws i d" "dl_writingV d" "dl_offset d = length (dl_source d)"
  shows "landed got ws i"
  using assms unfolding delivery_inv_def landed_def by (auto simp: dl_source_def)

lemma turned_state_inv:
  assumes inv: "gw_inv got s" and d: "i \<in> keys (gw_deliveries s)" "delivery_inv got (gw_acked s) i d1"
    and cb: "i \<in> keys (gw_callbacks s)"
  shows "gw_inv got ((if b then s
      else w_emit (if h then [KReady i True] else []) (s\<lparr>gw_callbacks := put_key i cb (gw_callbacks s)\<rparr>))
        \<lparr>gw_deliveries := put_key i d1 (gw_deliveries s)\<rparr>)"
proof -
  let ?s = "s\<lparr>gw_deliveries := put_key i d1 (gw_deliveries s)\<rparr>"
  have "gw_inv got ?s" by (rule gw_inv_put [OF inv d])
  then show ?thesis by (rule gw_inv_frame) (simp_all add: w_emit_def closing_def)
qed

lemma gw_pump_inv:
  assumes inv: "gw_inv got s"
  shows "gw_inv got (pumpWorkerAttentionKvDelivery c True maxReq acc i s)"
proof (cases "map_of (gw_deliveries s) i")
  case None
  then show ?thesis using inv by (simp add: pumpWorkerAttentionKvDelivery_def)
next
  case (Some d)
  note di = delivery_invD [OF inv Some]
  have i: "i \<in> keys (gw_deliveries s)" by (rule map_of_keys(1) [OF Some])
  have pump: "pumpWorkerAttentionKvDelivery c True maxReq acc i s =
     (if dl_inflight d then s
      else if dl_offset d \<noteq> length (dl_source d) then issue_write maxReq acc i d s
      else if dl_writingV d then completeWorkerAttentionKvDelivery c True i True s
      else pumpWorkerAttentionKvDelivery c True maxReq acc i s)"
    by (simp add: pumpWorkerAttentionKvDelivery_def Some)
  consider "dl_inflight d" | "\<not> dl_inflight d" "dl_offset d \<noteq> length (dl_source d)"
    | "\<not> dl_inflight d" "dl_offset d = length (dl_source d)" "dl_writingV d"
    | "\<not> dl_inflight d" "dl_offset d = length (dl_source d)" "\<not> dl_writingV d" by blast
  then show ?thesis
  proof cases
    case 1
    then show ?thesis using pump inv by simp
  next
    case 2
    then show ?thesis using pump issue_write_inv [OF inv i di] by simp
  next
    case 3
    then show ?thesis using pump complete_inv [OF inv] delivery_inv_landed [OF di] by simp
  next
    case 4
    let ?d = "d\<lparr>dl_writingV := True, dl_offset := 0\<rparr>"
    have di': "delivery_inv got (gw_acked s) i ?d" by (rule delivery_inv_turn [OF di 4(3,2)])
    obtain cb where cb: "map_of (gw_callbacks s) i = Some cb"
      using inv i map_of_keys(2) [of "gw_callbacks s" i] unfolding gw_inv_def by fastforce
    let ?s = "(if cb_kReadySent cb then s
      else w_emit (if cb_hasKReady cb then [KReady i True] else [])
             (s\<lparr>gw_callbacks := put_key i (cb\<lparr>cb_kReadySent := True\<rparr>) (gw_callbacks s)\<rparr>))
        \<lparr>gw_deliveries := put_key i ?d (gw_deliveries s)\<rparr>"
    have inv': "gw_inv got ?s" by (rule turned_state_inv [OF inv i di' map_of_keys(1) [OF cb]])
    have eq: "pumpWorkerAttentionKvDelivery c True maxReq acc i s =
       (if dl_vData d \<noteq> [] then issue_write maxReq acc i ?d ?s else completeWorkerAttentionKvDelivery c True i True ?s)"
      using 4 Some cb by (simp add: pumpWorkerAttentionKvDelivery_def Let_def)
    have s: "i \<in> keys (gw_deliveries ?s)" "delivery_inv got (gw_acked ?s) i ?d" using i di' by simp_all
    show ?thesis
    proof (cases "dl_vData d = []")
      case True
      then have "landed got (gw_acked ?s) i" using delivery_inv_landed [OF s(2)] by (simp add: dl_source_def)
      then show ?thesis using True complete_inv [OF inv', of True i c] unfolding eq by simp
    next
      case False
      then show ?thesis using issue_write_inv [OF inv' s] unfolding eq by simp
    qed
  qed
qed

text \<open>A chunk that has been written extends the operand's prefix.\<close>

lemma delivery_inv_chunk:
  assumes inv: "delivery_inv got ws i d"
  shows "delivery_inv got (ws @ [(i, dl_destination d, dl_chunk maxReq d)]) i (d\<lparr>dl_offset := dl_offset d + length (dl_chunk maxReq d)\<rparr>)"
proof -
  let ?n = "min (length (dl_source d) - dl_offset d) maxReq"
  have len: "length (dl_chunk maxReq d) = ?n" by (simp add: dl_chunk_def)
  have le: "dl_offset d \<le> length (dl_source d)" using inv unfolding delivery_inv_def by blast
  have take: "take (dl_offset d + ?n) (dl_source d) = take (dl_offset d) (dl_source d) @ dl_chunk maxReq d"
    by (simp add: take_add dl_chunk_def range_of_def)
  have place: "placed_at a (take (dl_offset d + ?n) (dl_source d)) =
      placed_at a (take (dl_offset d) (dl_source d)) @ placed_at (a + dl_offset d) (dl_chunk maxReq d)" for a
    unfolding take placed_at_append using le by simp
  show ?thesis
  proof (cases "dl_writingV d")
    case True
    then show ?thesis using inv place [of "dl_vDstAddr d"] le unfolding delivery_inv_def len written_append
      by (auto simp: dl_source_def dl_destination_def)
  next
    case False
    then show ?thesis using inv place [of "dl_kDstAddr d"] le unfolding delivery_inv_def len written_append
      by (auto simp: dl_source_def dl_destination_def)
  qed
qed

lemma delivery_inv_other: "j \<noteq> i \<Longrightarrow> delivery_inv got (ws @ [(i, a, bs)]) j d = delivery_inv got ws j d"
  by (simp add: delivery_inv_def written_append)

lemma landed_other: "j \<noteq> i \<Longrightarrow> landed got (ws @ [(i, a, bs)]) j = landed got ws j"
  by (simp add: landed_def written_append)

lemma called_back: "Callback i ok \<in> set es \<Longrightarrow> count_if (callback_of i) es \<noteq> 0"
proof -
  assume "Callback i ok \<in> set es"
  then have "Callback i ok \<in> set (filter (callback_of i) es)" by simp
  then have "filter (callback_of i) es \<noteq> []" by (metis list.set_cases list.discI)
  then show ?thesis by (simp add: count_if_def)
qed

lemma gw_invD:
  assumes "gw_inv got s"
  shows "distinct (map fst (gw_callbacks s))" "distinct (map fst (gw_deliveries s))"
    "keys (gw_deliveries s) \<subseteq> keys (gw_callbacks s)" "i \<in> keys (gw_callbacks s) \<Longrightarrow> i < gw_nextKvRequestId s"
    "counts_ok (closing (gw_out s)) (keys (gw_callbacks s)) (gw_nextKvRequestId s)"
    "(i, d) \<in> set (gw_deliveries s) \<Longrightarrow> delivery_inv got (gw_acked s) i d"
    "(i \<in> keys (gw_callbacks s) \<and> i \<notin> keys (gw_deliveries s)) \<or> gw_nextKvRequestId s \<le> i \<Longrightarrow> written (gw_acked s) i = []"
    "Callback i True \<in> set (closing (gw_out s)) \<Longrightarrow> landed got (gw_acked s) i"
  using assms unfolding gw_inv_def by blast+

lemma counts_okD:
  assumes "counts_ok es ids n"
  shows "count_if (callback_of i) es = count_if (ack_of i) es" "count_if (callback_of i) es \<le> 1"
    "i \<in> ids \<or> n \<le> i \<Longrightarrow> count_if (callback_of i) es = 0"
  using assms unfolding counts_ok_def by blast+

lemma open_not_called:
  assumes "gw_inv got s" "i \<in> keys (gw_callbacks s)"
  shows "Callback i ok \<notin> set (closing (gw_out s))"
proof
  assume "Callback i ok \<in> set (closing (gw_out s))"
  then show False using called_back counts_okD(3) [OF gw_invD(5) [OF assms(1)] disjI1 [OF assms(2)]] by blast
qed

lemma acked_inv:
  assumes inv: "gw_inv got s" and i: "map_of (gw_deliveries s) i = Some d"
  shows "gw_inv got (s\<lparr>gw_deliveries := put_key i (d\<lparr>dl_inflight := b, dl_offset := dl_offset d + length (dl_chunk maxReq d)\<rparr>) (gw_deliveries s),
     gw_acked := gw_acked s @ [(i, dl_destination d, dl_chunk maxReq d)]\<rparr>)" (is "gw_inv got ?s")
proof -
  let ?ws = "gw_acked s @ [(i, dl_destination d, dl_chunk maxReq d)]"
  let ?d = "d\<lparr>dl_offset := dl_offset d + length (dl_chunk maxReq d)\<rparr>"
  have d: "d\<lparr>dl_inflight := b, dl_offset := dl_offset d + length (dl_chunk maxReq d)\<rparr> = ?d\<lparr>dl_inflight := b\<rparr>" by simp
  have k: "i \<in> keys (gw_deliveries s)" by (rule map_of_keys(1) [OF i])
  have k2: "i \<in> keys (gw_callbacks s)" "i < gw_nextKvRequestId s" using inv k unfolding gw_inv_def by blast+
  have new: "delivery_inv got ?ws i (?d\<lparr>dl_inflight := b\<rparr>)"
    using delivery_inv_chunk [OF delivery_invD [OF inv i]] by simp
  have "\<forall>(j, e) \<in> set (gw_deliveries ?s). delivery_inv got ?ws j e"
  proof clarify
    fix j e assume "(j, e) \<in> set (gw_deliveries ?s)"
    then have "(j, e) = (i, ?d\<lparr>dl_inflight := b\<rparr>) \<or> (j, e) \<in> set (gw_deliveries s) \<and> j \<noteq> i"
      unfolding d by (auto dest: set_put)
    then show "delivery_inv got ?ws j e"
    proof
      assume "(j, e) \<in> set (gw_deliveries s) \<and> j \<noteq> i"
      then show ?thesis using gw_invD(6) [OF inv] by (simp add: delivery_inv_other)
    qed (use new in auto)
  qed
  moreover have "written ?ws j = []" if "j \<in> keys (gw_callbacks s) \<and> j \<notin> keys (gw_deliveries s) \<or> gw_nextKvRequestId s \<le> j" for j
  proof -
    have "j \<noteq> i" using that k k2 by auto
    then show ?thesis using gw_invD(7) [OF inv that] by (simp add: written_append)
  qed
  moreover have "landed got ?ws j" if "Callback j True \<in> set (closing (gw_out s))" for j
  proof -
    have "j \<noteq> i" using that open_not_called [OF inv k2(1)] by auto
    then show ?thesis using gw_invD(8) [OF inv that] by (simp add: landed_other)
  qed
  ultimately show ?thesis using inv unfolding gw_inv_def by simp
qed

lemma gw_writeDone_inv:
  assumes inv: "gw_inv got s" and con: "gw_contract maxReq (GwWriteDone i tag a bs ok ctag) s"
  shows "gw_inv got (kv_writeDone c True maxReq acc i tag a bs ok ctag s)"
proof (cases "map_of (gw_deliveries s) i")
  case None
  then show ?thesis using inv by (simp add: kv_writeDone_def)
next
  case (Some d)
  then have eq: "a = dl_destination d" "bs = dl_chunk maxReq d" using con by simp_all
  have idle: "gw_inv got (s\<lparr>gw_deliveries := put_key i (d\<lparr>dl_inflight := False\<rparr>) (gw_deliveries s)\<rparr>)"
    using delivery_invD [OF inv Some] by (intro gw_inv_put [OF inv map_of_keys(1) [OF Some]]) simp
  show ?thesis
    using complete_inv [OF idle, of False] gw_pump_inv [OF acked_inv [OF inv Some]]
    by (simp add: kv_writeDone_def Some eq)
qed

lemma gw_inv_add_delivery:
  assumes inv: "gw_inv got s" and i: "i \<in> keys (gw_callbacks s)" "i \<notin> keys (gw_deliveries s)"
    and d: "delivery_inv got (gw_acked s) i d"
  shows "gw_inv got (s\<lparr>gw_deliveries := gw_deliveries s @ [(i, d)]\<rparr>)"
proof -
  have "keys (gw_deliveries s @ [(i, d)]) = insert i (keys (gw_deliveries s))" by (auto simp: keys_def)
  then show ?thesis using inv i d unfolding gw_inv_def keys_map by auto
qed

lemma handleDelivery_inv:
  assumes inv: "gw_inv got s" and m: "m \<in> got"
  shows "gw_inv got (handleAttentionKvDelivery c True maxReq acc m s)"
proof (cases "map_of (gw_callbacks s) (ms_reqSeq m)")
  case None
  then show ?thesis using inv by (simp add: handleAttentionKvDelivery_def)
next
  case (Some cb)
  let ?i = "ms_reqSeq m"
  let ?bad = "\<not> gc_kvEnable c \<or> gc_role c \<noteq> WORKER \<or> cb_generation cb \<noteq> ms_generation m \<or> ms_status m = 0 \<or>
    ms_kData m = [] \<or> length (ms_kData m) \<noteq> length (ms_vData m)"
  let ?d = "\<lparr>dl_generation = ms_generation m, dl_kDstAddr = ms_kDstAddr m, dl_vDstAddr = ms_vDstAddr m, dl_offset = 0,
     dl_writingV = False, dl_inflight = False, dl_kData = ms_kData m, dl_vData = ms_vData m\<rparr>"
  let ?ds = "if map_of (gw_deliveries s) ?i = None then gw_deliveries s @ [(?i, ?d)] else gw_deliveries s"
  have eq: "handleAttentionKvDelivery c True maxReq acc m s =
     (if ?bad then completeWorkerAttentionKvDelivery c True ?i False s
      else pumpWorkerAttentionKvDelivery c True maxReq acc ?i (s\<lparr>gw_deliveries := ?ds\<rparr>))"
    by (simp add: handleAttentionKvDelivery_def Some Let_def)
  have "gw_inv got (s\<lparr>gw_deliveries := ?ds\<rparr>)" if "ms_status m \<noteq> 0"
  proof (cases "map_of (gw_deliveries s) ?i")
    case None
    have i: "?i \<in> keys (gw_callbacks s)" "?i \<notin> keys (gw_deliveries s)"
      by (rule map_of_keys(1) [OF Some], rule map_of_keys(2) [OF None])
    have "delivery_inv got (gw_acked s) ?i ?d"
      using m that gw_invD(7) [OF inv, of ?i] i by (auto simp: delivery_inv_def placed_at_def)
    then show ?thesis using gw_inv_add_delivery [OF inv i] None by simp
  qed (simp add: inv)
  then show ?thesis unfolding eq using gw_pump_inv complete_inv [OF inv, of False] by simp
qed

lemma request_inv:
  assumes inv: "gw_inv got s"
  shows "gw_inv got (snd (requestAttentionKvPair c True r hc hk s))"
proof (cases "fst (requestAttentionKvPair c True r hc hk s)")
  case False
  then have "snd (requestAttentionKvPair c True r hc hk s) = s"
    by (auto simp: requestAttentionKvPair_def Let_def split: if_splits)
  then show ?thesis using inv by simp
next
  case True
  let ?s = "snd (requestAttentionKvPair c True r hc hk s)"
  let ?n = "gw_nextKvRequestId s"
  have s: "map fst (gw_callbacks ?s) = map fst (gw_callbacks s) @ [?n]" "gw_deliveries ?s = gw_deliveries s"
    "gw_nextKvRequestId ?s = ?n + 1" "gw_acked ?s = gw_acked s" "closing (gw_out ?s) = closing (gw_out s)"
    using True by (auto simp: requestAttentionKvPair_def Let_def worker_message_def new_msg_def fillAttentionKvMessage_def closing_def
        split: if_splits)
  have k: "keys (gw_callbacks ?s) = insert ?n (keys (gw_callbacks s))" unfolding keys_map s(1) by simp
  have fresh: "?n \<notin> set (map fst (gw_callbacks s))" using gw_invD(4) [OF inv, of ?n] by (auto simp: keys_map)
  note co = counts_okD [OF gw_invD(5) [OF inv]]
  have "counts_ok (closing (gw_out s)) (insert ?n (keys (gw_callbacks s))) (?n + 1)"
    unfolding counts_ok_def
  proof (intro allI conjI impI)
    fix i assume "i \<in> insert ?n (keys (gw_callbacks s)) \<or> ?n + 1 \<le> i"
    then show "count_if (callback_of i) (closing (gw_out s)) = 0" by (intro co(3)) auto
  qed (rule co(1), rule co(2))
  moreover have "written (gw_acked s) i = []" if "i \<in> insert ?n (keys (gw_callbacks s)) \<and> i \<notin> keys (gw_deliveries s) \<or> ?n + 1 \<le> i" for i
    using that by (intro gw_invD(7) [OF inv]) auto
  moreover have "i < ?n + 1" if "i \<in> insert ?n (keys (gw_callbacks s))" for i using gw_invD(4) [OF inv] that by fastforce
  moreover have "distinct (map fst (gw_callbacks s) @ [?n])" using fresh gw_invD(1) [OF inv] by simp
  moreover have "keys (gw_deliveries s) \<subseteq> insert ?n (keys (gw_callbacks s))" using gw_invD(3) [OF inv] by blast
  moreover have "\<forall>(i, d) \<in> set (gw_deliveries s). delivery_inv got (gw_acked s) i d" using gw_invD(6) [OF inv] by blast
  ultimately show ?thesis
    unfolding gw_inv_def k s(1-5) using gw_invD(2,8) [OF inv] by blast
qed

lemma gw_cancel_inv:
  assumes inv: "gw_inv got s"
  shows "gw_inv got (snd (cancelAttentionKvGeneration c True g s))"
proof (cases "\<not> gc_kvEnable c \<or> g = 0 \<or> gc_role c \<noteq> WORKER")
  case True
  then show ?thesis using inv by (auto simp: cancelAttentionKvGeneration_def)
next
  case False
  let ?s = "snd (cancelAttentionKvGeneration c True g s)"
  let ?gone = "map fst (filter (\<lambda>x. cb_generation (snd x) = g) (gw_callbacks s))"
  have s: "gw_callbacks ?s = filter (\<lambda>x. cb_generation (snd x) \<noteq> g) (gw_callbacks s)"
    "gw_deliveries ?s = filter (\<lambda>x. fst x \<notin> set ?gone) (gw_deliveries s)" "gw_nextKvRequestId ?s = gw_nextKvRequestId s"
    "gw_acked ?s = gw_acked s" "closing (gw_out ?s) = closing (gw_out s)"
    using False by (auto simp: cancelAttentionKvGeneration_def Let_def worker_message_def new_msg_def closing_def)
  have k: "keys (gw_callbacks ?s) = keys (gw_callbacks s) - set ?gone"
    unfolding s using filter_keys [OF gw_invD(1) [OF inv], of "\<lambda>v. cb_generation v \<noteq> g"] by simp
  have kd: "keys (gw_deliveries ?s) = keys (gw_deliveries s) - set ?gone" unfolding s by (auto simp: keys_def)
  note co = counts_okD [OF gw_invD(5) [OF inv]]
  have "counts_ok (closing (gw_out s)) (keys (gw_callbacks s) - set ?gone) (gw_nextKvRequestId s)"
    unfolding counts_ok_def
  proof (intro allI conjI impI)
    fix i assume "i \<in> keys (gw_callbacks s) - set ?gone \<or> gw_nextKvRequestId s \<le> i"
    then show "count_if (callback_of i) (closing (gw_out s)) = 0" by (intro co(3)) auto
  qed (rule co(1), rule co(2))
  moreover have "written (gw_acked s) i = []"
    if "i \<in> keys (gw_callbacks s) - set ?gone \<and> i \<notin> keys (gw_deliveries s) - set ?gone \<or> gw_nextKvRequestId s \<le> i" for i
    using that by (intro gw_invD(7) [OF inv]) auto
  moreover have "distinct (map fst (gw_callbacks ?s))" "distinct (map fst (gw_deliveries ?s))"
    unfolding s(1,2) using gw_invD(1,2) [OF inv] by (simp_all add: distinct_map_filter)
  moreover have "\<forall>(i, d) \<in> set (gw_deliveries ?s). delivery_inv got (gw_acked s) i d"
    unfolding s(2) using gw_invD(6) [OF inv] by auto
  ultimately show ?thesis
    unfolding gw_inv_def k kd s(3-5) using gw_invD(3,4,8) [OF inv] by blast
qed

lemma gw_tick_inv:
  assumes "gw_inv got s"
  shows "gw_inv got (fold (pumpWorkerAttentionKvDelivery c True maxReq acc) is s)"
  using assms by (induction "is" arbitrary: s) (simp_all add: gw_pump_inv)

definition delivered_messages :: "gw_op list \<Rightarrow> GroupCtrlMsg set" where
  "delivered_messages xs = {m. GwDelivery m \<in> set xs}"

lemma gw_run_inv: "gw_run c maxReq acc xs s \<Longrightarrow> gw_inv (delivered_messages xs) s"
proof (induction rule: gw_run.induct)
  case gw_run_init
  show ?case by (simp add: gw_inv_def new_gworker_def keys_def closing_def counts_ok_def count_if_def written_def)
next
  case (gw_run_step xs s x)
  have inv: "gw_inv (delivered_messages (xs @ [x])) s"
    by (rule gw_inv_mono [OF gw_run_step.IH]) (auto simp: delivered_messages_def)
  show ?case
  proof (cases x)
    case (GwDelivery m)
    then have "m \<in> delivered_messages (xs @ [x])" by (simp add: delivered_messages_def)
    then show ?thesis using handleDelivery_inv [OF inv] GwDelivery by simp
  next
    case (GwWriteDone i tag a bs ok ctag)
    then show ?thesis using gw_writeDone_inv [OF inv] gw_run_step.hyps(2) by simp
  qed (use inv in \<open>simp_all add: request_inv gw_cancel_inv gw_tick_inv kv_worker_tick_def del: fold_simps\<close>)
qed

section \<open>What a worker's client observes\<close>

lemma count_closing [simp]:
  "count_if (callback_of i) (closing es) = count_if (callback_of i) es"
  "count_if (ack_of i) (closing es) = count_if (ack_of i) es"
proof -
  have "callback_of i e \<Longrightarrow> is_callback e" "ack_of i e \<Longrightarrow> is_ack e" for e by (cases e; simp)+
  then show "count_if (callback_of i) (closing es) = count_if (callback_of i) es"
    "count_if (ack_of i) (closing es) = count_if (ack_of i) es"
    by (auto simp: count_if_def closing_def intro!: arg_cong [where f = length] filter_cong)
qed


text \<open>A request, its delivery of two bytes per operand, and the two writes that it takes.\<close>

definition demo_kv_request :: AttentionKvRequest where
  "demo_kv_request = (attentionKvRequestFromMessage (new_msg ATTENTION_KV_REQUEST))\<lparr>rq_generation := 3, rq_tileRows := 1,
     rq_rowsPerBand := 1, rq_headDim := 2, rq_kvTileRows := 1, rq_kDstAddr := 64, rq_vDstAddr := 128\<rparr>"

definition demo_delivery :: GroupCtrlMsg where
  "demo_delivery = (new_msg ATTENTION_KV_DELIVERY)\<lparr>ms_reqSeq := 1, ms_generation := 3, ms_status := 1, ms_kDstAddr := 64,
     ms_vDstAddr := 128, ms_kData := [10, 11], ms_vData := [20, 21]\<rparr>"

definition demo_ops :: "gw_op list" where
  "demo_ops = [GwRequest demo_kv_request True True, GwDelivery demo_delivery, GwWriteDone 1 1 64 [10, 11] True 1,
     GwWriteDone 1 2 128 [20, 21] True 2]"

definition demo_worker :: gworker where
  "demo_worker = foldl (\<lambda>s x. gw_step (demo_config WORKER) 64 (\<lambda>_. True) x s) new_gworker demo_ops"

fun contracts_hold :: "gc_config \<Rightarrow> nat \<Rightarrow> (nat \<Rightarrow> bool) \<Rightarrow> gw_op list \<Rightarrow> gworker \<Rightarrow> bool" where
  "contracts_hold c maxReq acc [] s = True"
| "contracts_hold c maxReq acc (x # xs) s = (gw_contract maxReq x s \<and> contracts_hold c maxReq acc xs (gw_step c maxReq acc x s))"

lemma gw_run_foldl:
  assumes "gw_run c maxReq acc ys s" "contracts_hold c maxReq acc xs s"
  shows "gw_run c maxReq acc (ys @ xs) (foldl (\<lambda>s x. gw_step c maxReq acc x s) s xs)"
  using assms
proof (induction xs arbitrary: ys s)
  case (Cons x xs)
  then show ?case using Cons.IH [of "ys @ [x]" "gw_step c maxReq acc x s"] by (auto intro: gw_run_step)
qed simp

lemmas worker_defs = requestAttentionKvPair_def request_refused_def request_bytes_def handleAttentionKvDelivery_def
  pumpWorkerAttentionKvDelivery_def kv_writeDone_def issue_write_def completeWorkerAttentionKvDelivery_def
  sendAttentionKvAck_def dl_source_def dl_destination_def dl_chunk_def range_of_def put_key_def remove_key_def w_emit_def
  worker_message_def fillAttentionKvMessage_def u64_def

lemmas demo_defs = demo_config_def demo_kv_request_def demo_delivery_def demo_ops_def new_gworker_def new_msg_def
  attentionKvRequestFromMessage_def


end
