(* ===== verification/Group_Ctrl.thy ===== *)
theory Group_Ctrl
  imports Group_Schedule Group_Kv_Delivery Group_Kv_Worker
begin

text \<open>
  \<^verbatim>\<open>golem/groupctrl/groupctrl.cc\<close>, the endpoint as a whole: the message handlers of the manager
  (\<open>handleReq\<close>) and of the worker (\<open>handleRsp\<close>), and \<open>tick\<close>, in which a worker polls the control
  mailbox that the software writes and turns it into REQUEST, DONE and FINISHED messages.

  The second half is the contract of the mailbox: an abstract machine over its fields, which the
  worker's half of \<open>tick\<close> and \<open>handleRsp\<close> refine, and the grant protocol that follows from it.
  An endpoint is modelled with its memory bound.
\<close>

section \<open>The endpoint\<close>

record endpoint =
  ep_sched :: gsched
  ep_kvm :: kvm
  ep_worker :: gworker
  ep_store :: gm_store
  ep_localGrantSeq :: nat
  ep_localGrantWindow :: nat
  ep_localGroupDone :: bool
  ep_localReqSeqSeen :: nat
  ep_localDoneSeqSeen :: nat
  ep_localFinishedSeen :: bool
  ep_out :: "gc_effect list"

definition new_endpoint :: "gc_config \<Rightarrow> gm_store \<Rightarrow> endpoint" where
  "new_endpoint c st = \<lparr>ep_sched = new_gsched c, ep_kvm = new_kvm c, ep_worker = new_gworker, ep_store = st,
     ep_localGrantSeq = 0, ep_localGrantWindow = 0, ep_localGroupDone = False, ep_localReqSeqSeen = 0,
     ep_localDoneSeqSeen = 0, ep_localFinishedSeen = False, ep_out = []\<rparr>"

text \<open>\<open>setup\<close>: the links of the role must be connected, then the checks of the parameters.\<close>

definition setup_links :: "gc_config \<Rightarrow> bool \<Rightarrow> bool \<Rightarrow> bool list \<Rightarrow> bool list \<Rightarrow> golem_error + unit" where
  "setup_links c reqOut rspIn reqIn rspOut =
    (if gc_role c = WORKER then
       (if \<not> reqOut then Inl (RuntimeError ''worker missing required req_out link'')
        else if \<not> rspIn then Inl (RuntimeError ''worker missing required rsp_in link'')
        else Inr ())
     else case find (\<lambda>slot. \<not> reqIn ! slot \<or> \<not> rspOut ! slot) [0..<length reqIn] of
            None \<Rightarrow> Inr ()
          | Some slot \<Rightarrow> if \<not> reqIn ! slot then Inl (RuntimeError ''manager missing required req_in link'')
                         else Inl (RuntimeError ''manager missing required rsp_out link''))"

definition setup_endpoint :: "gc_config \<Rightarrow> bool \<Rightarrow> bool \<Rightarrow> bool list \<Rightarrow> bool list \<Rightarrow> bool \<Rightarrow> golem_error + unit" where
  "setup_endpoint c reqOut rspIn reqIn rspOut hasGm =
    bindE (setup_links c reqOut rspIn reqIn rspOut) (\<lambda>_. setup_checks c hasGm)"

text \<open>A component's operation as one of the endpoint: its new effects are the endpoint's.\<close>

definition with_sched :: "gc_effect list \<times> gsched \<Rightarrow> endpoint \<Rightarrow> endpoint" where
  "with_sched r s = s\<lparr>ep_sched := snd r, ep_out := ep_out s @ fst r\<rparr>"

definition with_kvm :: "kvm \<Rightarrow> endpoint \<Rightarrow> endpoint" where
  "with_kvm k s = s\<lparr>ep_kvm := k, ep_out := ep_out s @ drop (length (kv_out (ep_kvm s))) (kv_out k)\<rparr>"

definition with_worker :: "gworker \<Rightarrow> endpoint \<Rightarrow> endpoint" where
  "with_worker w s = s\<lparr>ep_worker := w, ep_out := ep_out s @ drop (length (gw_out (ep_worker s))) (gw_out w)\<rparr>"

definition handleReq :: "gc_config \<Rightarrow> GroupCtrlMsg \<Rightarrow> nat \<Rightarrow> endpoint \<Rightarrow> golem_error + endpoint" where
  "handleReq c m slot s =
    (if slot \<ge> length (sc_workers (ep_sched s)) then Inl (RuntimeError ''invalid manager slot'')
     else case ms_type m of
       ATTENTION_KV_REQUEST \<Rightarrow> bindE (handleAttentionKvRequest c m slot (ep_kvm s)) (\<lambda>k. Inr (with_kvm k s))
     | ATTENTION_KV_ACK \<Rightarrow> bindE (handleAttentionKvAck c m slot (ep_kvm s)) (\<lambda>k. Inr (with_kvm k s))
     | ATTENTION_KV_CANCEL \<Rightarrow> bindE (handleAttentionKvCancel c m slot (ep_kvm s)) (\<lambda>k. Inr (with_kvm k s))
     | REQUEST \<Rightarrow> Inr (with_sched (handle_request c m slot (ep_sched s)) s)
     | DONE \<Rightarrow> Inr (with_sched (handle_done c m slot (ep_sched s)) s)
     | FINISHED \<Rightarrow> Inr (with_sched (handle_finished c slot (ep_sched s)) s)
     | _ \<Rightarrow> Inr s)"

definition handleRsp :: "gc_config \<Rightarrow> bool \<Rightarrow> nat \<Rightarrow> (nat \<Rightarrow> bool) \<Rightarrow> GroupCtrlMsg \<Rightarrow> endpoint \<Rightarrow> golem_error + endpoint" where
  "handleRsp c connected maxReq acc m s =
    (case ms_type m of
       ATTENTION_KV_DELIVERY \<Rightarrow> Inr (with_worker (handleAttentionKvDelivery c connected maxReq acc m (ep_worker s)) s)
     | GRANT \<Rightarrow>
         bindE (writeMailboxU32 c CTRL_LOCAL_GRANT_SEQ_OFF (of_nat (ms_reqSeq m)) (ep_store s)) (\<lambda>st.
         bindE (writeMailboxU32 c CTRL_LOCAL_GRANT_WINDOW_OFF (of_nat (ms_window m)) st) (\<lambda>st'.
           Inr (s\<lparr>ep_localGrantSeq := ms_reqSeq m, ep_localGrantWindow := ms_window m, ep_store := st'\<rparr>)))
     | GROUP_DONE \<Rightarrow>
         bindE (writeMailboxU32 c CTRL_LOCAL_GROUP_DONE_OFF 1 (ep_store s)) (\<lambda>st.
           Inr (s\<lparr>ep_localGroupDone := True, ep_store := st\<rparr>))
     | _ \<Rightarrow> Inr s)"

text \<open>The three mailbox polls of a worker's \<open>tick\<close>.\<close>

definition poll_request :: "gc_config \<Rightarrow> bool \<Rightarrow> endpoint \<Rightarrow> golem_error + endpoint" where
  "poll_request c connected s =
    (let st = ep_store s in
     bindE (readMailboxU32 c CTRL_LOCAL_REQ_VALID_OFF st) (\<lambda>reqValid.
     bindE (readMailboxU32 c CTRL_LOCAL_REQ_SEQ_OFF st) (\<lambda>reqSeq.
       if reqValid \<noteq> 0 \<and> unat reqSeq > ep_localReqSeqSeen s then
         bindE (readMailbox c CTRL_LOCAL_REQ_SRC_OFF st) (\<lambda>src.
         bindE (readMailbox c CTRL_LOCAL_REQ_DST_OFF st) (\<lambda>dst.
         bindE (readMailbox c CTRL_LOCAL_REQ_BYTES_OFF st) (\<lambda>bytes.
         bindE (readMailbox c CTRL_LOCAL_REQ_NODE_OFF st) (\<lambda>node.
         bindE (readMailbox c CTRL_LOCAL_REQ_WINDOW_OFF st) (\<lambda>window.
           if connected then
             bindE (writeMailboxU32 c CTRL_LOCAL_REQ_VALID_OFF 0 st) (\<lambda>st'.
               Inr (s\<lparr>ep_store := st', ep_localReqSeqSeen := unat reqSeq,
                      ep_out := ep_out s @ [SendReq ((worker_message c REQUEST)\<lparr>ms_reqSeq := unat reqSeq,
                        ms_srcAddr := unat src, ms_dstAddr := unat dst, ms_bytes := unat bytes mod 2 ^ 32,
                        ms_targetNode := unat node mod 2 ^ 16, ms_window := unat window mod 2 ^ 8\<rparr>)]\<rparr>))
           else Inl (RuntimeError ''req_out link missing while sending REQUEST''))))))
       else Inr s)))"

definition poll_done :: "gc_config \<Rightarrow> bool \<Rightarrow> endpoint \<Rightarrow> golem_error + endpoint" where
  "poll_done c connected s =
    (let st = ep_store s in
     bindE (readMailboxU32 c CTRL_LOCAL_DONE_VALID_OFF st) (\<lambda>doneValid.
     bindE (readMailboxU32 c CTRL_LOCAL_DONE_SEQ_OFF st) (\<lambda>doneSeq.
       if doneValid \<noteq> 0 \<and> unat doneSeq > ep_localDoneSeqSeen s then
         bindE (readMailbox c CTRL_LOCAL_REQ_NODE_OFF st) (\<lambda>node.
           if connected then
             bindE (writeMailboxU32 c CTRL_LOCAL_DONE_VALID_OFF 0 st) (\<lambda>st'.
               Inr (s\<lparr>ep_store := st', ep_localDoneSeqSeen := unat doneSeq,
                      ep_out := ep_out s @ [SendReq ((worker_message c DONE)\<lparr>ms_reqSeq := unat doneSeq,
                        ms_targetNode := unat node mod 2 ^ 16\<rparr>)]\<rparr>))
           else Inl (RuntimeError ''req_out link missing while sending DONE''))
       else Inr s)))"

definition poll_finished :: "gc_config \<Rightarrow> bool \<Rightarrow> endpoint \<Rightarrow> golem_error + endpoint" where
  "poll_finished c connected s =
    bindE (readMailbox c CTRL_LOCAL_FINISHED_OFF (ep_store s)) (\<lambda>finished.
      if finished \<noteq> 0 \<and> \<not> ep_localFinishedSeen s then
        if connected then
          bindE (writeMailbox c CTRL_LOCAL_FINISHED_OFF 0 (ep_store s)) (\<lambda>st'.
            Inr (s\<lparr>ep_store := st', ep_localFinishedSeen := True,
                   ep_out := ep_out s @ [SendReq (worker_message c FINISHED)]\<rparr>))
        else Inl (RuntimeError ''req_out link missing while sending FINISHED'')
      else Inr s)"

definition tick_worker :: "gc_config \<Rightarrow> bool \<Rightarrow> nat \<Rightarrow> (nat \<Rightarrow> bool) \<Rightarrow> endpoint \<Rightarrow> golem_error + endpoint" where
  "tick_worker c connected maxReq acc s =
    bindE (poll_request c connected (with_worker (kv_worker_tick c connected maxReq acc (ep_worker s)) s)) (\<lambda>s1.
    bindE (poll_done c connected s1) (poll_finished c connected))"

definition tick :: "gc_config \<Rightarrow> bool \<Rightarrow> nat \<Rightarrow> (nat \<Rightarrow> bool) \<Rightarrow> endpoint \<Rightarrow> golem_error + endpoint" where
  "tick c connected maxReq acc s =
    (if gc_role c = WORKER then tick_worker c connected maxReq acc s
     else if gc_kvEnable c then Inr (with_kvm (kv_manager_tick c maxReq acc (ep_kvm s)) s)
     else Inr s)"

section \<open>The mailbox as an abstract machine\<close>

record mailbox =
  mb_reqSeq :: nat
  mb_reqValid :: bool
  mb_reqSrc :: nat
  mb_reqDst :: nat
  mb_reqBytes :: nat
  mb_reqNode :: nat
  mb_reqWindow :: nat
  mb_doneSeq :: nat
  mb_doneValid :: bool
  mb_finished :: bool
  mb_grantSeq :: nat
  mb_grantWindow :: nat
  mb_groupDone :: bool

record worker_view =
  wv_mail :: mailbox
  wv_reqSeen :: nat
  wv_doneSeen :: nat
  wv_finishedSeen :: bool
  wv_sent :: "GroupCtrlMsg list"

definition spec_request :: "gc_config \<Rightarrow> worker_view \<Rightarrow> worker_view" where
  "spec_request c v =
    (let mb = wv_mail v
     in if mb_reqValid mb \<and> mb_reqSeq mb > wv_reqSeen v
        then v\<lparr>wv_mail := mb\<lparr>mb_reqValid := False\<rparr>, wv_reqSeen := mb_reqSeq mb,
               wv_sent := wv_sent v @ [(worker_message c REQUEST)\<lparr>ms_reqSeq := mb_reqSeq mb, ms_srcAddr := mb_reqSrc mb,
                 ms_dstAddr := mb_reqDst mb, ms_bytes := mb_reqBytes mb mod 2 ^ 32, ms_targetNode := mb_reqNode mb mod 2 ^ 16,
                 ms_window := mb_reqWindow mb mod 2 ^ 8\<rparr>]\<rparr>
        else v)"

definition spec_done :: "gc_config \<Rightarrow> worker_view \<Rightarrow> worker_view" where
  "spec_done c v =
    (let mb = wv_mail v
     in if mb_doneValid mb \<and> mb_doneSeq mb > wv_doneSeen v
        then v\<lparr>wv_mail := mb\<lparr>mb_doneValid := False\<rparr>, wv_doneSeen := mb_doneSeq mb,
               wv_sent := wv_sent v @ [(worker_message c DONE)\<lparr>ms_reqSeq := mb_doneSeq mb,
                 ms_targetNode := mb_reqNode mb mod 2 ^ 16\<rparr>]\<rparr>
        else v)"

definition spec_finished :: "gc_config \<Rightarrow> worker_view \<Rightarrow> worker_view" where
  "spec_finished c v =
    (if mb_finished (wv_mail v) \<and> \<not> wv_finishedSeen v
     then v\<lparr>wv_mail := (wv_mail v)\<lparr>mb_finished := False\<rparr>, wv_finishedSeen := True,
            wv_sent := wv_sent v @ [worker_message c FINISHED]\<rparr>
     else v)"

definition spec_tick :: "gc_config \<Rightarrow> worker_view \<Rightarrow> worker_view" where
  "spec_tick c v = spec_finished c (spec_done c (spec_request c v))"

fun spec_rsp :: "GroupCtrlMsg \<Rightarrow> mailbox \<Rightarrow> mailbox" where
  "spec_rsp m mb =
    (case ms_type m of
       GRANT \<Rightarrow> mb\<lparr>mb_grantSeq := ms_reqSeq m mod 2 ^ 32, mb_grantWindow := ms_window m mod 2 ^ 32\<rparr>
     | GROUP_DONE \<Rightarrow> mb\<lparr>mb_groupDone := True\<rparr>
     | _ \<Rightarrow> mb)"

text \<open>The abstraction: the fields of the byte store, and the control messages among the effects.\<close>

definition word_at :: "gc_config \<Rightarrow> gm_store \<Rightarrow> nat \<Rightarrow> 64 word" where
  "word_at c st off = (case readMailbox c off st of Inr v \<Rightarrow> v | Inl _ \<Rightarrow> 0)"

definition half_at :: "gc_config \<Rightarrow> gm_store \<Rightarrow> nat \<Rightarrow> 32 word" where
  "half_at c st off = ucast (word_at c st off AND 0xffffffff)"

definition abs_mailbox :: "gc_config \<Rightarrow> gm_store \<Rightarrow> mailbox" where
  "abs_mailbox c st = \<lparr>mb_reqSeq = unat (half_at c st CTRL_LOCAL_REQ_SEQ_OFF), mb_reqValid = (half_at c st CTRL_LOCAL_REQ_VALID_OFF \<noteq> 0),
     mb_reqSrc = unat (word_at c st CTRL_LOCAL_REQ_SRC_OFF), mb_reqDst = unat (word_at c st CTRL_LOCAL_REQ_DST_OFF),
     mb_reqBytes = unat (word_at c st CTRL_LOCAL_REQ_BYTES_OFF), mb_reqNode = unat (word_at c st CTRL_LOCAL_REQ_NODE_OFF),
     mb_reqWindow = unat (word_at c st CTRL_LOCAL_REQ_WINDOW_OFF),
     mb_doneSeq = unat (half_at c st CTRL_LOCAL_DONE_SEQ_OFF), mb_doneValid = (half_at c st CTRL_LOCAL_DONE_VALID_OFF \<noteq> 0),
     mb_finished = (word_at c st CTRL_LOCAL_FINISHED_OFF \<noteq> 0),
     mb_grantSeq = unat (half_at c st CTRL_LOCAL_GRANT_SEQ_OFF), mb_grantWindow = unat (half_at c st CTRL_LOCAL_GRANT_WINDOW_OFF),
     mb_groupDone = (half_at c st CTRL_LOCAL_GROUP_DONE_OFF \<noteq> 0)\<rparr>"

fun control_message :: "gc_effect \<Rightarrow> GroupCtrlMsg option" where
  "control_message (SendReq m) = (if ms_type m \<in> {REQUEST, DONE, FINISHED} then Some m else None)"
| "control_message _ = None"

definition abs_view :: "gc_config \<Rightarrow> endpoint \<Rightarrow> worker_view" where
  "abs_view c s = \<lparr>wv_mail = abs_mailbox c (ep_store s), wv_reqSeen = ep_localReqSeqSeen s, wv_doneSeen = ep_localDoneSeqSeen s,
     wv_finishedSeen = ep_localFinishedSeen s, wv_sent = List.map_filter control_message (ep_out s)\<rparr>"

text \<open>The mailbox page lies in the memory.\<close>

definition mailbox_inside :: "gc_config \<Rightarrow> gm_store \<Rightarrow> bool" where
  "mailbox_inside c st \<longleftrightarrow> gs_base st \<le> mailboxAddr c 0 \<and> mailboxAddr c 0x68 \<le> gs_base st + length (gs_bytes st)"

section \<open>Refinement\<close>

lemmas offsets = CTRL_LOCAL_REQ_SEQ_OFF_def CTRL_LOCAL_REQ_VALID_OFF_def CTRL_LOCAL_GRANT_SEQ_OFF_def
  CTRL_LOCAL_GRANT_WINDOW_OFF_def CTRL_LOCAL_DONE_SEQ_OFF_def CTRL_LOCAL_DONE_VALID_OFF_def CTRL_LOCAL_FINISHED_OFF_def
  CTRL_LOCAL_GROUP_DONE_OFF_def CTRL_LOCAL_REQ_SRC_OFF_def CTRL_LOCAL_REQ_DST_OFF_def CTRL_LOCAL_REQ_BYTES_OFF_def
  CTRL_LOCAL_REQ_NODE_OFF_def CTRL_LOCAL_REQ_WINDOW_OFF_def

definition cell :: "nat \<Rightarrow> bool" where
  "cell off \<longleftrightarrow> off mod 8 = 0 \<and> off < 0x68"

lemma cells [simp]:
  "cell CTRL_LOCAL_REQ_SEQ_OFF" "cell CTRL_LOCAL_REQ_VALID_OFF" "cell CTRL_LOCAL_GRANT_SEQ_OFF" "cell CTRL_LOCAL_GRANT_WINDOW_OFF"
  "cell CTRL_LOCAL_DONE_SEQ_OFF" "cell CTRL_LOCAL_DONE_VALID_OFF" "cell CTRL_LOCAL_FINISHED_OFF" "cell CTRL_LOCAL_GROUP_DONE_OFF"
  "cell CTRL_LOCAL_REQ_SRC_OFF" "cell CTRL_LOCAL_REQ_DST_OFF" "cell CTRL_LOCAL_REQ_BYTES_OFF" "cell CTRL_LOCAL_REQ_NODE_OFF"
  "cell CTRL_LOCAL_REQ_WINDOW_OFF"
  by (simp_all add: cell_def offsets)

lemma cell_in_store: "mailbox_inside c st \<Longrightarrow> cell off \<Longrightarrow> in_store (mailboxAddr c off) st"
  unfolding mailbox_inside_def cell_def in_store_def mailboxAddr_def by presburger

lemma read_cell [simp]:
  assumes "mailbox_inside c st" "cell off"
  shows "readMailbox c off st = Inr (word_at c st off)" "readMailboxU32 c off st = Inr (half_at c st off)"
proof -
  from read_u64_ok [OF cell_in_store [OF assms]] show r: "readMailbox c off st = Inr (word_at c st off)"
    by (auto simp: readMailbox_def word_at_def)
  then show "readMailboxU32 c off st = Inr (half_at c st off)" by (simp add: readMailboxU32_def half_at_def)
qed

lemma word_at_eq: "readMailbox c off st' = readMailbox c off st \<Longrightarrow> word_at c st' off = word_at c st off"
  by (simp add: word_at_def)

lemma write_cell:
  assumes "mailbox_inside c st" "cell off"
  obtains st' where "writeMailbox c off v st = Inr st'" "mailbox_inside c st'" "word_at c st' off = v"
    "\<And>off2. cell off2 \<Longrightarrow> off2 \<noteq> off \<Longrightarrow> word_at c st' off2 = word_at c st off2"
proof -
  note i = cell_in_store [OF assms]
  obtain st' where w: "writeMailbox c off v st = Inr st'" and st': "st' = st\<lparr>gs_bytes := put_range (mailboxAddr c off - gs_base st) (le_bytes 8 v) (gs_bytes st)\<rparr>"
    using write_u64_ok [OF i] by (auto simp: writeMailbox_def)
  have "mailbox_inside c st'" using assms(1) by (simp add: mailbox_inside_def st')
  moreover have "word_at c st' off = v"
    using read_write_u64 [OF w [unfolded writeMailbox_def]] by (simp add: word_at_def readMailbox_def)
  moreover have "word_at c st' off2 = word_at c st off2" if "cell off2" "off2 \<noteq> off" for off2
  proof (rule word_at_eq)
    have "mailboxAddr c off2 + 8 \<le> mailboxAddr c off \<or> mailboxAddr c off + 8 \<le> mailboxAddr c off2"
      using that assms(2) unfolding cell_def mailboxAddr_def by presburger
    then show "readMailbox c off2 st' = readMailbox c off2 st"
      using read_write_u64_other [OF w [unfolded writeMailbox_def]] by (simp add: readMailbox_def)
  qed
  ultimately show ?thesis using that w by blast
qed

lemma write_half:
  assumes "mailbox_inside c st" "cell off"
  obtains st' where "writeMailboxU32 c off v st = Inr st'" "mailbox_inside c st'" "half_at c st' off = v"
    "\<And>off2. cell off2 \<Longrightarrow> off2 \<noteq> off \<Longrightarrow> word_at c st' off2 = word_at c st off2"
proof -
  have m: "off mod 8 = 0" using assms(2) by (simp add: cell_def)
  let ?new = "(word_at c st off AND NOT 0xffffffff) OR ucast v"
  obtain st' where w: "writeMailbox c off ?new st = Inr st'" "mailbox_inside c st'"
    "\<And>off2. cell off2 \<Longrightarrow> off2 \<noteq> off \<Longrightarrow> word_at c st' off2 = word_at c st off2"
    using write_cell [OF assms] by metis
  have w32: "writeMailboxU32 c off v st = Inr st'" using w(1) m assms by (simp add: writeMailboxU32_def Let_def)
  moreover have "half_at c st' off = v"
    using writeMailboxU32_reads(1) [OF m w32] w(2) assms(2) by simp
  ultimately show ?thesis using that w by blast
qed

text \<open>The abstract mailbox after a write to one of its cells.\<close>

lemma half_at_cong: "word_at c st' off = word_at c st off \<Longrightarrow> half_at c st' off = half_at c st off"
  by (simp add: half_at_def)

lemma abs_write:
  assumes "\<And>off2. cell off2 \<Longrightarrow> off2 \<noteq> off \<Longrightarrow> word_at c st' off2 = word_at c st off2"
  shows "off = CTRL_LOCAL_REQ_VALID_OFF \<Longrightarrow>
      abs_mailbox c st' = (abs_mailbox c st)\<lparr>mb_reqValid := half_at c st' off \<noteq> 0\<rparr>"
    "off = CTRL_LOCAL_DONE_VALID_OFF \<Longrightarrow>
      abs_mailbox c st' = (abs_mailbox c st)\<lparr>mb_doneValid := half_at c st' off \<noteq> 0\<rparr>"
    "off = CTRL_LOCAL_FINISHED_OFF \<Longrightarrow>
      abs_mailbox c st' = (abs_mailbox c st)\<lparr>mb_finished := word_at c st' off \<noteq> 0\<rparr>"
    "off = CTRL_LOCAL_GRANT_SEQ_OFF \<Longrightarrow>
      abs_mailbox c st' = (abs_mailbox c st)\<lparr>mb_grantSeq := unat (half_at c st' off)\<rparr>"
    "off = CTRL_LOCAL_GRANT_WINDOW_OFF \<Longrightarrow>
      abs_mailbox c st' = (abs_mailbox c st)\<lparr>mb_grantWindow := unat (half_at c st' off)\<rparr>"
    "off = CTRL_LOCAL_GROUP_DONE_OFF \<Longrightarrow>
      abs_mailbox c st' = (abs_mailbox c st)\<lparr>mb_groupDone := half_at c st' off \<noteq> 0\<rparr>"
  using assms [OF cells(1)] assms [OF cells(2)] assms [OF cells(3)] assms [OF cells(4)] assms [OF cells(5)]
    assms [OF cells(6)] assms [OF cells(7)] assms [OF cells(8)] assms [OF cells(9)] assms [OF cells(10)]
    assms [OF cells(11)] assms [OF cells(12)] assms [OF cells(13)]
  by (simp_all add: abs_mailbox_def offsets half_at_def)

lemma map_filter_append [simp]: "List.map_filter f (xs @ ys) = List.map_filter f xs @ List.map_filter f ys"
  by (simp add: List.map_filter_def)

lemma worker_message_type [simp]: "ms_type (worker_message c t) = t"
  by (simp add: worker_message_def new_msg_def)

lemma poll_request_refines:
  assumes "mailbox_inside c (ep_store s)"
  shows "\<exists>s'. poll_request c True s = Inr s' \<and> mailbox_inside c (ep_store s') \<and> abs_view c s' = spec_request c (abs_view c s)"
proof (cases "half_at c (ep_store s) CTRL_LOCAL_REQ_VALID_OFF \<noteq> 0 \<and>
    unat (half_at c (ep_store s) CTRL_LOCAL_REQ_SEQ_OFF) > ep_localReqSeqSeen s")
  case True
  obtain st' where w: "writeMailboxU32 c CTRL_LOCAL_REQ_VALID_OFF 0 (ep_store s) = Inr st'" "mailbox_inside c st'"
    "half_at c st' CTRL_LOCAL_REQ_VALID_OFF = 0"
    "\<And>off2. cell off2 \<Longrightarrow> off2 \<noteq> CTRL_LOCAL_REQ_VALID_OFF \<Longrightarrow> word_at c st' off2 = word_at c (ep_store s) off2"
    using write_half [OF assms cells(2), of 0] by metis
  have a: "abs_mailbox c st' = (abs_mailbox c (ep_store s))\<lparr>mb_reqValid := False\<rparr>" using abs_write(1) [OF w(4) refl] w(3) by simp
  show ?thesis using True w(1,2) assms
    by (simp add: poll_request_def Let_def abs_view_def a spec_request_def List.map_filter_def) (simp add: abs_mailbox_def)
next
  case False
  then show ?thesis using assms
    by (auto simp: poll_request_def Let_def abs_view_def spec_request_def abs_mailbox_def)
qed

lemma poll_done_refines:
  assumes "mailbox_inside c (ep_store s)"
  shows "\<exists>s'. poll_done c True s = Inr s' \<and> mailbox_inside c (ep_store s') \<and> abs_view c s' = spec_done c (abs_view c s)"
proof (cases "half_at c (ep_store s) CTRL_LOCAL_DONE_VALID_OFF \<noteq> 0 \<and>
    unat (half_at c (ep_store s) CTRL_LOCAL_DONE_SEQ_OFF) > ep_localDoneSeqSeen s")
  case True
  obtain st' where w: "writeMailboxU32 c CTRL_LOCAL_DONE_VALID_OFF 0 (ep_store s) = Inr st'" "mailbox_inside c st'"
    "half_at c st' CTRL_LOCAL_DONE_VALID_OFF = 0"
    "\<And>off2. cell off2 \<Longrightarrow> off2 \<noteq> CTRL_LOCAL_DONE_VALID_OFF \<Longrightarrow> word_at c st' off2 = word_at c (ep_store s) off2"
    using write_half [OF assms cells(6), of 0] by metis
  have a: "abs_mailbox c st' = (abs_mailbox c (ep_store s))\<lparr>mb_doneValid := False\<rparr>" using abs_write(2) [OF w(4) refl] w(3) by simp
  show ?thesis using True w(1,2) assms
    by (simp add: poll_done_def Let_def abs_view_def a spec_done_def List.map_filter_def) (simp add: abs_mailbox_def)
next
  case False
  then show ?thesis using assms
    by (auto simp: poll_done_def Let_def abs_view_def spec_done_def abs_mailbox_def)
qed

lemma poll_finished_refines:
  assumes "mailbox_inside c (ep_store s)"
  shows "\<exists>s'. poll_finished c True s = Inr s' \<and> mailbox_inside c (ep_store s') \<and> abs_view c s' = spec_finished c (abs_view c s)"
proof (cases "word_at c (ep_store s) CTRL_LOCAL_FINISHED_OFF \<noteq> 0 \<and> \<not> ep_localFinishedSeen s")
  case True
  obtain st' where w: "writeMailbox c CTRL_LOCAL_FINISHED_OFF 0 (ep_store s) = Inr st'" "mailbox_inside c st'"
    "word_at c st' CTRL_LOCAL_FINISHED_OFF = 0"
    "\<And>off2. cell off2 \<Longrightarrow> off2 \<noteq> CTRL_LOCAL_FINISHED_OFF \<Longrightarrow> word_at c st' off2 = word_at c (ep_store s) off2"
    using write_cell [OF assms cells(7), of 0] by metis
  have a: "abs_mailbox c st' = (abs_mailbox c (ep_store s))\<lparr>mb_finished := False\<rparr>" using abs_write(3) [OF w(4) refl] w(3) by simp
  show ?thesis using True w(1,2) assms
    by (simp add: poll_finished_def Let_def abs_view_def a spec_finished_def List.map_filter_def) (simp add: abs_mailbox_def)
next
  case False
  then show ?thesis using assms
    by (auto simp: poll_finished_def Let_def abs_view_def spec_finished_def abs_mailbox_def)
qed

text \<open>The deliveries that a worker pumps at the start of a tick send no control messages.\<close>

definition quiet :: "gworker \<Rightarrow> gworker \<Rightarrow> bool" where
  "quiet s s' \<longleftrightarrow> (\<exists>es. gw_out s' = gw_out s @ es \<and> List.map_filter control_message es = [])"

lemma quiet_refl [simp]: "quiet s s"
  by (simp add: quiet_def List.map_filter_def)

lemma quiet_trans: "quiet s t \<Longrightarrow> quiet t u \<Longrightarrow> quiet s u"
  unfolding quiet_def by fastforce

lemma complete_quiet: "quiet s (completeWorkerAttentionKvDelivery c connected i ok s)"
  by (auto simp: quiet_def completeWorkerAttentionKvDelivery_def sendAttentionKvAck_def List.map_filter_def split: option.splits)

lemma issue_quiet: "quiet s (issue_write maxReq acc i d s)"
  by (simp add: quiet_def issue_write_def Let_def List.map_filter_def)

lemma quiet_out: "gw_out t = gw_out s @ es \<Longrightarrow> List.map_filter control_message es = [] \<Longrightarrow> quiet t u \<Longrightarrow> quiet s u"
  unfolding quiet_def by fastforce

lemma pump_quiet: "quiet s (pumpWorkerAttentionKvDelivery c connected maxReq acc i s)"
proof (cases "map_of (gw_deliveries s) i")
  case (Some d)
  show ?thesis
  proof (cases "map_of (gw_callbacks s) i")
    case None
    then show ?thesis using Some complete_quiet issue_quiet by (simp add: pumpWorkerAttentionKvDelivery_def)
  next
    case (Some cb)
    let ?d = "d\<lparr>dl_writingV := True, dl_offset := 0\<rparr>"
    let ?es = "if cb_kReadySent cb \<or> \<not> cb_hasKReady cb then [] else [KReady i True]"
    let ?s = "(if cb_kReadySent cb then s
      else w_emit (if cb_hasKReady cb then [KReady i True] else [])
             (s\<lparr>gw_callbacks := put_key i (cb\<lparr>cb_kReadySent := True\<rparr>) (gw_callbacks s)\<rparr>))
        \<lparr>gw_deliveries := put_key i ?d (gw_deliveries s)\<rparr>"
    have out: "gw_out ?s = gw_out s @ ?es" "List.map_filter control_message ?es = []"
      by (simp_all add: w_emit_def List.map_filter_def)
    have q: "quiet s (issue_write maxReq acc i ?d ?s)" "quiet s (completeWorkerAttentionKvDelivery c connected i True ?s)"
      by (rule quiet_out [OF out issue_quiet], rule quiet_out [OF out complete_quiet])
    have "pumpWorkerAttentionKvDelivery c connected maxReq acc i s =
       (if dl_inflight d then s
        else if dl_offset d \<noteq> length (dl_source d) then issue_write maxReq acc i d s
        else if dl_writingV d then completeWorkerAttentionKvDelivery c connected i True s
        else if dl_vData d \<noteq> [] then issue_write maxReq acc i ?d ?s else completeWorkerAttentionKvDelivery c connected i True ?s)"
      using Some \<open>map_of (gw_deliveries s) i = Some d\<close> by (simp add: pumpWorkerAttentionKvDelivery_def Let_def)
    then show ?thesis using q complete_quiet issue_quiet quiet_refl by presburger
  qed
qed (simp add: pumpWorkerAttentionKvDelivery_def)

lemma worker_tick_quiet: "quiet s (kv_worker_tick c connected maxReq acc s)"
proof -
  have "quiet s (fold (pumpWorkerAttentionKvDelivery c connected maxReq acc) ids s)" for ids
    by (induction ids arbitrary: s) (auto intro: quiet_trans pump_quiet)
  then show ?thesis by (simp add: kv_worker_tick_def)
qed

lemma with_worker_view: "quiet (ep_worker s) w \<Longrightarrow> abs_view c (with_worker w s) = abs_view c s"
  by (auto simp: quiet_def with_worker_def abs_view_def)

lemma tick_refines:
  assumes "gc_role c = WORKER" "mailbox_inside c (ep_store s)"
  shows "\<exists>s'. tick c True maxReq acc s = Inr s' \<and> mailbox_inside c (ep_store s') \<and> abs_view c s' = spec_tick c (abs_view c s)"
proof -
  let ?s = "with_worker (kv_worker_tick c True maxReq acc (ep_worker s)) s"
  have v: "abs_view c ?s = abs_view c s" by (rule with_worker_view [OF worker_tick_quiet])
  have i: "mailbox_inside c (ep_store ?s)" using assms(2) by (simp add: with_worker_def)
  from poll_request_refines [OF i] obtain s1 where s1: "poll_request c True ?s = Inr s1" "mailbox_inside c (ep_store s1)"
    "abs_view c s1 = spec_request c (abs_view c s)" unfolding v by blast
  from poll_done_refines [OF s1(2)] obtain s2 where s2: "poll_done c True s1 = Inr s2" "mailbox_inside c (ep_store s2)"
    "abs_view c s2 = spec_done c (abs_view c s1)" by blast
  from poll_finished_refines [OF s2(2)] obtain s3 where s3: "poll_finished c True s2 = Inr s3" "mailbox_inside c (ep_store s3)"
    "abs_view c s3 = spec_finished c (abs_view c s2)" by blast
  have "tick c True maxReq acc s = Inr s3" using assms(1) s1(1) s2(1) s3(1) by (simp add: tick_def tick_worker_def)
  moreover have "abs_view c s3 = spec_tick c (abs_view c s)" by (simp add: spec_tick_def s3(3) s2(3) s1(3))
  ultimately show ?thesis using s3(2) by blast
qed

text \<open>C7: A worker's \<open>tick\<close> refines the abstract mailbox machine: with the mailbox page in memory and the
  request link connected it never fails, and its effect on the mailbox fields, on the sequence
  numbers it remembers and on the stream of control messages is that of sending each newly posted REQUEST,
  DONE and FINISHED once, in this order, with the posted fields, and clearing its flag; in-flight
  K/V deliveries change none of it.\<close>

theorem tick_refines_mailbox:
  assumes "gc_role c = WORKER" "mailbox_inside c (ep_store s)"
  shows "\<exists>s'. tick c True maxReq acc s = Inr s' \<and> mailbox_inside c (ep_store s') \<and> abs_view c s' = spec_tick c (abs_view c s)"
  by (rule tick_refines [OF assms])

section \<open>The grant protocol\<close>

lemma rsp_refines:
  assumes "mailbox_inside c (ep_store s)"
  shows "\<exists>s'. handleRsp c connected maxReq acc m s = Inr s' \<and> mailbox_inside c (ep_store s') \<and>
    abs_mailbox c (ep_store s') = spec_rsp m (abs_mailbox c (ep_store s))"
proof -
  have grant: ?thesis if t: "ms_type m = GRANT"
  proof -
    obtain st where w: "writeMailboxU32 c CTRL_LOCAL_GRANT_SEQ_OFF (of_nat (ms_reqSeq m)) (ep_store s) = Inr st" "mailbox_inside c st"
      "half_at c st CTRL_LOCAL_GRANT_SEQ_OFF = of_nat (ms_reqSeq m)"
      "\<And>off2. cell off2 \<Longrightarrow> off2 \<noteq> CTRL_LOCAL_GRANT_SEQ_OFF \<Longrightarrow> word_at c st off2 = word_at c (ep_store s) off2"
      using write_half [OF assms cells(3), of "of_nat (ms_reqSeq m)"] by metis
    obtain st' where w': "writeMailboxU32 c CTRL_LOCAL_GRANT_WINDOW_OFF (of_nat (ms_window m)) st = Inr st'" "mailbox_inside c st'"
      "half_at c st' CTRL_LOCAL_GRANT_WINDOW_OFF = of_nat (ms_window m)"
      "\<And>off2. cell off2 \<Longrightarrow> off2 \<noteq> CTRL_LOCAL_GRANT_WINDOW_OFF \<Longrightarrow> word_at c st' off2 = word_at c st off2"
      using write_half [OF w(2) cells(4), of "of_nat (ms_window m)"] by metis
    have "abs_mailbox c st = (abs_mailbox c (ep_store s))\<lparr>mb_grantSeq := ms_reqSeq m mod 2 ^ 32\<rparr>"
      using abs_write(4) [OF w(4) refl] w(3) by (simp add: unat_of_nat)
    then have "abs_mailbox c st' = (abs_mailbox c (ep_store s))\<lparr>mb_grantSeq := ms_reqSeq m mod 2 ^ 32, mb_grantWindow := ms_window m mod 2 ^ 32\<rparr>"
      using abs_write(5) [OF w'(4) refl] w'(3) by (simp add: unat_of_nat)
    then show ?thesis using t w(1) w'(1,2) by (simp add: handleRsp_def)
  qed
  have group_done: ?thesis if t: "ms_type m = GROUP_DONE"
  proof -
    obtain st where w: "writeMailboxU32 c CTRL_LOCAL_GROUP_DONE_OFF 1 (ep_store s) = Inr st" "mailbox_inside c st"
      "half_at c st CTRL_LOCAL_GROUP_DONE_OFF = 1"
      "\<And>off2. cell off2 \<Longrightarrow> off2 \<noteq> CTRL_LOCAL_GROUP_DONE_OFF \<Longrightarrow> word_at c st off2 = word_at c (ep_store s) off2"
      using write_half [OF assms cells(8), of 1] by metis
    show ?thesis using t w(1,2) abs_write(6) [OF w(4) refl] w(3) by (simp add: handleRsp_def)
  qed
  have other: ?thesis if "ms_type m \<noteq> GRANT" "ms_type m \<noteq> GROUP_DONE"
    using that assms by (cases "ms_type m") (simp_all add: handleRsp_def with_worker_def)
  show ?thesis using grant group_done other by blast
qed

definition request_posted :: "worker_view \<Rightarrow> bool" where
  "request_posted v \<longleftrightarrow> mb_reqValid (wv_mail v) \<and> wv_reqSeen v < mb_reqSeq (wv_mail v)"

definition request_message :: "gc_config \<Rightarrow> mailbox \<Rightarrow> GroupCtrlMsg" where
  "request_message c mb = (worker_message c REQUEST)\<lparr>ms_reqSeq := mb_reqSeq mb, ms_srcAddr := mb_reqSrc mb,
     ms_dstAddr := mb_reqDst mb, ms_bytes := mb_reqBytes mb mod 2 ^ 32, ms_targetNode := mb_reqNode mb mod 2 ^ 16,
     ms_window := mb_reqWindow mb mod 2 ^ 8\<rparr>"

lemma spec_tick_posted:
  assumes "request_posted v"
  shows "\<exists>later. wv_sent (spec_tick c v) = wv_sent v @ request_message c (wv_mail v) # later"
    and "\<not> mb_reqValid (wv_mail (spec_tick c v))"
  using assms
  by (auto simp: request_posted_def spec_tick_def spec_request_def spec_done_def spec_finished_def request_message_def Let_def)

text \<open>A manager that can serve a request of the worker in \<open>slot\<close> for memory node \<open>node\<close> at once.\<close>

definition manager_ready :: "gc_config \<Rightarrow> gsched \<Rightarrow> nat \<Rightarrow> nat \<Rightarrow> bool" where
  "manager_ready c g slot node \<longleftrightarrow> gc_role c = MANAGER \<and> gc_maxGrantsPerSchedule c = 1 \<and> 0 < gc_queueDepth c \<and> sc_pendingQ g = [] \<and>
     slot < 4 \<and> length (sc_workers g) = 4 \<and> \<not> wk_inflight (sc_workers g ! slot) \<and>
     node < length (sc_inflightPerNode g) \<and> sc_inflightPerNode g ! node < gc_maxInflightPerNode c"

lemma manager_grants:
  assumes "manager_ready c (ep_sched g) slot (ms_targetNode m)" "ms_type m = REQUEST" "ms_reqSeq m \<noteq> 0"
  shows "\<exists>g' d. handleReq c m slot g = Inr g' \<and> ep_out g' = ep_out g @ [SendRsp slot d] \<and> ms_type d = GRANT \<and>
    ms_reqSeq d = ms_reqSeq m \<and> ms_window d = (if ms_window m = 0 then 1 else ms_window m)"
proof -
  let ?r = "\<lparr>pr_workerSlot = slot mod 256, pr_reqSeq = ms_reqSeq m, pr_window = ms_window m,
    pr_srcAddr = ms_srcAddr m, pr_dstAddr = ms_dstAddr m, pr_bytes = ms_bytes m, pr_targetNode = ms_targetNode m\<rparr>"
  let ?s = "(ep_sched g)\<lparr>sc_workers := (sc_workers (ep_sched g))[slot := (sc_workers (ep_sched g) ! slot)\<lparr>wk_lastReqSeq := ms_reqSeq m\<rparr>],
    sc_pendingQ := [?r]\<rparr>"
  have e: "eligible c ?s ?r" using assms(1) by (simp add: manager_ready_def eligible_def)
  have "handle_request c m slot (ep_sched g) = (sendRsp slot (grant_message c ?r), grant_at 0 ?s)"
    using assms(1) e trySchedule_single [of ?s ?r c] by (simp add: manager_ready_def handle_request_def)
  then show ?thesis
    using assms by (simp add: handleReq_def manager_ready_def with_sched_def sendRsp_def grant_message_def new_msg_def)
qed

text \<open>C8: A posted memory request is granted end to end: when a worker's software has posted a new request
  in its mailbox, one tick sends it as a REQUEST with the posted fields and clears its flag; a
  manager that has an empty queue, sees the worker idle and has room on the memory node answers with a single
  GRANT to that worker; and when the worker receives it, its mailbox shows exactly the posted sequence
  number and a grant window of at least one.\<close>

theorem grant_protocol:
  assumes "gc_role cw = WORKER" "mailbox_inside cw (ep_store s)" "request_posted (abs_view cw s)"
    and "manager_ready cm (ep_sched g) slot (mb_reqNode (abs_mailbox cw (ep_store s)) mod 2 ^ 16)"
  shows "\<exists>s' m later g' d s''. tick cw True maxReq acc s = Inr s' \<and>
    wv_sent (abs_view cw s') = wv_sent (abs_view cw s) @ m # later \<and> m = request_message cw (abs_mailbox cw (ep_store s)) \<and>
    handleReq cm m slot g = Inr g' \<and> ep_out g' = ep_out g @ [SendRsp slot d] \<and>
    handleRsp cw True maxReq acc d s' = Inr s'' \<and>
    mb_grantSeq (abs_mailbox cw (ep_store s'')) = mb_reqSeq (abs_mailbox cw (ep_store s)) \<and>
    0 < mb_grantWindow (abs_mailbox cw (ep_store s'')) \<and> \<not> mb_reqValid (abs_mailbox cw (ep_store s''))"
proof -
  let ?mb = "abs_mailbox cw (ep_store s)"
  let ?m = "request_message cw ?mb"
  have mail: "wv_mail (abs_view cw t) = abs_mailbox cw (ep_store t)" for t by (simp add: abs_view_def)
  obtain s' where s': "tick cw True maxReq acc s = Inr s'" "mailbox_inside cw (ep_store s')" "abs_view cw s' = spec_tick cw (abs_view cw s)"
    using tick_refines [OF assms(1,2)] by blast
  obtain later where sent: "wv_sent (abs_view cw s') = wv_sent (abs_view cw s) @ ?m # later"
    using spec_tick_posted(1) [OF assms(3), of cw] unfolding s'(3) mail by blast
  have cleared: "\<not> mb_reqValid (abs_mailbox cw (ep_store s'))"
    using spec_tick_posted(2) [OF assms(3), of cw] unfolding s'(3) [symmetric] mail .
  have m: "ms_type ?m = REQUEST" "ms_reqSeq ?m = mb_reqSeq ?mb" "ms_targetNode ?m = mb_reqNode ?mb mod 2 ^ 16" "ms_window ?m < 2 ^ 8"
    by (simp_all add: request_message_def)
  have seq: "mb_reqSeq ?mb \<noteq> 0" "mb_reqSeq ?mb < 2 ^ 32"
    using assms(3) unsigned_less [of "half_at cw (ep_store s) CTRL_LOCAL_REQ_SEQ_OFF", where ?'a = nat]
    by (auto simp: request_posted_def mail abs_mailbox_def)
  obtain g' d where g: "handleReq cm ?m slot g = Inr g'" "ep_out g' = ep_out g @ [SendRsp slot d]" "ms_type d = GRANT"
    "ms_reqSeq d = mb_reqSeq ?mb" "ms_window d = (if ms_window ?m = 0 then 1 else ms_window ?m)"
    using manager_grants [of cm g slot ?m] assms(4) m seq(1) by auto
  obtain s'' where s'': "handleRsp cw True maxReq acc d s' = Inr s''" "abs_mailbox cw (ep_store s'') = spec_rsp d (abs_mailbox cw (ep_store s'))"
    using rsp_refines [OF s'(2)] by blast
  have "mb_grantSeq (abs_mailbox cw (ep_store s'')) = mb_reqSeq ?mb" "0 < mb_grantWindow (abs_mailbox cw (ep_store s''))"
    "\<not> mb_reqValid (abs_mailbox cw (ep_store s''))"
    using g(3-5) seq m(4) cleared by (simp_all add: s''(2))
  then show ?thesis using s'(1) sent g(1,2) s''(1) by blast
qed

text \<open>Request five is posted, in an otherwise empty mailbox.\<close>

definition demo_store :: gm_store where
  "demo_store = \<lparr>gs_base = 0, gs_bytes = replicate 0x1900 0 @ [5, 0, 0, 0, 0, 0, 0, 0, 1, 0, 0, 0, 0, 0, 0, 0] @ replicate 88 0\<rparr>"

lemma demo_inside: "mailbox_inside (demo_config WORKER) demo_store"
  by (simp add: mailbox_inside_def demo_store_def demo_config_def mailboxAddr_def CTRL_LOCAL_MAILBOX_BASE_def)

lemma demo_word:
  assumes "cell off"
  shows "word_at (demo_config WORKER) demo_store off =
     le_word (range_of ([5, 0, 0, 0, 0, 0, 0, 0, 1, 0, 0, 0, 0, 0, 0, 0] @ replicate 88 0) off 8)"
proof -
  have "off \<le> 96" using assms unfolding cell_def by presburger
  then show ?thesis
    by (simp add: word_at_def readMailbox_def read_u64_from_storage_def demo_store_def demo_config_def mailboxAddr_def
        CTRL_LOCAL_MAILBOX_BASE_def range_of_def)
qed

lemma le_word_zeros: "le_word (replicate n 0) = 0"
  by (induction n) simp_all

lemma demo_cells:
  "word_at (demo_config WORKER) demo_store CTRL_LOCAL_REQ_SEQ_OFF = 5"
  "word_at (demo_config WORKER) demo_store CTRL_LOCAL_REQ_VALID_OFF = 1"
  "word_at (demo_config WORKER) demo_store CTRL_LOCAL_REQ_NODE_OFF = 0"
  "word_at (demo_config WORKER) demo_store CTRL_LOCAL_DONE_VALID_OFF = 0"
  "word_at (demo_config WORKER) demo_store CTRL_LOCAL_FINISHED_OFF = 0"
  by (simp add: demo_word, simp add: offsets range_of_def le_word_zeros)+

lemma demo_mail:
  "mb_reqSeq (abs_mailbox (demo_config WORKER) demo_store) = 5" "mb_reqValid (abs_mailbox (demo_config WORKER) demo_store)"
  "mb_reqNode (abs_mailbox (demo_config WORKER) demo_store) = 0" "\<not> mb_doneValid (abs_mailbox (demo_config WORKER) demo_store)"
  "\<not> mb_finished (abs_mailbox (demo_config WORKER) demo_store)"
  by (simp_all add: abs_mailbox_def half_at_def demo_cells)

definition demo_endpoint :: endpoint where
  "demo_endpoint = new_endpoint (demo_config WORKER) demo_store"

lemma demo_view:
  "abs_view (demo_config WORKER) demo_endpoint = \<lparr>wv_mail = abs_mailbox (demo_config WORKER) demo_store, wv_reqSeen = 0,
     wv_doneSeen = 0, wv_finishedSeen = False, wv_sent = []\<rparr>"
  by (simp add: abs_view_def demo_endpoint_def new_endpoint_def List.map_filter_def)

lemma demo_endpoint_store: "ep_store demo_endpoint = demo_store"
  by (simp add: demo_endpoint_def new_endpoint_def)

theorem tick_refines_mailbox_witness:
  "\<exists>s'. tick (demo_config WORKER) True 64 (\<lambda>_. True) demo_endpoint = Inr s' \<and>
     wv_sent (abs_view (demo_config WORKER) s') = [request_message (demo_config WORKER) (abs_mailbox (demo_config WORKER) demo_store)]"
proof -
  have "gc_role (demo_config WORKER) = WORKER" "mailbox_inside (demo_config WORKER) (ep_store demo_endpoint)"
    by (simp_all add: demo_endpoint_store demo_inside)
  from tick_refines_mailbox [OF this, of 64 "\<lambda>_. True"] obtain s' where
    "tick (demo_config WORKER) True 64 (\<lambda>_. True) demo_endpoint = Inr s'"
    "abs_view (demo_config WORKER) s' = spec_tick (demo_config WORKER) (abs_view (demo_config WORKER) demo_endpoint)" by blast
  moreover have "wv_sent (spec_tick (demo_config WORKER) (abs_view (demo_config WORKER) demo_endpoint)) =
     [request_message (demo_config WORKER) (abs_mailbox (demo_config WORKER) demo_store)]"
    by (simp add: demo_view spec_tick_def spec_request_def spec_done_def spec_finished_def request_message_def demo_mail Let_def)
  ultimately show ?thesis by auto
qed

theorem grant_protocol_witness:
  "\<exists>s' m later g' d s''. tick (demo_config WORKER) True 64 (\<lambda>_. True) demo_endpoint = Inr s' \<and>
    wv_sent (abs_view (demo_config WORKER) s') = m # later \<and>
    handleReq (demo_config MANAGER) m 0 (new_endpoint (demo_config MANAGER) demo_store) = Inr g' \<and> ep_out g' = [SendRsp 0 d] \<and>
    handleRsp (demo_config WORKER) True 64 (\<lambda>_. True) d s' = Inr s'' \<and>
    mb_grantSeq (abs_mailbox (demo_config WORKER) (ep_store s'')) = 5"
proof -
  let ?g = "new_endpoint (demo_config MANAGER) demo_store"
  have g: "ep_out ?g = []" "ep_sched ?g = new_gsched (demo_config MANAGER)" by (simp_all add: new_endpoint_def)
  have "gc_role (demo_config WORKER) = WORKER" "mailbox_inside (demo_config WORKER) (ep_store demo_endpoint)"
    by (simp_all add: demo_endpoint_store demo_inside)
  moreover have "request_posted (abs_view (demo_config WORKER) demo_endpoint)" by (simp add: demo_view request_posted_def demo_mail)
  moreover have "manager_ready (demo_config MANAGER) (ep_sched ?g) 0
      (mb_reqNode (abs_mailbox (demo_config WORKER) (ep_store demo_endpoint)) mod 2 ^ 16)"
    unfolding g demo_endpoint_store demo_mail by (simp add: manager_ready_def new_gsched_def new_worker_def)
  ultimately have "\<exists>s' m later g' d s''. tick (demo_config WORKER) True 64 (\<lambda>_. True) demo_endpoint = Inr s' \<and>
    wv_sent (abs_view (demo_config WORKER) s') = wv_sent (abs_view (demo_config WORKER) demo_endpoint) @ m # later \<and>
    m = request_message (demo_config WORKER) (abs_mailbox (demo_config WORKER) (ep_store demo_endpoint)) \<and>
    handleReq (demo_config MANAGER) m 0 ?g = Inr g' \<and> ep_out g' = ep_out ?g @ [SendRsp 0 d] \<and>
    handleRsp (demo_config WORKER) True 64 (\<lambda>_. True) d s' = Inr s'' \<and>
    mb_grantSeq (abs_mailbox (demo_config WORKER) (ep_store s'')) = mb_reqSeq (abs_mailbox (demo_config WORKER) (ep_store demo_endpoint)) \<and>
    0 < mb_grantWindow (abs_mailbox (demo_config WORKER) (ep_store s'')) \<and> \<not> mb_reqValid (abs_mailbox (demo_config WORKER) (ep_store s''))"
    by (rule grant_protocol)
  then show ?thesis unfolding g demo_endpoint_store demo_mail demo_view worker_view.simps append_Nil by blast
qed

end
