(* ===== verification/Fp16.thy ===== *)
theory Fp16
  imports Complex_Main Soft_Float
begin

text \<open>
  \<^verbatim>\<open>golem/fp16.h\<close>: conversions between the binary16 storage format and \<open>float\<close>, and the arithmetic
  of \<open>GolemFp16\<close>. A \<open>float\<close> is its 32-bit encoding, as in \<open>Soft_Float\<close>, whose rounding to
  nearest even is the reference for the conversions.
\<close>

unbundle bit_operations_syntax

section \<open>Conversions\<close>

text \<open>The loop that normalises a subnormal fraction. A fraction in \<open>[1, 0x400)\<close> leaves it after at
  most ten iterations; the other guard only makes the function total.\<close>

function fp16_normalize :: "32 word \<Rightarrow> int \<Rightarrow> 32 word \<times> int" where
  "fp16_normalize normalized e =
    (if normalized AND 0x400 = 0 \<and> normalized \<noteq> 0 \<and> normalized < 0x400
     then fp16_normalize (push_bit 1 normalized) (e - 1)
     else (normalized, e))"
  by pat_completeness auto
termination
proof (relation "measure (\<lambda>(n, e). 0x400 - unat n)", goal_cases)
  case (2 n e)
  then have n: "n < 0x400" "n \<noteq> 0" by simp_all
  then have u: "unat n < 0x400" "0 < unat n" by (simp_all add: word_less_nat_alt unat_gt_0)
  then have "unat (push_bit 1 n) = 2 * unat n" 
    by (simp only: unsigned_push_bit_eq push_bit_eq_mult [where ?'a = nat]) (simp add: take_bit_nat_eq_self)
  with u show ?case by simp
qed simp

declare fp16_normalize.simps [simp del]

definition golem_fp16_to_float :: "16 word \<Rightarrow> float32" where
  "golem_fp16_to_float v =
    (let sgn = push_bit 16 (ucast (v AND 0x8000) :: 32 word);
         ex = (ucast (drop_bit 10 v AND 0x1f) :: 32 word);
         frac = (ucast (v AND 0x3ff) :: 32 word)
     in if ex = 0 then
          (if frac = 0 then sgn
           else case fp16_normalize frac (- 14) of (n, e) \<Rightarrow>
             sgn OR push_bit 23 (of_int (e + 127)) OR push_bit 13 (n AND 0x3ff))
        else if ex = 0x1f then sgn OR 0x7f800000 OR push_bit 13 frac
        else sgn OR push_bit 23 (ex + 112) OR push_bit 13 frac)"

definition golem_float_to_fp16 :: "float32 \<Rightarrow> 16 word" where
  "golem_float_to_fp16 bits =
    (let sgn = (ucast (drop_bit 16 bits AND 0x8000) :: 16 word);
         ex = drop_bit 23 bits AND 0xff;
         frac = bits AND 0x7fffff
     in if ex = 0xff then
          (if frac = 0 then sgn OR 0x7c00
           else sgn OR 0x7c00 OR ucast (drop_bit 13 frac) OR 0x200)
        else
          let unbiased = uint ex - 127
          in if unbiased > 15 then sgn OR 0x7c00
             else if unbiased < - 14 then
               (if unbiased < - 24 then sgn
                else
                  let mantissa = frac OR 0x800000;
                      sh = nat (- unbiased - 14);
                      hf = drop_bit (sh + 13) mantissa;
                      remainder = mantissa AND (push_bit (sh + 13) 1 - 1);
                      halfway = push_bit (sh + 12) 1
                  in sgn OR ucast (if remainder > halfway \<or> (remainder = halfway \<and> hf AND 1 \<noteq> 0) then hf + 1 else hf))
             else
               let he = (of_int (unbiased + 15) :: 32 word);
                   hf = drop_bit 13 frac;
                   remainder = frac AND 0x1fff
               in if remainder > 0x1000 \<or> (remainder = 0x1000 \<and> hf AND 1 \<noteq> 0) then
                    (if hf + 1 = 0x400
                     then (if he + 1 \<ge> 0x1f then sgn OR 0x7c00 else ucast (ucast sgn OR push_bit 10 (he + 1) OR 0 :: 32 word))
                     else ucast (ucast sgn OR push_bit 10 he OR (hf + 1) :: 32 word))
                  else ucast (ucast sgn OR push_bit 10 he OR hf :: 32 word))"

section \<open>GolemFp16\<close>

record GolemFp16 =
  h_bits :: "16 word"

definition golem_half :: "float32 \<Rightarrow> GolemFp16" where
  "golem_half x = \<lparr>h_bits = golem_float_to_fp16 x\<rparr>"

text \<open>The constructors from \<open>double\<close> and \<open>int\<close> convert to \<open>float\<close> first.\<close>

definition golem_half_double :: "64 word \<Rightarrow> GolemFp16" where
  "golem_half_double d = golem_half (of_nat (fround_value binary32 (fdecode binary64 (unat d))))"

definition golem_half_int :: "32 word \<Rightarrow> GolemFp16" where
  "golem_half_int i = golem_half (of_nat (fround binary32 (sint i < 0) (nat \<bar>sint i\<bar>) 0 False))"

definition half_float :: "GolemFp16 \<Rightarrow> float32" where
  "half_float x = golem_fp16_to_float (h_bits x)"

definition half_add :: "GolemFp16 \<Rightarrow> GolemFp16 \<Rightarrow> GolemFp16" where
  "half_add x y = \<lparr>h_bits = golem_float_to_fp16 (fadd32 (half_float x) (half_float y))\<rparr>"

definition half_mul :: "GolemFp16 \<Rightarrow> GolemFp16 \<Rightarrow> GolemFp16" where
  "half_mul x y = golem_half (fmul32 (half_float x) (half_float y))"

section \<open>Fields\<close>

text \<open>Sign, exponent and fraction of an encoding, and the encoding of three fields.\<close>

lemma unat_and_mask: "unat (w AND mask k :: 'a::len word) = unat w mod 2 ^ k"
  by (simp only: take_bit_eq_mask [symmetric] unsigned_take_bit_eq take_bit_eq_mod [where ?'a = nat])

lemma unat_shift: "unat (drop_bit n w :: 'a::len word) = unat w div 2 ^ n"
  by (simp only: unat_drop_bit_eq drop_bit_eq_div [where ?'a = nat])

lemma word_masks:
  "(0xff :: 32 word) = mask 8" "(0x7fffff :: 32 word) = mask 23" "(0x1fff :: 32 word) = mask 13"
  "(0x3ff :: 16 word) = mask 10" "(0x1f :: 16 word) = mask 5" "(0x3ff :: 32 word) = mask 10" "(1 :: 32 word) = mask 1"
  by (simp_all add: mask_eq_exp_minus_1)

lemma or_low: "b < 2 ^ k \<Longrightarrow> a * 2 ^ k OR b = a * 2 ^ k + (b :: nat)"
proof -
  assume "b < 2 ^ k"
  then have b: "take_bit k b = b" by (simp add: take_bit_nat_eq_self)
  have "push_bit k a AND take_bit k b = 0" by (rule bit_eqI) (auto simp: bit_simps)
  then have "push_bit k a + take_bit k b = push_bit k a OR take_bit k b" by (rule disjunctive_add_eq_or)
  then show ?thesis by (simp add: b push_bit_eq_mult)
qed

definition sign16 :: "bool \<Rightarrow> 16 word" where
  "sign16 s = (if s then 0x8000 else 0)"

lemma unat_sign16 [simp]: "unat (sign16 s) = (if s then 2 ^ 15 else 0)"
  by (simp add: sign16_def)

lemma and_exp: "(w AND 2 ^ n :: 'a::len word) = (if bit w n then 2 ^ n else 0)"
  by (rule bit_eqI) (auto simp: bit_simps)

lemma sign_field: "(ucast (drop_bit 16 b AND 0x8000) :: 16 word) = sign16 (bit (b :: 32 word) 31)"
  using and_exp [of "drop_bit 16 b" 15] by (simp add: sign16_def bit_drop_bit_eq)

lemma or_sign: "unat x < 2 ^ 15 \<Longrightarrow> unat (sign16 s OR x) = (if s then 2 ^ 15 else 0) + unat x"
  using or_low [of "unat x" 15 1] by (simp add: unsigned_or_eq)

lemma unat_push: "unat (w :: 'a::len word) * 2 ^ k < 2 ^ LENGTH('a) \<Longrightarrow> unat (push_bit k w) = unat w * 2 ^ k"
  by (simp only: unsigned_push_bit_eq push_bit_eq_mult [where ?'a = nat] take_bit_nat_eq_self)

lemma pack16:
  assumes "unat he < 32" "unat hf < 1024"
  shows "unat (ucast (ucast (sign16 s) OR push_bit 10 he OR hf :: 32 word) :: 16 word) =
    (if s then 2 ^ 15 else 0) + (unat he * 1024 + unat hf)"
proof -
  have sg: "unat (ucast (sign16 s) :: 32 word) = (if s then 2 ^ 15 else 0)" by (simp add: sign16_def)
  have p: "unat (push_bit 10 he) = unat he * 1024" using assms(1) unat_push [of he 10] by simp
  have h: "unat he * 1024 OR unat hf = unat he * 1024 + unat hf" using or_low [of "unat hf" 10 "unat he"] assms(2) by simp
  have lt: "unat he * 1024 + unat hf < 2 ^ 15" using assms by simp
  have "unat (ucast (sign16 s) OR push_bit 10 he OR hf) = (if s then 2 ^ 15 else 0) + (unat he * 1024 + unat hf)"
    unfolding or.assoc unsigned_or_eq sg p h using or_low [OF lt, of 1] by simp
  moreover have "(if s then 2 ^ 15 else 0) + (unat he * 1024 + unat hf) < 2 ^ 16" using lt by simp
  ultimately show ?thesis by (simp add: unsigned_ucast_eq take_bit_nat_eq_self)
qed

lemma odd_word: "(w AND 1 \<noteq> (0 :: 32 word)) = odd (unat w)"
proof -
  have "(w AND 1 = 0) = (unat (w AND mask 1) = 0)" by (simp add: word_unat_eq_iff mask_eq_exp_minus_1)
  then show ?thesis unfolding unat_and_mask by (simp add: even_iff_mod_2_eq_zero)
qed

lemma word_eq_nat: "unat a = n \<Longrightarrow> n < 2 ^ 32 \<Longrightarrow> (a = of_nat n) \<and> (of_nat n = (a :: 32 word))"
  by (auto simp: word_unat_eq_iff unat_of_nat)

section \<open>Rounding to binary16\<close>

text \<open>The conversion in terms of the fields; \<open>s\<close>, \<open>E\<close> and \<open>F\<close> are sign, exponent and fraction.\<close>

lemma bit_nat_word: "bit (b :: 'a::len word) n = bit (unat b) n"
  by (simp add: bit_unsigned_iff)

lemma fields_of_float:
  assumes "unat (b :: 32 word) = (if s then 2 ^ 31 else 0) + E * 2 ^ 23 + F" "E < 256" "F < 2 ^ 23"
  shows "bit b 31 = s" "unat (drop_bit 23 b AND 0xff) = E" "unat (b AND 0x7fffff) = F"
proof -
  have x: "E * 2 ^ 23 + F < 2 ^ 31" using assms by simp
  have "unat b div 2 ^ 31 = (if s then 1 else 0)"
    unfolding assms(1) using x by (cases s) (auto intro!: div_nat_eqI)
  then show "bit b 31 = s" unfolding bit_nat_word bit_iff_odd by simp
  have d: "unat b div 2 ^ 23 = (if s then 256 else 0) + E"
    unfolding assms(1) using assms(3) by (cases s) (auto intro!: div_nat_eqI)
  show "unat (drop_bit 23 b AND 0xff) = E"
    unfolding word_masks(1) unat_and_mask unat_shift d using assms(2) by simp
  have "unat b = ((if s then 256 else 0) + E) * 2 ^ 23 + F" unfolding assms(1) by simp
  then show "unat (b AND 0x7fffff) = F"
    unfolding word_masks(2) unat_and_mask using assms(3) by (simp only: mod_mult_self3 mod_less)
qed

definition half_sign :: "bool \<Rightarrow> nat" where
  "half_sign s = (if s then 2 ^ 15 else 0)"

lemma or_inf: "unat (sign16 s OR 0x7c00) = half_sign s + 31 * 1024"
  using or_sign [of "0x7c00" s] by (simp add: half_sign_def)

lemma round_shift_normal:
  assumes "F < 2 ^ 23"
  shows "round_shift (2 ^ 23 + F) 13 False =
    1024 + F div 8192 + (if F mod 8192 > 4096 \<or> (F mod 8192 = 4096 \<and> odd (F div 8192)) then 1 else 0)"
proof -
  have "(2 ^ 23 + F) div 2 ^ 13 = 1024 + F div 8192" "(2 ^ 23 + F) mod 2 ^ 13 = F mod 8192"
    using div_mult_self3 [of "8192 :: nat" 1024 F] mod_mult_self3 [of 1024 "8192 :: nat" F] by simp_all
  then show ?thesis unfolding round_shift_def Let_def by simp
qed

definition has_fields :: "float32 \<Rightarrow> bool \<Rightarrow> nat \<Rightarrow> nat \<Rightarrow> bool" where
  "has_fields b s E F \<longleftrightarrow> unat b = (if s then 2 ^ 31 else 0) + E * 2 ^ 23 + F \<and> E < 256 \<and> F < 2 ^ 23"

lemma has_fieldsD:
  assumes "has_fields b s E F"
  shows "(ucast (drop_bit 16 b AND 0x8000) :: 16 word) = sign16 s" "unat (drop_bit 23 b AND 0xff) = E" "unat (b AND 0x7fffff) = F"
    "drop_bit 23 b AND 0xff = 0xff \<longleftrightarrow> E = 255" "uint (drop_bit 23 b AND 0xff) = int E" "b AND 0x7fffff = 0 \<longleftrightarrow> F = 0" "E < 256" "F < 2 ^ 23"
proof -
  from assms have f: "unat b = (if s then 2 ^ 31 else 0) + E * 2 ^ 23 + F" "E < 256" "F < 2 ^ 23" by (simp_all add: has_fields_def)
  note ff = fields_of_float [OF f]
  show "(ucast (drop_bit 16 b AND 0x8000) :: 16 word) = sign16 s" unfolding sign_field ff ..
  show e: "unat (drop_bit 23 b AND 0xff) = E" and fr: "unat (b AND 0x7fffff) = F" by (rule ff(2), rule ff(3))
  show "drop_bit 23 b AND 0xff = 0xff \<longleftrightarrow> E = 255" unfolding word_unat_eq_iff e by simp
  show "uint (drop_bit 23 b AND 0xff) = int E" unfolding uint_nat e ..
  show "b AND 0x7fffff = 0 \<longleftrightarrow> F = 0" unfolding word_unat_eq_iff fr by simp
qed (use assms in \<open>simp_all add: has_fields_def\<close>)

lemma to_fp16_large:
  assumes "has_fields b s E F" "142 < E" "E < 255"
  shows "unat (golem_float_to_fp16 b) = half_sign s + 31 * 1024"
  using has_fieldsD [OF assms(1)] assms(2,3) or_inf by (simp add: golem_float_to_fp16_def Let_def)

lemma to_fp16_tiny:
  assumes "has_fields b s E F" "E < 103"
  shows "unat (golem_float_to_fp16 b) = half_sign s"
  using has_fieldsD [OF assms(1)] assms(2) by (simp add: golem_float_to_fp16_def Let_def half_sign_def)

lemma to_fp16_normal:
  assumes f: "has_fields b s E F" and E: "113 \<le> E" "E \<le> 142"
  shows "unat (golem_float_to_fp16 b) = half_sign s + min (31 * 1024) ((E - 113) * 1024 + round_shift (2 ^ 23 + F) 13 False)"
proof -
  note d = has_fieldsD [OF f]
  define he :: "32 word" where "he = of_int (int E - 112)"
  define hf where "hf = drop_bit 13 (b AND 0x7fffff)"
  define remainder where "remainder = (b AND 0x7fffff) AND 0x1fff"
  define up where "up \<longleftrightarrow> F mod 8192 > 4096 \<or> (F mod 8192 = 4096 \<and> odd (F div 8192))"
  have "he = of_nat (E - 112)" unfolding he_def using E by (simp add: of_nat_diff)
  then have he: "unat he = E - 112" using E by (simp only: unat_of_nat ) simp
  have hf: "unat hf = F div 8192" unfolding hf_def unat_shift d(3) by simp
  have hf_lt: "F div 8192 < 1024" using d(8) by (simp add: less_mult_imp_div_less)
  have rm: "unat remainder = F mod 8192" unfolding remainder_def word_masks(3) unat_and_mask d(3) by simp
  have up: "(remainder > 0x1000 \<or> (remainder = 0x1000 \<and> hf AND 1 \<noteq> 0)) = up"
    unfolding up_def odd_word hf word_less_nat_alt word_unat_eq_iff [of remainder] rm by simp
  have carry: "unat (hf + 1) = F div 8192 + 1" "unat (he + 1) = E - 111"
    using hf hf_lt he E by (simp_all add: unat_word_ariths)
  have full: "hf + 1 = 0x400 \<longleftrightarrow> F div 8192 = 1023" "he + 1 \<ge> 0x1f \<longleftrightarrow> E = 142"
    unfolding word_unat_eq_iff word_le_nat_alt carry using E by auto
  have "golem_float_to_fp16 b =
    (if up then (if hf + 1 = 0x400 then (if he + 1 \<ge> 0x1f then sign16 s OR 0x7c00 else ucast (ucast (sign16 s) OR push_bit 10 (he + 1) OR 0 :: 32 word))
                 else ucast (ucast (sign16 s) OR push_bit 10 he OR (hf + 1) :: 32 word))
     else ucast (ucast (sign16 s) OR push_bit 10 he OR hf :: 32 word))"
    using E d(1,4,5) up by (simp add: golem_float_to_fp16_def Let_def he_def hf_def remainder_def)
  moreover have "unat (ucast (ucast (sign16 s) OR push_bit 10 he OR hf :: 32 word) :: 16 word) = half_sign s + ((E - 112) * 1024 + F div 8192)"
    using pack16 [of he hf s] he hf hf_lt E by (simp add: half_sign_def)
  moreover have "unat (ucast (ucast (sign16 s) OR push_bit 10 he OR (hf + 1) :: 32 word) :: 16 word) = half_sign s + ((E - 112) * 1024 + F div 8192 + 1)"
    if "F div 8192 \<noteq> 1023" using pack16 [of he "hf + 1" s] he carry hf_lt E that by (simp add: half_sign_def)
  moreover have "unat (ucast (ucast (sign16 s) OR push_bit 10 (he + 1) OR 0 :: 32 word) :: 16 word) = half_sign s + (E - 111) * 1024"
    using pack16 [of "he + 1" 0 s] carry E by (simp add: half_sign_def)
  moreover have "(E - 112) * 1024 = 1024 + (E - 113) * 1024" "(E - 111) * 1024 = 2048 + (E - 113) * 1024" using E(1) by simp_all
  ultimately show ?thesis
    unfolding round_shift_normal [OF d(8)] up_def [symmetric] full using hf_lt E or_inf [of s] by (auto simp: min_def)
qed

lemma significand_quotient:
  assumes "F < 2 ^ 23" "14 \<le> k"
  shows "(2 ^ 23 + F) div 2 ^ k < (1024 :: nat)"
proof -
  have "(2::nat) ^ 14 \<le> 2 ^ k" using assms(2) by (intro power_increasing) simp_all
  then have "2 ^ 23 + F < 1024 * 2 ^ k" using assms(1) by simp
  then show ?thesis by (simp add: less_mult_imp_div_less)
qed

lemma round_shift_le: "round_shift m k sticky \<le> m div 2 ^ k + 1"
  by (simp add: round_shift_def Let_def)

lemma to_fp16_subnormal:
  assumes f: "has_fields b s E F" and E: "103 \<le> E" "E \<le> 112"
  shows "unat (golem_float_to_fp16 b) = half_sign s + round_shift (2 ^ 23 + F) (126 - E) False"
proof -
  note d = has_fieldsD [OF f]
  define k where "k = 126 - E"
  have k: "14 \<le> k" "k \<le> 23" using E by (simp_all add: k_def)
  have sh: "nat (- (int E - 127) - 14) = k - 13" using E by (simp add: k_def)
  define mantissa where "mantissa = (b AND 0x7fffff) OR 0x800000"
  define hf where "hf = drop_bit k mantissa"
  define remainder where "remainder = mantissa AND (push_bit k 1 - 1)"
  define m where "m = 2 ^ 23 + F"
  have mu: "unat mantissa = m"
    unfolding mantissa_def unsigned_or_eq d(3) m_def using or_low [OF d(8), of 1] by (simp add: or.commute)
  have hf: "unat hf = m div 2 ^ k" unfolding hf_def unat_shift mu ..
  have "push_bit k 1 - 1 = (mask k :: 32 word)" by (simp add: mask_eq_exp_minus_1 push_bit_eq_mult)
  then have rm: "unat remainder = m mod 2 ^ k" unfolding remainder_def using mu by (simp add: unat_and_mask)
  have p: "(2::nat) ^ (k - 1) < 2 ^ 32" "(2::nat) ^ 14 \<le> 2 ^ k" using k by (intro power_strict_increasing power_increasing; simp)+
  have hw: "unat (push_bit (k - 1) 1 :: 32 word) = 2 ^ (k - 1)" using unat_push [of "1 :: 32 word" "k - 1"] p(1) by simp
  have half: "2 ^ k div 2 = (2::nat) ^ (k - 1)" using k by (cases k) simp_all
  have hf_lt: "m div 2 ^ k < 1024" unfolding m_def by (rule significand_quotient [OF d(8) k(1)])
  define up where "up \<longleftrightarrow> m mod 2 ^ k > 2 ^ (k - 1) \<or> (m mod 2 ^ k = 2 ^ (k - 1) \<and> odd (m div 2 ^ k))"
  have up: "(remainder > push_bit (k - 1) 1 \<or> (remainder = push_bit (k - 1) 1 \<and> hf AND 1 \<noteq> 0)) = up"
    unfolding up_def odd_word hf word_less_nat_alt word_unat_eq_iff [of remainder] rm hw ..
  have "k - 13 + 13 = k" "k - 13 + 12 = k - 1" using k by simp_all
  then have "golem_float_to_fp16 b = sign16 s OR ucast (if up then hf + 1 else hf)"
    using E d(1,4,5) sh up unfolding golem_float_to_fp16_def Let_def mantissa_def [symmetric] d(1) d(5)
    by (simp add: remainder_def hf_def)
  moreover have "unat (ucast (if up then hf + 1 else hf) :: 16 word) = m div 2 ^ k + (if up then 1 else 0)"
    using hf hf_lt by (simp add: unsigned_ucast_eq take_bit_nat_eq_self unat_word_ariths)
  moreover have "round_shift m k False = m div 2 ^ k + (if up then 1 else 0)"
    using k unfolding round_shift_def Let_def half up_def by simp
  ultimately show ?thesis
    using or_sign [of "ucast (if up then hf + 1 else hf)" s] hf_lt unfolding m_def [symmetric] k_def [symmetric] half_sign_def by simp
qed

lemma decode_fields:
  assumes "has_fields b s E F"
  shows "dec32 b = (if E = 255 then (if F = 0 then FInf s else FNaN)
     else if E = 0 then FNum s F (- 149) else FNum s (2 ^ 23 + F) (int E - 150))"
proof -
  from assms have f: "unat b = (if s then 2 ^ 31 else 0) + E * 2 ^ 23 + F" "E < 256" "F < 2 ^ 23" by (simp_all add: has_fields_def)
  have d: "unat b div 2 ^ 23 = (if s then 256 else 0) + E"
    unfolding f(1) using f(3) by (cases s) (auto intro!: div_nat_eqI)
  have x: "E * 2 ^ 23 + F < 2 ^ 31" using f by simp
  have sd: "unat b div 2 ^ 31 = (if s then 1 else 0)" unfolding f(1) using x by (cases s) (auto intro!: div_nat_eqI)
  have "unat b = ((if s then 256 else 0) + E) * 2 ^ 23 + F" unfolding f(1) by simp
  then have m: "unat b mod 2 ^ 23 = F" using f(3) by (simp only: mod_mult_self3 mod_less)
  show ?thesis
    unfolding fdecode_def binary32_def fmin_exp_def fbias_def using d sd m f(2) by (simp add: Let_def)
qed

lemma has_fields_exists: "\<exists>s E F. has_fields b s E F"
proof -
  define q where "q = unat b div 2 ^ 23"
  define r where "r = unat b mod 2 ^ 23"
  have n: "unat b = q * 2 ^ 23 + r" "r < 2 ^ 23" unfolding q_def r_def by simp_all
  have "q < 512" using unsigned_less [of b, where ?'a = nat] unfolding q_def by (simp add: less_mult_imp_div_less)
  then have q: "q = (if 256 \<le> q then 256 else 0) + q mod 256" by (auto simp: le_mod_geq mod_if)
  have "q * 2 ^ 23 = (if 256 \<le> q then 2 ^ 31 else 0) + q mod 256 * 2 ^ 23" by (subst q) (simp add: algebra_simps)
  then have "has_fields b (256 \<le> q) (q mod 256) r" unfolding has_fields_def using n by simp
  then show ?thesis by blast
qed

text \<open>The reference rounding of a finite \<open>float\<close>.\<close>

lemma binary16_consts: "fmin_exp binary16 = - 24" "prec binary16 = 11" "ew binary16 = 5"
  "fsign_bits binary16 s = half_sign s" "finf_bits binary16 s = half_sign s + 31 * 1024"
  by (simp_all add: fmin_exp_def fbias_def binary16_def fsign_bits_def finf_bits_def half_sign_def)

lemma fround16_normal:
  assumes "F < 2 ^ 23" "1 \<le> E"
  shows "fround binary16 s (2 ^ 23 + F) (int E - 150) False =
    half_sign s + min (31 * 1024) (if 113 \<le> E then (E - 113) * 1024 + round_shift (2 ^ 23 + F) 13 False
                                   else round_shift (2 ^ 23 + F) (126 - E) False)"
proof -
  have bl: "bitlen (2 ^ 23 + F) = 24" using bitlen_unique [of 23 "2 ^ 23 + F"] assms(1) by simp
  have lsb: "max (- 24) (int E - 150 + 24 - 11) = (if 113 \<le> E then int E - 137 else - 24)" by simp
  have n: "nat (int E - 137 - (int E - 150)) = 13" "nat (- 24 - (int E - 150)) = 126 - E" by simp_all
  have m0: "\<not> (2 ^ 23 + F = 0 \<and> \<not> False)" by simp
  show ?thesis
  proof (cases "113 \<le> E")
    case True
    then have "nat (int E - 137 - (- 24)) = E - 113" by simp
    then show ?thesis using True n(1) unfolding fround_def binary16_consts bl of_nat_numeral Let_def lsb by (simp add: min_def)
  next
    case False
    then show ?thesis using n(2) unfolding fround_def binary16_consts bl of_nat_numeral Let_def lsb by (simp add: min_def)
  qed
qed

lemma round_shift_zero: "m < 2 ^ (k - 1) \<Longrightarrow> 0 < k \<Longrightarrow> round_shift m k False = 0"
proof -
  assume m: "m < 2 ^ (k - 1)" and k: "0 < k"
  have h: "2 ^ k div 2 = (2::nat) ^ (k - 1)" using k by (cases k) simp_all
  have "m < 2 ^ k" using m by (rule less_le_trans) (rule power_increasing, simp_all)
  then show ?thesis using m k unfolding round_shift_def Let_def h by simp
qed

lemma fround16_tiny:
  assumes "F < 2 ^ 23"
  shows "fround binary16 s F (- 149) False = half_sign s"
proof (cases "F = 0")
  case True
  then show ?thesis by (simp add: fround_def binary16_consts)
next
  case False
  have "bitlen F \<le> 23"
  proof (rule ccontr)
    assume "\<not> bitlen F \<le> 23"
    then have "(2::nat) ^ 23 \<le> 2 ^ (bitlen F - 1)" by (intro power_increasing) simp_all
    then show False using bitlen_lower [OF False] assms by simp
  qed
  then have l: "max (- 24) (- 149 + int (bitlen F) - 11) = - 24" by simp
  have "F < 2 ^ (125 - 1)" using assms by (rule less_le_trans) simp
  then have "round_shift F 125 False = 0" by (rule round_shift_zero) simp
  then show ?thesis using False unfolding fround_def binary16_consts of_nat_numeral Let_def l by simp
qed

definition flushed :: "float32 \<Rightarrow> bool" where
  "flushed b \<longleftrightarrow> drop_bit 23 b AND 0xff = 102 \<and> b AND 0x7fffff \<noteq> 0"

lemma round_shift_102: "F < 2 ^ 23 \<Longrightarrow> round_shift (2 ^ 23 + F) 24 False = (if F = 0 then 0 else 1)"
  by (simp add: round_shift_def Let_def)

lemma to_fp16_rounds:
  assumes "dec32 b \<noteq> FNaN"
  shows "unat (golem_float_to_fp16 b) = fround_value binary16 (dec32 b) \<longleftrightarrow> \<not> flushed b"
proof -
  obtain s E F where f: "has_fields b s E F" using has_fields_exists by blast
  note d = has_fieldsD [OF f] and dec = decode_fields [OF f]
  have fl: "flushed b \<longleftrightarrow> E = 102 \<and> F \<noteq> 0"
    unfolding flushed_def d(6) word_unat_eq_iff [of "drop_bit 23 b AND 0xff"] d(2) by simp
  consider "E = 255" | "E = 0" | "1 \<le> E" "E < 102" | "E = 102" | "103 \<le> E" "E \<le> 112" | "113 \<le> E" "E \<le> 142" | "142 < E" "E < 255"
    using d(7) by linarith
  then show ?thesis
  proof cases
    case 1
    then have "F = 0" using assms dec by (auto split: if_splits)
    then show ?thesis using 1 d or_inf fl dec by (simp add: golem_float_to_fp16_def Let_def fround_value_def binary16_consts)
  next
    case 2
    then show ?thesis using to_fp16_tiny [OF f] fround16_tiny [OF d(8)] fl dec by (simp add: fround_value_def)
  next
    case 3
    have "2 ^ 23 + F < 2 ^ (126 - E - 1)"
    proof -
      have "(2::nat) ^ 24 \<le> 2 ^ (126 - E - 1)" using 3 by (intro power_increasing) simp_all
      then show ?thesis using d(8) by simp
    qed
    then have "round_shift (2 ^ 23 + F) (126 - E) False = 0" using 3 by (intro round_shift_zero) simp_all
    then show ?thesis using 3 to_fp16_tiny [OF f] fround16_normal [OF d(8) 3(1)] fl dec by (simp add: fround_value_def)
  next
    case 4
    then show ?thesis using to_fp16_tiny [OF f] fround16_normal [OF d(8), of E] round_shift_102 [OF d(8)] fl dec
      by (simp add: fround_value_def)
  next
    case 5
    have "round_shift (2 ^ 23 + F) (126 - E) False \<le> 31 * 1024"
      using round_shift_le [of "2 ^ 23 + F" "126 - E" False] significand_quotient [OF d(8), of "126 - E"] 5 by linarith
    then show ?thesis using 5 to_fp16_subnormal [OF f 5] fround16_normal [OF d(8), of E] fl dec by (simp add: fround_value_def)
  next
    case 6
    then show ?thesis using to_fp16_normal [OF f 6] fround16_normal [OF d(8), of E] fl dec by (simp add: fround_value_def)
  next
    case 7
    then have "31 * 1024 \<le> (E - 113) * 1024 + round_shift (2 ^ 23 + F) 13 False" unfolding round_shift_normal [OF d(8)] by simp
    then show ?thesis using 7 to_fp16_large [OF f 7] fround16_normal [OF d(8), of E] fl dec by (simp add: fround_value_def)
  qed
qed

text \<open>C38: Conversion to binary16 is correctly rounded, with one exact exception: for every \<open>float\<close> that is not
  a NaN (overflow to infinity, subnormal results and infinities included), the bits of
  \<open>golem_float_to_fp16\<close> are those of rounding to nearest, ties to even, if and only if the magnitude is not
  strictly between \<open>2^-25\<close> and \<open>2^-24\<close>; there the code returns a zero although the nearest
  binary16 number is the smallest subnormal.\<close>

theorem float_to_fp16_rounds:
  assumes "dec32 b \<noteq> FNaN"
  shows "unat (golem_float_to_fp16 b) = fround_value binary16 (dec32 b) \<longleftrightarrow> \<not> flushed b"
  by (rule to_fp16_rounds [OF assms])

theorem float_to_fp16_rounds_witness:
  "unat (golem_float_to_fp16 0x3f800fff) = fround_value binary16 (dec32 0x3f800fff) \<and>
   unat (golem_float_to_fp16 0x33400000) \<noteq> fround_value binary16 (dec32 0x33400000)"
proof -
  have "dec32 0x3f800fff \<noteq> FNaN" "dec32 0x33400000 \<noteq> FNaN" by (simp_all add: fdecode_def binary32_def)
  moreover have "\<not> flushed 0x3f800fff" "flushed 0x33400000" by (simp_all add: flushed_def)
  ultimately show ?thesis using float_to_fp16_rounds by blast
qed

section \<open>Widening to float\<close>

lemma bitlen_double: "n \<noteq> 0 \<Longrightarrow> bitlen (2 * n) = Suc (bitlen n)"
  by (subst bitlen.simps) simp

lemma normalize_result:
  assumes "0 < unat n" "unat n < 2048"
  shows "unat (fst (fp16_normalize n e)) = unat n * 2 ^ (11 - bitlen (unat n)) \<and>
    snd (fp16_normalize n e) = e - int (11 - bitlen (unat n))"
  using assms
proof (induction n e rule: fp16_normalize.induct)
  case (1 n e)
  show ?case
  proof (cases "unat n < 1024")
    case True
    have "\<not> bit n 10" using True by (simp add: bit_nat_word bit_iff_odd)
    then have z: "n AND 0x400 = 0" using and_exp [of n 10] by simp
    have lt: "n < 0x400" "n \<noteq> 0" using True 1(2) by (auto simp: word_less_nat_alt)
    have p: "unat (push_bit 1 n) = 2 * unat n" using unat_push [of n 1] True by simp
    have bl: "bitlen (unat n) \<le> 10"
    proof (rule ccontr)
      assume "\<not> bitlen (unat n) \<le> 10"
      then have "(2::nat) ^ 10 \<le> 2 ^ (bitlen (unat n) - 1)" by (intro power_increasing) simp_all
      then show False using bitlen_lower [of "unat n"] True 1(2) by simp
    qed
    have "bitlen (2 * unat n) = Suc (bitlen (unat n))" using bitlen_double 1(2) by simp
    then have k: "11 - bitlen (unat n) = Suc (11 - bitlen (2 * unat n))" using bl by simp
    have "fp16_normalize n e = fp16_normalize (push_bit 1 n) (e - 1)" using z lt by (subst fp16_normalize.simps) simp
    then show ?thesis using 1(1) [OF conjI [OF z conjI [OF lt(2,1)]]] 1(2) True unfolding p k by simp
  next
    case False
    have "fp16_normalize n e = (n, e)" using False by (subst fp16_normalize.simps) (simp add: word_less_nat_alt)
    moreover have "bitlen (unat n) = 11" using bitlen_unique [of 10 "unat n"] False 1(3) by simp
    ultimately show ?thesis by simp
  qed
qed

definition half_fields :: "16 word \<Rightarrow> bool \<Rightarrow> nat \<Rightarrow> nat \<Rightarrow> bool" where
  "half_fields h s e f \<longleftrightarrow> unat h = half_sign s + e * 1024 + f \<and> e < 32 \<and> f < 1024"

lemma half_fields_exists: "\<exists>s e f. half_fields h s e f"
proof -
  define q where "q = unat h div 1024"
  define r where "r = unat h mod 1024"
  have n: "unat h = q * 1024 + r" "r < 1024" unfolding q_def r_def by simp_all
  have "q < 64" using unsigned_less [of h, where ?'a = nat] unfolding q_def by (simp add: less_mult_imp_div_less)
  then have q: "q = (if 32 \<le> q then 32 else 0) + q mod 32" by (auto simp: le_mod_geq mod_if)
  have "q * 1024 = half_sign (32 \<le> q) + q mod 32 * 1024" by (subst q) (simp add: algebra_simps half_sign_def)
  then have "half_fields h (32 \<le> q) (q mod 32) r" unfolding half_fields_def using n by simp
  then show ?thesis by blast
qed

lemma half_fieldsD:
  assumes "half_fields h s e f"
  shows "push_bit 16 (ucast (h AND 0x8000) :: 32 word) = (if s then 0x80000000 else 0)"
    "unat (ucast (drop_bit 10 h AND 0x1f) :: 32 word) = e" "unat (ucast (h AND 0x3ff) :: 32 word) = f" "e < 32" "f < 1024"
proof -
  from assms have f: "unat h = half_sign s + e * 1024 + f" "e < 32" "f < 1024" by (simp_all add: half_fields_def)
  have d: "unat h div 2 ^ 10 = (if s then 32 else 0) + e"
    unfolding f(1) half_sign_def using f(3) by (cases s) (auto intro!: div_nat_eqI)
  have "unat h div 2 ^ 15 = (if s then 1 else 0)" unfolding f(1) half_sign_def using f by (cases s) (auto intro!: div_nat_eqI)
  then have "bit h 15 = s" unfolding bit_nat_word bit_iff_odd by simp
  then show "push_bit 16 (ucast (h AND 0x8000) :: 32 word) = (if s then 0x80000000 else 0)" using and_exp [of h 15] by simp
  have "unat (drop_bit 10 h AND 0x1f) = e" unfolding word_masks(5) unat_and_mask unat_shift d using f(2) by simp
  then show "unat (ucast (drop_bit 10 h AND 0x1f) :: 32 word) = e" using f(2) by (simp add: unsigned_ucast_eq take_bit_nat_eq_self)
  have "unat h = ((if s then 32 else 0) + e) * 2 ^ 10 + f" unfolding f(1) half_sign_def by simp
  then have "unat (h AND 0x3ff) = f" unfolding word_masks(4) unat_and_mask using f(3) by (simp only: mod_mult_self3 mod_less) simp
  then show "unat (ucast (h AND 0x3ff) :: 32 word) = f" using f(3) by (simp add: unsigned_ucast_eq take_bit_nat_eq_self)
qed (use assms in \<open>simp_all add: half_fields_def\<close>)

text \<open>Packing of a \<open>float\<close>.\<close>

lemma pack32:
  assumes "unat a < 256" "unat f < 1024"
  shows "has_fields ((if s then 0x80000000 else 0) OR push_bit 23 a OR push_bit 13 f) s (unat a) (unat f * 8192)"
proof -
  have p: "unat (push_bit 23 a) = unat a * 2 ^ 23" "unat (push_bit 13 f) = unat f * 2 ^ 13"
    using assms unat_push [of a 23] unat_push [of f 13] by simp_all
  have lt: "unat f * 2 ^ 13 < 2 ^ 23" "unat a * 2 ^ 23 + unat f * 2 ^ 13 < 2 ^ 31" using assms by simp_all
  have "unat ((if s then 0x80000000 else 0) OR push_bit 23 a OR push_bit 13 f) =
     (if s then 2 ^ 31 else 0) + (unat a * 2 ^ 23 + unat f * 2 ^ 13)"
    unfolding or.assoc unsigned_or_eq p or_low [OF lt(1)] using or_low [OF lt(2), of 1] by simp
  then show ?thesis unfolding has_fields_def using assms lt(1) by simp
qed

lemma bitlen_small: "n \<noteq> 0 \<Longrightarrow> n < 1024 \<Longrightarrow> 1 \<le> bitlen n \<and> bitlen n \<le> 10"
proof -
  assume n: "n \<noteq> 0" "n < 1024"
  have "bitlen n \<noteq> 0" using n(1) by (subst bitlen.simps) simp
  moreover have "\<not> 10 < bitlen n"
  proof
    assume "10 < bitlen n"
    then have "(2::nat) ^ 10 \<le> 2 ^ (bitlen n - 1)" by (intro power_increasing) simp_all
    then show False using bitlen_lower [OF n(1)] n(2) by simp
  qed
  ultimately show ?thesis by simp
qed

lemma normalized_bounds:
  assumes "n \<noteq> 0" "n < 1024"
  shows "1024 \<le> n * 2 ^ (11 - bitlen n)" "n * 2 ^ (11 - bitlen n) < 2048"
proof -
  note b = bitlen_small [OF assms]
  have lo: "2 ^ (bitlen n - 1) * 2 ^ (11 - bitlen n) \<le> n * 2 ^ (11 - bitlen n)" using bitlen_lower [OF assms(1)] by simp
  have hi: "n * 2 ^ (11 - bitlen n) < 2 ^ bitlen n * 2 ^ (11 - bitlen n)" using bitlen_bound [of n] by simp
  have e: "2 ^ (bitlen n - 1) * 2 ^ (11 - bitlen n) = (2::nat) ^ 10" "2 ^ bitlen n * 2 ^ (11 - bitlen n) = (2::nat) ^ 11"
    using b by (simp_all flip: power_add)
  show "1024 \<le> n * 2 ^ (11 - bitlen n)" using lo unfolding e by simp
  show "n * 2 ^ (11 - bitlen n) < 2048" using hi unfolding e by simp
qed

lemma to_float_fields:
  assumes h: "half_fields h s e f"
  shows "e = 31 \<Longrightarrow> has_fields (golem_fp16_to_float h) s 255 (f * 8192)"
    and "0 < e \<Longrightarrow> e < 31 \<Longrightarrow> has_fields (golem_fp16_to_float h) s (e + 112) (f * 8192)"
    and "e = 0 \<Longrightarrow> f = 0 \<Longrightarrow> has_fields (golem_fp16_to_float h) s 0 0"
    and "e = 0 \<Longrightarrow> f \<noteq> 0 \<Longrightarrow> has_fields (golem_fp16_to_float h) s (102 + bitlen f) ((f * 2 ^ (11 - bitlen f) - 1024) * 8192)"
proof -
  note d = half_fieldsD [OF h]
  define ex :: "32 word" where "ex = ucast (drop_bit 10 h AND 0x1f)"
  define fr :: "32 word" where "fr = ucast (h AND 0x3ff)"
  have ex: "unat ex = e" "ex = 0 \<longleftrightarrow> e = 0" "ex = 0x1f \<longleftrightarrow> e = 31"
    using d(2) by (simp_all add: ex_def word_unat_eq_iff)
  have fr: "unat fr = f" "fr = 0 \<longleftrightarrow> f = 0" using d(3) by (simp_all add: fr_def word_unat_eq_iff)
  have eq: "golem_fp16_to_float h =
    (let sgn = (if s then 0x80000000 else 0)
     in if e = 0 then (if f = 0 then sgn else case fp16_normalize fr (- 14) of (n, k) \<Rightarrow>
             sgn OR push_bit 23 (of_int (k + 127)) OR push_bit 13 (n AND 0x3ff))
        else if e = 31 then sgn OR 0x7f800000 OR push_bit 13 fr
        else sgn OR push_bit 23 (ex + 112) OR push_bit 13 fr)"
    unfolding golem_fp16_to_float_def Let_def ex_def [symmetric] fr_def [symmetric] d(1) ex(2,3) fr(2) ..
  have inf: "(0x7f800000 :: 32 word) = push_bit 23 0xff" by simp
  show "has_fields (golem_fp16_to_float h) s 255 (f * 8192)" if "e = 31"
    using pack32 [of "0xff" fr s] that fr d(5) unfolding eq inf by (simp add: Let_def)
  show "has_fields (golem_fp16_to_float h) s (e + 112) (f * 8192)" if "0 < e" "e < 31"
  proof -
    have "unat (ex + 112) = e + 112" using ex(1) that by (simp add: unat_word_ariths)
    then show ?thesis using pack32 [of "ex + 112" fr s] that fr d(5) unfolding eq by (simp add: Let_def)
  qed
  show "has_fields (golem_fp16_to_float h) s 0 0" if "e = 0" "f = 0"
    using that unfolding eq by (simp add: has_fields_def)
  show "has_fields (golem_fp16_to_float h) s (102 + bitlen f) ((f * 2 ^ (11 - bitlen f) - 1024) * 8192)" if "e = 0" "f \<noteq> 0"
  proof -
    obtain n k where nk: "fp16_normalize fr (- 14) = (n, k)" by (cases "fp16_normalize fr (- 14)")
    have b: "1 \<le> bitlen f" "bitlen f \<le> 10" using bitlen_small that(2) d(5) by auto
    have n: "unat n = f * 2 ^ (11 - bitlen f)" "k = - 14 - int (11 - bitlen f)"
      using normalize_result [of fr "- 14"] fr that(2) d(5) unfolding nk by simp_all
    note nb = normalized_bounds [OF that(2) d(5)]
    have lo: "unat (n AND 0x3ff) = f * 2 ^ (11 - bitlen f) - 1024"
      unfolding word_masks(6) unat_and_mask n(1) using nb by (simp add: le_mod_geq)
    have "k + 127 = int (102 + bitlen f)" using n(2) b by simp
    then have a: "unat (of_int (k + 127) :: 32 word) = 102 + bitlen f"
      using b by (simp only: of_int_of_nat_eq unat_of_nat) simp
    show ?thesis using pack32 [of "of_int (k + 127)" "n AND 0x3ff" s] that nk a lo nb b unfolding eq by (simp add: Let_def)
  qed
qed

lemma round_shift_multiple: "round_shift (f * 2 ^ k) k False = f"
  by (cases k) (simp_all add: round_shift_def Let_def)

text \<open>Two decoded values are the same number.\<close>

fun same_value :: "fvalue \<Rightarrow> fvalue \<Rightarrow> bool" where
  "same_value (FNum s m e) (FNum t n d) = (s = t \<and> int m * 2 ^ nat (e - min e d) = int n * 2 ^ nat (d - min e d))"
| "same_value (FInf s) (FInf t) = (s = t)"
| "same_value FNaN FNaN = True"
| "same_value _ _ = False"

lemma decode_half:
  assumes "half_fields h s e f"
  shows "fdecode binary16 (unat h) = (if e = 31 then (if f = 0 then FInf s else FNaN)
     else if e = 0 then FNum s f (- 24) else FNum s (1024 + f) (int e - 25))"
proof -
  from assms have x: "unat h = half_sign s + e * 1024 + f" "e < 32" "f < 1024" by (simp_all add: half_fields_def)
  have d: "unat h div 2 ^ 10 = (if s then 32 else 0) + e"
    unfolding x(1) half_sign_def using x(3) by (cases s) (auto intro!: div_nat_eqI)
  have sd: "unat h div 2 ^ 15 = (if s then 1 else 0)" unfolding x(1) half_sign_def using x by (cases s) (auto intro!: div_nat_eqI)
  have "unat h = ((if s then 32 else 0) + e) * 2 ^ 10 + f" unfolding x(1) half_sign_def by simp
  then have m: "unat h mod 2 ^ 10 = f" using x(3) by (simp only: mod_mult_self3 mod_less) simp
  show ?thesis unfolding fdecode_def binary16_def fmin_exp_def fbias_def using d sd m x(2) by (simp add: Let_def)
qed

lemma to_fp16_inf:
  assumes "has_fields b s 255 0"
  shows "unat (golem_float_to_fp16 b) = half_sign s + 31 * 1024"
  using has_fieldsD [OF assms] or_inf by (simp add: golem_float_to_fp16_def Let_def)

lemma widen_back:
  "same_value (fdecode binary16 (unat h)) (dec32 (golem_fp16_to_float h)) \<and>
   (fdecode binary16 (unat h) = FNaN \<or> golem_float_to_fp16 (golem_fp16_to_float h) = h)"
proof -
  obtain s e f where h: "half_fields h s e f" using half_fields_exists by blast
  note dec = decode_half [OF h] and fl = to_float_fields [OF h]
  have u: "unat h = half_sign s + e * 1024 + f" "e < 32" "f < 1024" using h by (simp_all add: half_fields_def)
  have eqI: "unat (golem_float_to_fp16 (golem_fp16_to_float h)) = half_sign s + e * 1024 + f \<Longrightarrow> golem_float_to_fp16 (golem_fp16_to_float h) = h"
    using u(1) by (simp add: word_unat_eq_iff)
  consider "e = 31" | "0 < e" "e < 31" | "e = 0" "f = 0" | "e = 0" "f \<noteq> 0" using u(2) by linarith
  then show ?thesis
  proof cases
    case 1
    then show ?thesis using dec decode_fields [OF fl(1)] to_fp16_inf [of "golem_fp16_to_float h" s] fl(1) eqI by auto
  next
    case 2
    have F: "f * 8192 < 2 ^ 23" using u(3) by simp
    have "(2::nat) ^ 23 + f * 8192 = (1024 + f) * 2 ^ 13" by simp
    then have r: "round_shift (2 ^ 23 + f * 8192) 13 False = 1024 + f" by (metis round_shift_multiple)
    have "(e + 112 - 113) * 1024 + (1024 + f) = e * 1024 + f" "e * 1024 + f \<le> 31 * 1024" using 2 u(3) by (auto simp: algebra_simps)
    then have "unat (golem_float_to_fp16 (golem_fp16_to_float h)) = half_sign s + e * 1024 + f"
      using to_fp16_normal [OF fl(2) [OF 2]] 2 unfolding r by simp
    moreover have "int (1024 + f) * 2 ^ 13 = int (2 ^ 23 + f * 8192)" by simp
    ultimately show ?thesis using 2 dec decode_fields [OF fl(2) [OF 2]] eqI by (simp add: min_def)
  next
    case 3
    then show ?thesis using dec decode_fields [OF fl(3)] to_fp16_tiny [OF fl(3)] eqI by simp
  next
    case 4
    note b = bitlen_small [OF 4(2) u(3)] and nb = normalized_bounds [OF 4(2) u(3)]
    have "11 - bitlen f + 13 = 24 - bitlen f" using b by simp
    then have "(2::nat) ^ (11 - bitlen f) * 2 ^ 13 = 2 ^ (24 - bitlen f)" by (simp only: power_add [symmetric])
    then have m: "2 ^ 23 + (f * 2 ^ (11 - bitlen f) - 1024) * 8192 = f * 2 ^ (24 - bitlen f)" using nb by (simp add: diff_mult_distrib)
    have "unat (golem_float_to_fp16 (golem_fp16_to_float h)) = half_sign s + e * 1024 + f"
      using to_fp16_subnormal [OF fl(4) [OF 4]] b 4(1) round_shift_multiple [of f "24 - bitlen f"] unfolding m by simp
    moreover have "same_value (FNum s f (- 24)) (FNum s (f * 2 ^ (24 - bitlen f)) (int (102 + bitlen f) - 150))"
      using b by (simp add: min_def nat_diff_distrib)
    ultimately show ?thesis using 4 dec decode_fields [OF fl(4) [OF 4]] eqI b unfolding m by simp
  qed
qed

text \<open>C39: binary16 values survive the way through \<open>float\<close>: widening represents every binary16 value exactly
  (zeros with their sign, subnormal and normal numbers, infinities; NaNs stay NaNs), and converting
  back returns the original bits of everything but NaNs. The normalisation loop terminates for every fraction.\<close>

theorem fp16_roundtrip:
  "same_value (fdecode binary16 (unat h)) (dec32 (golem_fp16_to_float h)) \<and>
   (fdecode binary16 (unat h) = FNaN \<or> golem_float_to_fp16 (golem_fp16_to_float h) = h)"
  by (rule widen_back)

section \<open>Multiplication rounds once\<close>

lemma bitlen_shift: "m \<noteq> 0 \<Longrightarrow> bitlen (m * 2 ^ k) = bitlen m + k"
proof (induction k)
  case (Suc k)
  have eq: "m * 2 ^ Suc k = 2 * (m * 2 ^ k)" by simp
  show ?case unfolding eq using Suc bitlen_double [of "m * 2 ^ k"] by simp
qed simp

lemma round_shift_scale: "round_shift (m * 2 ^ k) (j + k) False = round_shift m j False"
proof (cases "j = 0")
  case True
  then show ?thesis using round_shift_multiple [of m k] by (simp add: round_shift_def)
next
  case False
  have d: "m * 2 ^ k div 2 ^ (j + k) = m div 2 ^ j" "m * 2 ^ k mod 2 ^ (j + k) = m mod 2 ^ j * 2 ^ k"
    by (simp_all add: power_add mult_mod_left)
  have h: "(2::nat) ^ (j + k) div 2 = 2 ^ j div 2 * 2 ^ k" using False by (cases j) (simp_all add: power_add)
  show ?thesis unfolding round_shift_def Let_def d h using False by simp
qed

text \<open>Rounding depends on the value only, not on how it is written as significand and exponent.\<close>

lemma fround_scale: "fround f s (m * 2 ^ k) (e - int k) False = fround f s m e False"
proof (cases "m = 0")
  case False
  define lsb where "lsb = max (fmin_exp f) (e + int (bitlen m) - int (prec f))"
  have l: "max (fmin_exp f) (e - int k + int (bitlen (m * 2 ^ k)) - int (prec f)) = lsb"
    unfolding bitlen_shift [OF False] lsb_def by simp
  have sig: "(if e - int k \<le> lsb then round_shift (m * 2 ^ k) (nat (lsb - (e - int k))) False else m * 2 ^ k * 2 ^ nat (e - int k - lsb)) =
    (if e \<le> lsb then round_shift m (nat (lsb - e)) False else m * 2 ^ nat (e - lsb))"
  proof (cases "e \<le> lsb")
    case True
    then have "nat (lsb - (e - int k)) = nat (lsb - e) + k" by simp
    then show ?thesis using True round_shift_scale by simp
  next
    case F: False
    show ?thesis
    proof (cases "e - int k \<le> lsb")
      case True
      define j where "j = nat (lsb - (e - int k))"
      have "k = nat (e - lsb) + j" using F True by (simp add: j_def)
      then have eq: "m * 2 ^ k = m * 2 ^ nat (e - lsb) * 2 ^ j" by (simp add: power_add)
      have "round_shift (m * 2 ^ k) j False = m * 2 ^ nat (e - lsb)" unfolding eq by (rule round_shift_multiple)
      then show ?thesis using F True unfolding j_def by simp
    next
      case False
      then have "nat (e - lsb) = k + nat (e - int k - lsb)" using F by simp
      then show ?thesis using F False by (simp add: power_add)
    qed
  qed
  have z: "(m * 2 ^ k = 0 \<and> \<not> False) = (m = 0 \<and> \<not> False)" by simp
  show ?thesis unfolding fround_def Let_def l lsb_def [symmetric] sig z ..
qed (simp add: fround_def)

lemma fround_same:
  assumes "same_value (FNum s m e) (FNum t n d)"
  shows "fround f s m e False = fround f t n d False"
proof -
  have "s = t" and v: "int m * 2 ^ nat (e - min e d) = int n * 2 ^ nat (d - min e d)" using assms by simp_all
  then have "int (m * 2 ^ nat (e - min e d)) = int (n * 2 ^ nat (d - min e d))" by simp
  then have v: "m * 2 ^ nat (e - min e d) = n * 2 ^ nat (d - min e d)" by (simp only: of_nat_eq_iff)
  have "fround f s m e False = fround f s (m * 2 ^ nat (e - min e d)) (min e d) False"
    using fround_scale [of f s m "nat (e - min e d)" e] by simp
  moreover have "fround f s n d False = fround f s (n * 2 ^ nat (d - min e d)) (min e d) False"
    using fround_scale [of f s n "nat (d - min e d)" d] by simp
  ultimately show ?thesis using v \<open>s = t\<close> by simp
qed

text \<open>Numbers of at most 24 significant bits in range are \<open>float\<close>s.\<close>

lemma fround32_exact:
  assumes m: "m \<noteq> 0" "bitlen m \<le> 24" and e: "- 149 \<le> e" "e + int (bitlen m) \<le> 128"
  shows "\<exists>n d. dec32 (of_nat (fround binary32 s m e False)) = FNum s n d \<and> same_value (FNum s m e) (FNum s n d)"
proof -
  define lsb where "lsb = max (- 149) (e + int (bitlen m) - 24)"
  define sig where "sig = m * 2 ^ nat (e - lsb)"
  have le: "lsb \<le> e" "- 149 \<le> lsb" "lsb \<le> 104" using m(2) e by (simp_all add: lsb_def)
  have c: "fmin_exp binary32 = - 149" "prec binary32 = 24" "ew binary32 = 8" "fsign_bits binary32 s = (if s then 2 ^ 31 else 0)"
    by (simp_all add: fmin_exp_def fbias_def binary32_def fsign_bits_def)
  have bl: "bitlen sig = bitlen m + nat (e - lsb)" unfolding sig_def by (rule bitlen_shift [OF m(1)])
  then have "bitlen sig \<le> 24" using le by (simp add: lsb_def max_def split: if_splits)
  then have lt: "sig < 2 ^ 24" using bitlen_bound [of sig] power_increasing [of "bitlen sig" 24 "2::nat"] by simp
  have sg: "(if e \<le> lsb then round_shift m (nat (lsb - e)) False else m * 2 ^ nat (e - lsb)) = sig"
    using le by (simp add: sig_def round_shift_def)
  define b where "b = (if s then 2 ^ 31 else 0) + (nat (lsb + 149) * 2 ^ 23 + sig)"
  have "nat (lsb + 149) \<le> 253" using le by simp
  then have small: "nat (lsb + 149) * 2 ^ 23 + sig < 255 * 2 ^ 23" using lt by simp
  then have fr: "fround binary32 s m e False = b"
    using m(1) sg unfolding fround_def c Let_def of_nat_numeral lsb_def [symmetric] by (simp add: b_def)
  have "b < 2 ^ 32" using small by (simp add: b_def)
  then have b: "unat (of_nat b :: 32 word) = b" by (simp add: unat_of_nat)
  have sv: "same_value (FNum s m e) (FNum s sig lsb)" using le by (simp add: sig_def min_def)
  show ?thesis
  proof (cases "sig < 2 ^ 23")
    case True
    have "lsb = - 149"
    proof (rule ccontr)
      assume "lsb \<noteq> - 149"
      then have "bitlen sig = 24" using bl le by (simp add: lsb_def max_def split: if_splits)
      then have "2 ^ 23 \<le> sig" using bitlen_lower [of sig] m(1) by (simp add: sig_def)
      then show False using True by simp
    qed
    then have "has_fields (of_nat b) s 0 sig" using True b by (simp add: has_fields_def b_def)
    from decode_fields [OF this] show ?thesis using fr sv \<open>lsb = - 149\<close> by auto
  next
    case False
    have "nat (lsb + 150) = nat (lsb + 149) + 1" using le by simp
    then have "b = (if s then 2 ^ 31 else 0) + nat (lsb + 150) * 2 ^ 23 + (sig - 2 ^ 23)" using False by (simp add: b_def)
    moreover have "nat (lsb + 150) < 256" using le by simp
    moreover have "sig - 2 ^ 23 < 2 ^ 23" using lt by (simp add: less_diff_conv2)
    ultimately have "has_fields (of_nat b) s (nat (lsb + 150)) (sig - 2 ^ 23)"
      unfolding has_fields_def b by simp
    from decode_fields [OF this] show ?thesis using fr sv False le by auto
  qed
qed

lemma same_value_trans_mul:
  assumes "same_value (FNum s m e) (FNum s M E)" "same_value (FNum t n d) (FNum t N D)"
  shows "same_value (FNum u (m * n) (e + d)) (FNum u (M * N) (E + D))"
proof -
  have sv: "same_value (FNum s m e) (FNum s M E) \<longleftrightarrow> real m * 2 powr e = real M * 2 powr E" for s m e M E
  proof -
    let ?k = "min e E"
    have pw: "real m * 2 powr e = real m * 2 ^ nat (e - ?k) * 2 powr ?k" "real M * 2 powr E = real M * 2 ^ nat (E - ?k) * 2 powr ?k"
      by (simp_all add: powr_realpow [symmetric] powr_add [symmetric])
    have "int m * 2 ^ nat (e - ?k) = int M * 2 ^ nat (E - ?k) \<longleftrightarrow> real m * 2 ^ nat (e - ?k) = real M * 2 ^ nat (E - ?k)"
      using of_nat_eq_iff [where ?'a = int, of "m * 2 ^ nat (e - ?k)" "M * 2 ^ nat (E - ?k)"]
        of_nat_eq_iff [where ?'a = real, of "m * 2 ^ nat (e - ?k)" "M * 2 ^ nat (E - ?k)"] by simp
    then show ?thesis unfolding pw by simp
  qed
  have "real m * 2 powr e * (real n * 2 powr d) = real M * 2 powr E * (real N * 2 powr D)" using assms unfolding sv by simp
  then show ?thesis unfolding sv by (simp add: powr_add algebra_simps)
qed

lemma half_number_bounds:
  assumes "fdecode binary16 (unat (h :: 16 word)) = FNum s m e"
  shows "m < 2048" "- 24 \<le> e" "e \<le> 5"
proof -
  obtain s' e' f where h: "half_fields h s' e' f" using half_fields_exists by blast
  then have "e' < 32" "f < 1024" by (simp_all add: half_fields_def)
  then show "m < 2048" "- 24 \<le> e" "e \<le> 5" using decode_half [OF h] assms by (auto split: if_splits)
qed

lemma dec32_zero: "dec32 (of_nat (if u then 2 ^ 31 else 0)) = FNum u 0 (- 149)"
proof -
  have "has_fields (of_nat (if u then 2 ^ 31 else 0)) u 0 0" by (simp add: has_fields_def)
  from decode_fields [OF this] show ?thesis by simp
qed

lemma dec32_inf: "dec32 (of_nat (finf_bits binary32 u)) = FInf u"
proof -
  have "has_fields (of_nat (finf_bits binary32 u)) u 255 0" by (simp add: has_fields_def finf_bits_def fsign_bits_def binary32_def)
  from decode_fields [OF this] show ?thesis by simp
qed

text \<open>The \<open>float\<close> product of two widened finite values is exact.\<close>

lemma product_exact:
  assumes "m < 2048" "n < 2048" "- 48 \<le> k" "k \<le> 10"
  shows "\<exists>j d. dec32 (of_nat (fround binary32 u (m * n) k False)) = FNum u j d \<and> fround binary16 u j d False = fround binary16 u (m * n) k False"
proof (cases "m * n = 0")
  case True
  have "fround binary32 u 0 k False = (if u then 2 ^ 31 else 0)" by (simp add: fround_def fsign_bits_def binary32_def)
  then have "dec32 (of_nat (fround binary32 u (m * n) k False)) = FNum u 0 (- 149)" unfolding True using dec32_zero by metis
  moreover have "fround binary16 u 0 (- 149) False = fround binary16 u (m * n) k False" unfolding True by (simp add: fround_def)
  ultimately show ?thesis by blast
next
  case False
  have "m * n \<le> 2047 * 2047" using assms(1,2) by (intro mult_le_mono) simp_all
  then have lt: "m * n < 2 ^ 22" by simp
  have "bitlen (m * n) \<le> 22"
  proof (rule ccontr)
    assume "\<not> bitlen (m * n) \<le> 22"
    then have "(2::nat) ^ 22 \<le> 2 ^ (bitlen (m * n) - 1)" by (intro power_increasing) simp_all
    then show False using bitlen_lower [OF False] lt by simp
  qed
  then obtain j d where j: "dec32 (of_nat (fround binary32 u (m * n) k False)) = FNum u j d" "same_value (FNum u (m * n) k) (FNum u j d)"
    using fround32_exact [OF False, of k u] assms(3,4) by auto
  have "fround binary16 u j d False = fround binary16 u (m * n) k False" by (rule fround_same [OF j(2), symmetric])
  with j(1) show ?thesis by blast
qed

lemma same_value_cases:
  assumes "same_value x y" "x \<noteq> FNaN"
  obtains (num) s m e M E where "x = FNum s m e" "y = FNum s M E" "same_value (FNum s m e) (FNum s M E)" "M = 0 \<longleftrightarrow> m = 0"
    | (inf) s where "x = FInf s" "y = FInf s"
proof -
  have z: "M = 0 \<longleftrightarrow> m = 0" if "int m * 2 ^ a = int M * 2 ^ b" for m M a b :: nat
    using that by (metis mult_eq_0_iff of_nat_eq_0_iff power_not_zero zero_neq_numeral)
  from assms show ?thesis by (cases x; cases y) (auto intro: num inf dest: z)
qed

text \<open>C40: Multiplication of binary16 values rounds once: whenever the product is defined and its magnitude is not in
  the flushed range just above \<open>2^-25\<close>, the result of \<open>operator*\<close>, which multiplies
  as \<open>float\<close> and converts back, is the exact product rounded to nearest even in binary16; the
  intermediate \<open>float\<close> product is exact.\<close>

theorem half_mul_rounds:
  assumes "fmul_exact (fdecode binary16 (unat (h_bits x))) (fdecode binary16 (unat (h_bits y))) \<noteq> FNaN"
    and "\<not> flushed (fmul32 (half_float x) (half_float y))"
  shows "unat (h_bits (half_mul x y)) =
    fround_value binary16 (fmul_exact (fdecode binary16 (unat (h_bits x))) (fdecode binary16 (unat (h_bits y))))"
proof -
  let ?X = "fdecode binary16 (unat (h_bits x))" and ?Y = "fdecode binary16 (unat (h_bits y))"
  let ?x = "dec32 (half_float x)" and ?y = "dec32 (half_float y)"
  let ?p = "fmul32 (half_float x) (half_float y)"
  have sx: "same_value ?X ?x" "?X \<noteq> FNaN" using widen_back assms(1) by (auto simp: half_float_def fmul_exact_def)
  have sy: "same_value ?Y ?y" "?Y \<noteq> FNaN" using widen_back assms(1) by (auto simp: half_float_def fmul_exact_def split: fvalue.splits)
  have done_if: ?thesis if "dec32 ?p \<noteq> FNaN" "fround_value binary16 (dec32 ?p) = fround_value binary16 (fmul_exact ?X ?Y)"
    using to_fp16_rounds [OF that(1)] assms(2) that(2) by (simp add: half_mul_def golem_half_def)
  have inf: ?thesis if "fmul_exact ?X ?Y = FInf u" "fmul_exact ?x ?y = FInf u" for u
    using that by (intro done_if) (simp_all add: fmul32_def fround_value_def dec32_inf)
  from sx show ?thesis
  proof (cases rule: same_value_cases)
    case X: (num s m e M E)
    from sy show ?thesis
    proof (cases rule: same_value_cases)
      case Y: (num t n d N D)
      have sv: "same_value (FNum (s \<noteq> t) (m * n) (e + d)) (FNum (s \<noteq> t) (M * N) (E + D))" by (rule same_value_trans_mul [OF X(3) Y(3)])
      have p: "?p = of_nat (fround binary32 (s \<noteq> t) (m * n) (e + d) False)"
        using fround_same [OF sv, of binary32] X(2) Y(2) by (simp add: fmul32_def fmul_exact_def fround_value_def)
      obtain j k where "dec32 ?p = FNum (s \<noteq> t) j k" "fround binary16 (s \<noteq> t) j k False = fround binary16 (s \<noteq> t) (m * n) (e + d) False"
        using product_exact [of m n "e + d" "s \<noteq> t"] half_number_bounds [OF X(1)] half_number_bounds [OF Y(1)] unfolding p by auto
      then show ?thesis using X(1) Y(1) by (intro done_if) (simp_all add: fmul_exact_def fround_value_def)
    next
      case Y: (inf t)
      then show ?thesis using X assms(1) by (intro inf [of "s \<noteq> t"]) (auto simp: fmul_exact_def split: if_splits)
    qed
  next
    case X: (inf s)
    from sy show ?thesis
    proof (cases rule: same_value_cases)
      case Y: (num t n d N D)
      then show ?thesis using X assms(1) by (intro inf [of "s \<noteq> t"]) (auto simp: fmul_exact_def split: if_splits)
    next
      case Y: (inf t)
      then show ?thesis using X by (intro inf [of "s \<noteq> t"]) (auto simp: fmul_exact_def)
    qed
  qed
qed

text \<open>Three times one half.\<close>

theorem half_mul_rounds_witness:
  "unat (h_bits (half_mul \<lparr>h_bits = 0x4200\<rparr> \<lparr>h_bits = 0x3800\<rparr>)) = 0x3e00"
proof -
  let ?x = "\<lparr>h_bits = 0x4200\<rparr>" and ?y = "\<lparr>h_bits = 0x3800\<rparr>"
  have d: "fdecode binary16 (unat (h_bits ?x)) = FNum False 1536 (- 9)" "fdecode binary16 (unat (h_bits ?y)) = FNum False 1024 (- 11)"
    by (simp_all add: fdecode_def binary16_def fmin_exp_def fbias_def)
  have w: "half_float ?x = 0x40400000" "half_float ?y = 0x3f000000" by (simp_all add: half_float_def golem_fp16_to_float_def)
  have bl: "bitlen 105553116266496 = 47" "bitlen 1572864 = 21" by (simp_all add: bitlen.simps)
  have p: "fmul32 0x40400000 0x3f000000 = 0x3fc00000"
    by (simp add: fmul32_def fdecode_def binary32_def fmin_exp_def fbias_def fmul_exact_def fround_value_def fround_def bl
        round_shift_def fsign_bits_def Let_def)
  have "fmul_exact (fdecode binary16 (unat (h_bits ?x))) (fdecode binary16 (unat (h_bits ?y))) \<noteq> FNaN"
    unfolding d by (simp add: fmul_exact_def)
  moreover have "\<not> flushed (fmul32 (half_float ?x) (half_float ?y))" unfolding w p by (simp add: flushed_def)
  ultimately have "unat (h_bits (half_mul ?x ?y)) =
     fround_value binary16 (fmul_exact (fdecode binary16 (unat (h_bits ?x))) (fdecode binary16 (unat (h_bits ?y))))"
    by (rule half_mul_rounds)
  also have "\<dots> = 0x3e00"
    unfolding d by (simp add: fmul_exact_def fround_value_def fround_def bl round_shift_def binary16_consts half_sign_def Let_def)
  finally show ?thesis .
qed

end
