(* ===== verification/Weight_Cohort.thy ===== *)
theory Weight_Cohort
  imports Decoder_Layout Group_Base "HOL-Library.Multiset"
begin

text \<open>
  \<^verbatim>\<open>golem/attention/reuseWeightCohort.h\<close>: bounded sharing of GEMM weight blocks. The cores of a
  cohort send their fetches to a leader, which loads every 8 KiB block once from HBM into one of its
  scratch slots, reads it back through its memory port and delivers it to every waiter; a consumer
  lands the block at its destination with timed writes. An epoch is released when every member
  has joined and finished and nothing is in flight.

  Memory and network are effects: what an operation asks of them is appended to \<open>wc_out\<close>, their answers are
  arguments (\<open>net\<close>: the network takes the offered message; \<open>maxReq\<close>: \<open>localMaxRequestBytes\<close>; \<open>acc\<close>: whether
  the port accepts the request with a tag), and completion callbacks are operations of their own. The
  ghost fields record the requests received by the leader, those it has answered, every message
  enqueued, the destination of every fetch, and the acknowledged writes.
\<close>

unbundle bit_operations_syntax

section \<open>State\<close>

datatype wc_kind = GemmWeightJoin | GemmWeightRequest | GemmWeightDelivery | GemmWeightFinish | GemmWeightRelease | OtherControl

record wc_message =
  wm_kind :: wc_kind
  wm_jobId :: nat
  wm_tag :: nat
  wm_ownerCore :: nat
  wm_inputAddr :: addr
  wm_outputAddr :: addr
  wm_tensorPayload :: "byte list"

definition new_wm :: "wc_kind \<Rightarrow> wc_message" where
  "new_wm k = \<lparr>wm_kind = k, wm_jobId = 0, wm_tag = 0, wm_ownerCore = 0, wm_inputAddr = 0, wm_outputAddr = 0, wm_tensorPayload = []\<rparr>"

record wc_epoch =
  we_joined :: "32 word"
  we_finished :: "32 word"
  we_finishSent :: bool
  we_released :: bool
  we_requests :: nat
  we_serverRequests :: nat
  we_hits :: nat
  we_hbm :: nat
  we_read :: nat
  we_written :: nat

definition new_epoch :: wc_epoch where
  "new_epoch = \<lparr>we_joined = 0, we_finished = 0, we_finishSent = False, we_released = False, we_requests = 0,
     we_serverRequests = 0, we_hits = 0, we_hbm = 0, we_read = 0, we_written = 0\<rparr>"

record wc_slot =
  ws_source :: addr
  ws_age :: nat
  ws_epoch :: nat
  ws_dma :: bool
  ws_reading :: bool
  ws_pending :: bool
  ws_ready :: bool
  ws_offset :: nat
  ws_bytes :: "byte list"
  ws_waiters :: "wc_message list"

definition new_wslot :: wc_slot where
  "new_wslot = \<lparr>ws_source = 0, ws_age = 0, ws_epoch = 0, ws_dma = False, ws_reading = False, ws_pending = False, ws_ready = False,
     ws_offset = 0, ws_bytes = [], ws_waiters = []\<rparr>"

record wc_landing =
  wl_epoch :: nat
  wl_destination :: addr
  wl_offset :: nat
  wl_pending :: bool
  wl_bytes :: "byte list"

datatype wc_effect =
    WcSend nat wc_message
  | WcDma addr nat addr nat
  | WcRead addr nat nat nat
  | WcWrite addr "byte list" nat nat
  | WcDone nat

record cohort =
  wc_core :: nat
  wc_width :: nat
  wc_count :: nat
  wc_leader :: nat
  wc_mask :: "32 word"
  wc_scratch :: addr
  wc_tag :: nat
  wc_age :: nat
  wc_slots :: "wc_slot list"
  wc_epochs :: "(nat \<times> wc_epoch) list"
  wc_landings :: "(nat \<times> wc_landing) list"
  wc_requests :: "wc_message list"
  wc_outgoing :: "(nat \<times> wc_message) list"
  wc_out :: "wc_effect list"
  wc_received :: "wc_message list"
  wc_answered :: "wc_message list"
  wc_enqueued :: "(nat \<times> wc_message) list"
  wc_fetched :: "(nat \<times> addr) list"
  wc_landed :: "wc_message list"
  wc_acked :: "(nat \<times> addr \<times> byte list) list"

section \<open>Operations\<close>

definition cohort_leader :: "nat \<Rightarrow> nat \<Rightarrow> nat" where
  "cohort_leader coreId width = 4 + (coreId - 4) mod 4 + (coreId - 4) div 4 div width * width * 4"

definition cohort_mask :: "nat \<Rightarrow> nat \<Rightarrow> 32 word" where
  "cohort_mask leader width = foldl (\<lambda>m i. m OR push_bit (leader + i * 4) 1) 0 [0..<width]"

definition wc_make :: "addr \<Rightarrow> nat \<Rightarrow> nat \<Rightarrow> nat \<Rightarrow> nat \<Rightarrow> golem_error + cohort" where
  "wc_make base gmSize coreId width n =
    (if coreId < 4 \<or> coreId \<ge> 20 \<or> (width \<noteq> 2 \<and> width \<noteq> 4) \<or> (n \<noteq> 4 \<and> n \<noteq> 8) then Inl (InvalidArgument ''GEMM weight cohort'')
     else
       let leader = cohort_leader coreId width; scratch = u64 (base + decoder_shared_weight_gm)
       in if u64 (scratch + n * 8192) > sub64 (base + gmSize) 64 then Inl (InvalidArgument ''GEMM weight scratch'')
          else Inr \<lparr>wc_core = coreId, wc_width = width, wc_count = n, wc_leader = leader, wc_mask = cohort_mask leader width,
            wc_scratch = scratch, wc_tag = 0, wc_age = 0, wc_slots = replicate 8 new_wslot, wc_epochs = [], wc_landings = [],
            wc_requests = [], wc_outgoing = [], wc_out = [], wc_received = [], wc_answered = [], wc_enqueued = [], wc_fetched = [],
            wc_landed = [], wc_acked = []\<rparr>)"

definition wc_accepts :: "wc_kind \<Rightarrow> bool" where
  "wc_accepts k \<longleftrightarrow> k = GemmWeightJoin \<or> k = GemmWeightRequest \<or> k = GemmWeightDelivery \<or> k = GemmWeightFinish \<or> k = GemmWeightRelease"

text \<open>\<open>std::map\<close>: entries in ascending order; \<open>operator[]\<close> makes a default entry.\<close>

fun put_epoch :: "nat \<Rightarrow> wc_epoch \<Rightarrow> (nat \<times> wc_epoch) list \<Rightarrow> (nat \<times> wc_epoch) list" where
  "put_epoch k e [] = [(k, e)]"
| "put_epoch k e ((j, d) # xs) =
    (if k = j then (k, e) # xs else if k < j then (k, e) # (j, d) # xs else (j, d) # put_epoch k e xs)"

definition epoch_of :: "nat \<Rightarrow> cohort \<Rightarrow> wc_epoch" where
  "epoch_of k s = (case map_of (wc_epochs s) k of None \<Rightarrow> new_epoch | Some e \<Rightarrow> e)"

definition upd_epoch :: "nat \<Rightarrow> (wc_epoch \<Rightarrow> wc_epoch) \<Rightarrow> cohort \<Rightarrow> cohort" where
  "upd_epoch k f s = s\<lparr>wc_epochs := put_epoch k (f (epoch_of k s)) (wc_epochs s)\<rparr>"

definition upd_wslot :: "nat \<Rightarrow> wc_slot \<Rightarrow> cohort \<Rightarrow> cohort" where
  "upd_wslot i sl s = s\<lparr>wc_slots := (wc_slots s)[i := sl]\<rparr>"

definition wc_send :: "nat \<Rightarrow> wc_message \<Rightarrow> cohort \<Rightarrow> golem_error + cohort" where
  "wc_send d m s =
    (if length (wc_outgoing s) > wc_width s * 8 + 8 then Inl (LogicError ''cohort outgoing queue overflow'')
     else Inr (s\<lparr>wc_outgoing := wc_outgoing s @ [(d, m)], wc_enqueued := wc_enqueued s @ [(d, m)]\<rparr>))"

definition wc_begin :: "nat \<Rightarrow> cohort \<Rightarrow> golem_error + cohort" where
  "wc_begin k s =
    (if we_requests (epoch_of k s) \<noteq> 0 \<or> we_finishSent (epoch_of k s) then Inl (LogicError ''repeated cohort epoch'')
     else wc_send (wc_leader s) ((new_wm GemmWeightJoin)\<lparr>wm_jobId := k, wm_ownerCore := wc_core s\<rparr>) (upd_epoch k id s))"

definition wc_fetch :: "nat \<Rightarrow> addr \<Rightarrow> addr \<Rightarrow> cohort \<Rightarrow> golem_error + cohort" where
  "wc_fetch k source destination s =
    (if length (wc_landings s) \<ge> 4 then Inl (LogicError ''cohort consumer slot overflow'')
     else
       let token = wc_tag s + 1;
           l = \<lparr>wl_epoch = k, wl_destination = destination, wl_offset = 0, wl_pending = False, wl_bytes = []\<rparr>;
           s1 = upd_epoch k (\<lambda>e. e\<lparr>we_requests := we_requests e + 1\<rparr>)
                  (s\<lparr>wc_tag := token, wc_landings := wc_landings s @ [(token, l)], wc_fetched := wc_fetched s @ [(token, destination)]\<rparr>)
       in wc_send (wc_leader s) ((new_wm GemmWeightRequest)\<lparr>wm_jobId := k, wm_tag := token, wm_ownerCore := wc_core s,
            wm_inputAddr := source, wm_outputAddr := destination\<rparr>) s1)"

definition wc_release :: "nat \<Rightarrow> cohort \<Rightarrow> golem_error + (bool \<times> cohort)" where
  "wc_release k s =
    (let s0 = upd_epoch k id s; e = epoch_of k s
     in if wc_landings s \<noteq> [] then Inr (False, s0)
        else if we_finishSent e then Inr (we_released e, s0)
        else bindE (wc_send (wc_leader s) ((new_wm GemmWeightFinish)\<lparr>wm_jobId := k, wm_ownerCore := wc_core s\<rparr>)
                     (upd_epoch k (\<lambda>e. e\<lparr>we_finishSent := True\<rparr>) s))
               (\<lambda>s1. Inr (we_released e, s1)))"

text \<open>The accounting of an epoch; \<open>at\<close> throws for an unknown one.\<close>

definition wc_account :: "(wc_epoch \<Rightarrow> nat) \<Rightarrow> nat \<Rightarrow> cohort \<Rightarrow> golem_error + nat" where
  "wc_account field k s = (case map_of (wc_epochs s) k of None \<Rightarrow> Inl OutOfBounds | Some e \<Rightarrow> Inr (field e))"

definition wc_hbmBytes :: "nat \<Rightarrow> cohort \<Rightarrow> golem_error + nat" where "wc_hbmBytes = wc_account we_hbm"
definition wc_localReadBytes :: "nat \<Rightarrow> cohort \<Rightarrow> golem_error + nat" where "wc_localReadBytes = wc_account we_read"
definition wc_localWriteBytes :: "nat \<Rightarrow> cohort \<Rightarrow> golem_error + nat" where "wc_localWriteBytes = wc_account we_written"

definition receive_delivery :: "wc_message \<Rightarrow> cohort \<Rightarrow> golem_error + cohort" where
  "receive_delivery m s =
    (case map_of (wc_landings s) (wm_tag m) of
       None \<Rightarrow> Inl (LogicError ''invalid weight delivery'')
     | Some l \<Rightarrow>
         if wl_epoch l \<noteq> u32 (wm_jobId m) \<or> wl_bytes l \<noteq> [] \<or> length (wm_tensorPayload m) \<noteq> 8192
         then Inl (LogicError ''invalid weight delivery'')
         else Inr (s\<lparr>wc_landings := put_key (wm_tag m) (l\<lparr>wl_bytes := wm_tensorPayload m\<rparr>) (wc_landings s), wc_landed := wc_landed s @ [m]\<rparr>))"

text \<open>Shifts by 32 or more would be undefined; the mask has no bit there.\<close>

definition wc_receive :: "wc_message \<Rightarrow> cohort \<Rightarrow> golem_error + cohort" where
  "wc_receive m s0 =
    (if \<not> bit (wc_mask s0) (wm_ownerCore m) then Inl (LogicError ''foreign cohort member'')
     else
       let k = u32 (wm_jobId m); s = upd_epoch k id s0
       in if wm_kind m = GemmWeightDelivery then receive_delivery m s
          else if wm_kind m = GemmWeightRelease then Inr (upd_epoch k (\<lambda>e. e\<lparr>we_released := True\<rparr>) s)
          else if wc_core s \<noteq> wc_leader s then Inl (LogicError ''request at nonleader'')
          else if wm_kind m = GemmWeightJoin then Inr (upd_epoch k (\<lambda>e. e\<lparr>we_joined := we_joined e OR push_bit (wm_ownerCore m) 1\<rparr>) s)
          else if wm_kind m = GemmWeightFinish then Inr (upd_epoch k (\<lambda>e. e\<lparr>we_finished := we_finished e OR push_bit (wm_ownerCore m) 1\<rparr>) s)
          else if wm_kind m = GemmWeightRequest then
            (let s1 = upd_epoch k (\<lambda>e. e\<lparr>we_serverRequests := we_serverRequests e + 1\<rparr>) s
             in if length (wc_requests s) \<ge> wc_width s * 4 then Inl (LogicError ''cohort request queue overflow'')
                else Inr (s1\<lparr>wc_requests := wc_requests s1 @ [m], wc_received := wc_received s1 @ [m]\<rparr>))
          else Inl (LogicError ''unknown cohort message''))"

definition pumpMessages :: "bool \<Rightarrow> cohort \<Rightarrow> golem_error + cohort" where
  "pumpMessages net s =
    (case wc_outgoing s of
       [] \<Rightarrow> Inr s
     | (d, m) # rest \<Rightarrow>
         if d = wc_core s then wc_receive m (s\<lparr>wc_outgoing := rest\<rparr>)
         else if net then Inr (s\<lparr>wc_outgoing := rest, wc_out := wc_out s @ [WcSend d m]\<rparr>)
         else Inr s)"

definition pumpLanding :: "nat \<Rightarrow> (nat \<Rightarrow> bool) \<Rightarrow> nat \<Rightarrow> cohort \<Rightarrow> cohort" where
  "pumpLanding maxReq acc token s =
    (case map_of (wc_landings s) token of
       None \<Rightarrow> s
     | Some l \<Rightarrow>
         if wl_pending l \<or> wl_bytes l = [] then s
         else
           let len = min maxReq (8192 - wl_offset l);
               tag = wc_tag s + 1;
               chunk = range_of (wl_bytes l) (wl_offset l) len
           in s\<lparr>wc_tag := tag, wc_landings := put_key token (l\<lparr>wl_pending := acc tag\<rparr>) (wc_landings s),
                wc_out := wc_out s @ [WcWrite (wl_destination l + wl_offset l) chunk tag token]\<rparr>)"

text \<open>The write callback; the ghost records the acknowledged chunk.\<close>

definition landing_writeDone :: "nat \<Rightarrow> addr \<Rightarrow> byte list \<Rightarrow> bool \<Rightarrow> cohort \<Rightarrow> golem_error + cohort" where
  "landing_writeDone token a chunk ok s =
    (case map_of (wc_landings s) token of
       None \<Rightarrow> Inl OutOfBounds
     | Some l \<Rightarrow>
         if \<not> ok then Inl (RuntimeError ''shared landing failed'')
         else
           let off = wl_offset l + length chunk;
               s1 = upd_epoch (wl_epoch l) (\<lambda>e. e\<lparr>we_written := we_written e + length chunk\<rparr>) (s\<lparr>wc_acked := wc_acked s @ [(token, a, chunk)]\<rparr>)
           in if off \<noteq> 8192
              then Inr (s1\<lparr>wc_landings := put_key token (l\<lparr>wl_pending := False, wl_offset := off\<rparr>) (wc_landings s)\<rparr>)
              else Inr (s1\<lparr>wc_landings := remove_key token (wc_landings s), wc_out := wc_out s @ [WcDone token]\<rparr>))"

subsection \<open>The leader\<close>

definition slot_hit :: "wc_message \<Rightarrow> wc_slot \<Rightarrow> bool" where
  "slot_hit m sl \<longleftrightarrow> ws_source sl = wm_inputAddr m \<and> ws_epoch sl = wm_jobId m"

definition slot_free :: "wc_slot \<Rightarrow> bool" where
  "slot_free sl \<longleftrightarrow> \<not> ws_dma sl \<and> \<not> ws_reading sl \<and> \<not> ws_pending sl \<and> ws_waiters sl = []"

text \<open>The free slot of smallest age, the first of them.\<close>

definition oldest_free :: "cohort \<Rightarrow> nat option" where
  "oldest_free s = foldl (\<lambda>sel i.
     if \<not> slot_free (wc_slots s ! i) then sel
     else case sel of None \<Rightarrow> Some i
        | Some j \<Rightarrow> if ws_age (wc_slots s ! i) < ws_age (wc_slots s ! j) then Some i else sel) None [0..<wc_count s]"

definition join_slot :: "nat \<Rightarrow> wc_message \<Rightarrow> cohort \<Rightarrow> cohort" where
  "join_slot i m s =
    (let sl = wc_slots s ! i
     in upd_wslot i (sl\<lparr>ws_age := wc_age s + 1, ws_waiters := ws_waiters sl @ [m]\<rparr>) (s\<lparr>wc_age := wc_age s + 1\<rparr>))"

definition load_slot :: "nat \<Rightarrow> wc_message \<Rightarrow> cohort \<Rightarrow> cohort" where
  "load_slot i m s =
    (let k = u32 (wm_jobId m);
         s1 = upd_wslot i (new_wslot\<lparr>ws_source := wm_inputAddr m, ws_epoch := k, ws_dma := True\<rparr>) s
     in (upd_epoch k (\<lambda>e. e\<lparr>we_hbm := we_hbm e + 8192\<rparr>) s1)
          \<lparr>wc_out := wc_out s @ [WcDma (wm_inputAddr m) 8192 (wc_scratch s + i * 8192) i]\<rparr>)"

text \<open>One iteration of \<open>admit\<close>: \<open>None\<close> keeps the request in the queue.\<close>

definition admit_one :: "wc_message \<Rightarrow> cohort \<Rightarrow> cohort option" where
  "admit_one m s =
    (let k = u32 (wm_jobId m)
     in if we_joined (epoch_of k s) \<noteq> wc_mask s then None
        else case find (\<lambda>i. slot_hit m (wc_slots s ! i)) [0..<wc_count s] of
               Some i \<Rightarrow> Some (join_slot i m (upd_epoch k (\<lambda>e. e\<lparr>we_hits := we_hits e + 1\<rparr>) s))
             | None \<Rightarrow>
                 (case oldest_free s of
                    None \<Rightarrow> None
                  | Some i \<Rightarrow> Some (join_slot i m (load_slot i m s))))"

fun admit_loop :: "wc_message list \<Rightarrow> wc_message list \<Rightarrow> cohort \<Rightarrow> cohort" where
  "admit_loop kept [] s = s\<lparr>wc_requests := kept\<rparr>"
| "admit_loop kept (m # ms) s =
    (case admit_one m s of
       None \<Rightarrow> admit_loop (kept @ [m]) ms (upd_epoch (u32 (wm_jobId m)) id s)
     | Some s' \<Rightarrow> admit_loop kept ms s')"

definition admit :: "cohort \<Rightarrow> cohort" where
  "admit s = admit_loop [] (wc_requests s) s"

definition wc_dmaDone :: "nat \<Rightarrow> bool \<Rightarrow> cohort \<Rightarrow> golem_error + cohort" where
  "wc_dmaDone i ok s =
    (if \<not> ok then Inl (RuntimeError ''shared HBM read failed'')
     else Inr (upd_wslot i ((wc_slots s ! i)\<lparr>ws_dma := False, ws_ready := True\<rparr>) s))"

definition pumpSlot :: "nat \<Rightarrow> (nat \<Rightarrow> bool) \<Rightarrow> nat \<Rightarrow> cohort \<Rightarrow> cohort" where
  "pumpSlot maxReq acc i s =
    (let sl = wc_slots s ! i
     in if ws_dma sl \<or> ws_pending sl \<or> ws_waiters sl = [] then s
        else
          let sl1 = (if ws_reading sl then sl else sl\<lparr>ws_reading := True, ws_offset := 0, ws_bytes := replicate 8192 0\<rparr>);
              len = min maxReq (8192 - ws_offset sl1);
              tag = wc_tag s + 1
          in (upd_wslot i (sl1\<lparr>ws_pending := acc tag\<rparr>) s)
               \<lparr>wc_tag := tag, wc_out := wc_out s @ [WcRead (wc_scratch s + i * 8192 + ws_offset sl1) len tag i]\<rparr>)"

definition delivery_for :: "nat \<Rightarrow> byte list \<Rightarrow> wc_message \<Rightarrow> wc_message" where
  "delivery_for leader bytes r = (new_wm GemmWeightDelivery)\<lparr>wm_ownerCore := leader, wm_jobId := wm_jobId r, wm_tag := wm_tag r,
     wm_tensorPayload := bytes\<rparr>"

fun send_all :: "(nat \<times> wc_message) list \<Rightarrow> cohort \<Rightarrow> golem_error + cohort" where
  "send_all [] s = Inr s"
| "send_all ((d, m) # ms) s = bindE (wc_send d m s) (send_all ms)"

text \<open>The read callback of slot \<open>i\<close>, with the length it captured.\<close>

definition slot_readDone :: "nat \<Rightarrow> nat \<Rightarrow> bool \<Rightarrow> byte list \<Rightarrow> cohort \<Rightarrow> golem_error + cohort" where
  "slot_readDone i len ok b s =
    (let sl = wc_slots s ! i
     in if \<not> ok \<or> length b \<noteq> len then Inl (RuntimeError ''shared GM read failed'')
        else
          let bytes = put_range (ws_offset sl) b (ws_bytes sl);
              off = ws_offset sl + len;
              s1 = upd_epoch (ws_epoch sl) (\<lambda>e. e\<lparr>we_read := we_read e + len\<rparr>) s
          in if off \<noteq> 8192
             then Inr (upd_wslot i (sl\<lparr>ws_pending := False, ws_bytes := bytes, ws_offset := off\<rparr>) s1)
             else bindE (send_all (map (\<lambda>r. (wm_ownerCore r, delivery_for (wc_leader s) bytes r)) (ws_waiters sl)) s1)
                    (\<lambda>s2. Inr ((upd_wslot i (sl\<lparr>ws_pending := False, ws_reading := False, ws_offset := off, ws_bytes := [], ws_waiters := []\<rparr>) s2)
                            \<lparr>wc_answered := wc_answered s2 @ ws_waiters sl\<rparr>)))"

definition leader_busy :: "cohort \<Rightarrow> bool" where
  "leader_busy s \<longleftrightarrow> wc_requests s \<noteq> [] \<or>
     list_ex (\<lambda>i. ws_dma (wc_slots s ! i) \<or> ws_reading (wc_slots s ! i) \<or> ws_waiters (wc_slots s ! i) \<noteq> []) [0..<wc_count s]"

definition release_messages :: "nat \<Rightarrow> cohort \<Rightarrow> (nat \<times> wc_message) list" where
  "release_messages k s = map (\<lambda>i. (wc_leader s + i * 4, (new_wm GemmWeightRelease)\<lparr>wm_jobId := k, wm_ownerCore := wc_leader s\<rparr>)) [0..<wc_width s]"

fun release_epochs :: "nat list \<Rightarrow> cohort \<Rightarrow> golem_error + cohort" where
  "release_epochs [] s = Inr s"
| "release_epochs (k # ks) s =
    (let e = epoch_of k s
     in if we_released e \<or> we_joined e \<noteq> wc_mask s \<or> we_finished e \<noteq> wc_mask s \<or> leader_busy s then release_epochs ks s
        else bindE (send_all (release_messages k s) (upd_epoch k (\<lambda>e. e\<lparr>we_released := True\<rparr>) s)) (release_epochs ks))"

definition wc_tick :: "bool \<Rightarrow> nat \<Rightarrow> (nat \<Rightarrow> bool) \<Rightarrow> cohort \<Rightarrow> golem_error + cohort" where
  "wc_tick net maxReq acc s =
    bindE (pumpMessages net s) (\<lambda>s1.
      let s2 = fold (pumpLanding maxReq acc) (map fst (wc_landings s1)) s1
      in if wc_core s2 \<noteq> wc_leader s2 then Inr s2
         else
           let s3 = fold (pumpSlot maxReq acc) [0..<wc_count s2] (admit s2)
           in release_epochs (map fst (wc_epochs s3)) s3)"

section \<open>Runs\<close>

datatype wc_op =
    WcBegin nat
  | WcFetch nat addr addr
  | WcRelease nat
  | WcReceive wc_message
  | WcDmaDone nat bool
  | WcReadDone nat nat bool "byte list"
  | WcWriteDone nat addr "byte list" bool
  | WcTick bool

fun wc_step :: "nat \<Rightarrow> (nat \<Rightarrow> bool) \<Rightarrow> wc_op \<Rightarrow> cohort \<Rightarrow> golem_error + cohort" where
  "wc_step maxReq acc (WcBegin k) s = wc_begin k s"
| "wc_step maxReq acc (WcFetch k a d) s = wc_fetch k a d s"
| "wc_step maxReq acc (WcRelease k) s = bindE (wc_release k s) (\<lambda>r. Inr (snd r))"
| "wc_step maxReq acc (WcReceive m) s = wc_receive m s"
| "wc_step maxReq acc (WcDmaDone i ok) s = wc_dmaDone i ok s"
| "wc_step maxReq acc (WcReadDone i len ok b) s = slot_readDone i len ok b s"
| "wc_step maxReq acc (WcWriteDone t a b ok) s = landing_writeDone t a b ok s"
| "wc_step maxReq acc (WcTick net) s = wc_tick net maxReq acc s"

text \<open>
  What the surroundings keep to. \<open>host\<close> gives the 8 KiB of HBM at an address. A read of a slot whose DMA
  has completed returns the block of its source; completions come for operations in flight, with the
  sizes they were issued with; epochs fit 32 bits. \<open>addressed\<close>: no fetch of address zero in epoch zero
  (the key of an empty slot; see \<open>cohort_zero_block\<close>).
\<close>

definition addressed :: "addr \<Rightarrow> nat \<Rightarrow> bool" where
  "addressed a k \<longleftrightarrow> (a \<noteq> 0 \<or> k \<noteq> 0) \<and> k < 2 ^ 32"

definition ready_read :: "nat \<Rightarrow> (addr \<Rightarrow> byte list) \<Rightarrow> nat \<Rightarrow> nat \<Rightarrow> bool \<Rightarrow> byte list \<Rightarrow> cohort \<Rightarrow> bool" where
  "ready_read maxReq host i len ok b s \<longleftrightarrow> i < wc_count s \<and>
    (let sl = wc_slots s ! i
     in ws_pending sl \<and> len = min maxReq (8192 - ws_offset sl) \<and> (ok \<and> ws_ready sl \<longrightarrow> b = range_of (host (ws_source sl)) (ws_offset sl) len))"

fun wc_contract :: "nat \<Rightarrow> (addr \<Rightarrow> byte list) \<Rightarrow> wc_op \<Rightarrow> cohort \<Rightarrow> bool" where
  "wc_contract maxReq host (WcFetch k a d) s = addressed a k"
| "wc_contract maxReq host (WcReceive m) s = (wm_kind m = GemmWeightRequest \<longrightarrow> addressed (wm_inputAddr m) (wm_jobId m))"
| "wc_contract maxReq host (WcDmaDone i ok) s = (i < wc_count s \<and> ws_dma (wc_slots s ! i))"
| "wc_contract maxReq host (WcReadDone i len ok b) s = ready_read maxReq host i len ok b s"
| "wc_contract maxReq host (WcWriteDone t a b ok) s =
    (case map_of (wc_landings s) t of
       None \<Rightarrow> False
     | Some l \<Rightarrow> wl_pending l \<and> a = wl_destination l + wl_offset l \<and> b = range_of (wl_bytes l) (wl_offset l) (min maxReq (8192 - wl_offset l)))"
| "wc_contract maxReq host _ s = True"

inductive wc_run :: "nat \<Rightarrow> (nat \<Rightarrow> bool) \<Rightarrow> (addr \<Rightarrow> byte list) \<Rightarrow> cohort \<Rightarrow> wc_op list \<Rightarrow> cohort \<Rightarrow> bool" for maxReq acc host s0 where
  wc_run_init: "wc_run maxReq acc host s0 [] s0"
| wc_run_step: "wc_run maxReq acc host s0 xs s \<Longrightarrow> wc_contract maxReq host x s \<Longrightarrow> wc_step maxReq acc x s = Inr s' \<Longrightarrow>
    wc_run maxReq acc host s0 (xs @ [x]) s'"

section \<open>The leader answers every request once, with the host's block\<close>

definition wslot_ok :: "(addr \<Rightarrow> byte list) \<Rightarrow> wc_slot \<Rightarrow> bool" where
  "wslot_ok host sl \<longleftrightarrow>
     (ws_source sl \<noteq> 0 \<or> ws_epoch sl \<noteq> 0 \<longrightarrow> ws_dma sl \<or> ws_ready sl) \<and>
     (ws_waiters sl \<noteq> [] \<longrightarrow> ws_source sl \<noteq> 0 \<or> ws_epoch sl \<noteq> 0) \<and>
     (ws_reading sl \<longrightarrow> \<not> ws_dma sl \<and> ws_waiters sl \<noteq> [] \<and> length (ws_bytes sl) = 8192 \<and> ws_offset sl < 8192 \<and>
        take (ws_offset sl) (ws_bytes sl) = take (ws_offset sl) (host (ws_source sl))) \<and>
     (ws_pending sl \<longrightarrow> ws_reading sl) \<and>
     (\<forall>m \<in> set (ws_waiters sl). wm_inputAddr m = ws_source sl)"

definition is_delivery :: "nat \<times> wc_message \<Rightarrow> bool" where
  "is_delivery x \<longleftrightarrow> wm_kind (snd x) = GemmWeightDelivery"

definition answer_to :: "nat \<Rightarrow> (addr \<Rightarrow> byte list) \<Rightarrow> wc_message \<Rightarrow> nat \<times> wc_message" where
  "answer_to leader host r = (wm_ownerCore r, delivery_for leader (host (wm_inputAddr r)) r)"

definition waiting :: "cohort \<Rightarrow> wc_message list" where
  "waiting s = concat (map ws_waiters (wc_slots s))"

definition asks_ok :: "wc_message \<Rightarrow> bool" where
  "asks_ok m \<longleftrightarrow> (wm_kind m = GemmWeightRequest \<longrightarrow> addressed (wm_inputAddr m) (wm_jobId m))"

definition leader_inv :: "(addr \<Rightarrow> byte list) \<Rightarrow> cohort \<Rightarrow> bool" where
  "leader_inv host s \<longleftrightarrow> length (wc_slots s) = 8 \<and> wc_count s \<le> 8 \<and>
     (\<forall>sl \<in> set (wc_slots s). wslot_ok host sl) \<and>
     (\<forall>i < 8. wc_count s \<le> i \<longrightarrow> wc_slots s ! i = new_wslot) \<and>
     (\<forall>m \<in> set (wc_requests s). addressed (wm_inputAddr m) (wm_jobId m)) \<and>
     (\<forall>x \<in> set (wc_outgoing s). asks_ok (snd x)) \<and>
     mset (wc_received s) = mset (wc_requests s) + mset (waiting s) + mset (wc_answered s) \<and>
     filter is_delivery (wc_enqueued s) = map (answer_to (wc_leader s) host) (wc_answered s)"

lemma upd_epoch_frame [simp]:
  "wc_slots (upd_epoch k f s) = wc_slots s" "wc_requests (upd_epoch k f s) = wc_requests s" "wc_outgoing (upd_epoch k f s) = wc_outgoing s"
  "wc_received (upd_epoch k f s) = wc_received s" "wc_answered (upd_epoch k f s) = wc_answered s" "wc_enqueued (upd_epoch k f s) = wc_enqueued s"
  "wc_leader (upd_epoch k f s) = wc_leader s" "wc_count (upd_epoch k f s) = wc_count s" "wc_core (upd_epoch k f s) = wc_core s"
  "wc_width (upd_epoch k f s) = wc_width s" "wc_mask (upd_epoch k f s) = wc_mask s" "wc_landings (upd_epoch k f s) = wc_landings s"
  "wc_fetched (upd_epoch k f s) = wc_fetched s" "wc_landed (upd_epoch k f s) = wc_landed s" "wc_acked (upd_epoch k f s) = wc_acked s"
  "wc_out (upd_epoch k f s) = wc_out s" "wc_tag (upd_epoch k f s) = wc_tag s" "wc_scratch (upd_epoch k f s) = wc_scratch s"
  "wc_age (upd_epoch k f s) = wc_age s"
  by (simp_all add: upd_epoch_def)

lemma upd_wslot_frame [simp]:
  "wc_slots (upd_wslot i sl s) = (wc_slots s)[i := sl]" "wc_requests (upd_wslot i sl s) = wc_requests s" "wc_outgoing (upd_wslot i sl s) = wc_outgoing s"
  "wc_received (upd_wslot i sl s) = wc_received s" "wc_answered (upd_wslot i sl s) = wc_answered s" "wc_enqueued (upd_wslot i sl s) = wc_enqueued s"
  "wc_leader (upd_wslot i sl s) = wc_leader s" "wc_count (upd_wslot i sl s) = wc_count s" "wc_core (upd_wslot i sl s) = wc_core s"
  "wc_width (upd_wslot i sl s) = wc_width s" "wc_mask (upd_wslot i sl s) = wc_mask s" "wc_landings (upd_wslot i sl s) = wc_landings s"
  "wc_fetched (upd_wslot i sl s) = wc_fetched s" "wc_landed (upd_wslot i sl s) = wc_landed s" "wc_acked (upd_wslot i sl s) = wc_acked s"
  "wc_out (upd_wslot i sl s) = wc_out s" "wc_tag (upd_wslot i sl s) = wc_tag s" "wc_epochs (upd_wslot i sl s) = wc_epochs s"
  "wc_age (upd_wslot i sl s) = wc_age s" "wc_scratch (upd_wslot i sl s) = wc_scratch s"
  by (simp_all add: upd_wslot_def)

text \<open>The invariant reads only some fields; \<open>lead\<close> collects them.\<close>

definition lead :: "cohort \<Rightarrow> wc_slot list \<times> nat \<times> nat \<times> wc_message list \<times> wc_message list \<times> wc_message list \<times> (nat \<times> wc_message) list" where
  "lead s = (wc_slots s, wc_count s, wc_leader s, wc_requests s, wc_received s, wc_answered s, filter is_delivery (wc_enqueued s))"

lemma leader_inv_frame:
  assumes "leader_inv host s" "lead s' = lead s" "\<And>x. x \<in> set (wc_outgoing s') \<Longrightarrow> asks_ok (snd x)"
  shows "leader_inv host s'"
  using assms unfolding leader_inv_def lead_def waiting_def by auto

lemma leader_invD:
  assumes "leader_inv host s"
  shows "length (wc_slots s) = 8" "wc_count s \<le> 8" "i < 8 \<Longrightarrow> wslot_ok host (wc_slots s ! i)" "i < 8 \<Longrightarrow> wc_count s \<le> i \<Longrightarrow> wc_slots s ! i = new_wslot"
    "m \<in> set (wc_requests s) \<Longrightarrow> addressed (wm_inputAddr m) (wm_jobId m)" "x \<in> set (wc_outgoing s) \<Longrightarrow> asks_ok (snd x)"
    "mset (wc_received s) = mset (wc_requests s) + mset (waiting s) + mset (wc_answered s)"
    "filter is_delivery (wc_enqueued s) = map (answer_to (wc_leader s) host) (wc_answered s)"
  using assms by (simp_all add: leader_inv_def)

lemma waiting_update:
  assumes "i < length xs"
  shows "mset (concat (map ws_waiters (xs[i := y]))) + mset (ws_waiters (xs ! i)) = mset (concat (map ws_waiters xs)) + mset (ws_waiters y)"
proof -
  have u: "xs[i := y] = take i xs @ y # drop (Suc i) xs" by (rule upd_conv_take_nth_drop [OF assms])
  have x: "xs = take i xs @ xs ! i # drop (Suc i) xs" by (rule id_take_nth_drop [OF assms])
  have "mset (concat (map ws_waiters xs)) = mset (concat (map ws_waiters (take i xs))) + mset (ws_waiters (xs ! i)) + mset (concat (map ws_waiters (drop (Suc i) xs)))"
    by (subst x) simp
  then show ?thesis unfolding u by simp
qed

text \<open>A slot changes: it stays well formed, and requests move between the queue, the waiters and the answers.\<close>

lemma leader_inv_slot:
  assumes inv: "leader_inv host s" and i: "i < wc_count s" and ok: "wslot_ok host sl"
    and s': "wc_slots s' = (wc_slots s)[i := sl]" "wc_count s' = wc_count s" "wc_leader s' = wc_leader s" "wc_received s' = wc_received s"
      "\<And>x. x \<in> set (wc_outgoing s') \<Longrightarrow> asks_ok (snd x)" "\<And>m. m \<in> set (wc_requests s') \<Longrightarrow> addressed (wm_inputAddr m) (wm_jobId m)"
    and moved: "mset (wc_requests s) + mset (ws_waiters (wc_slots s ! i)) + mset (wc_answered s) = mset (wc_requests s') + mset (ws_waiters sl) + mset (wc_answered s')"
    and sent: "filter is_delivery (wc_enqueued s') = map (answer_to (wc_leader s) host) (wc_answered s')"
  shows "leader_inv host s'"
proof -
  note d = leader_invD [OF inv]
  have i8: "i < length (wc_slots s)" using i d(1,2) by simp
  have w: "mset (waiting s') + mset (ws_waiters (wc_slots s ! i)) = mset (waiting s) + mset (ws_waiters sl)"
    unfolding waiting_def s'(1) by (rule waiting_update [OF i8])
  have "mset (wc_received s) + mset (ws_waiters sl) = mset (wc_requests s) + mset (wc_answered s) + (mset (waiting s) + mset (ws_waiters sl))"
    unfolding d(7) by (simp add: ac_simps)
  also have "\<dots> = mset (wc_requests s) + mset (ws_waiters (wc_slots s ! i)) + mset (wc_answered s) + mset (waiting s')"
    unfolding w [symmetric] by (simp add: ac_simps)
  also have "\<dots> = mset (wc_requests s') + mset (waiting s') + mset (wc_answered s') + mset (ws_waiters sl)"
    unfolding moved by (simp add: ac_simps)
  finally have "mset (wc_received s') = mset (wc_requests s') + mset (waiting s') + mset (wc_answered s')" unfolding s'(4) by simp
  moreover have "\<forall>x \<in> set (wc_slots s'). wslot_ok host x"
    unfolding s'(1) using inv ok by (auto simp: leader_inv_def dest!: set_update_subset_insert [THEN subsetD])
  moreover have "wc_slots s' ! j = new_wslot" if "j < 8" "wc_count s \<le> j" for j
    unfolding s'(1) using that i d(4) by simp
  ultimately show ?thesis using d(1,2) s'(5,6) sent unfolding leader_inv_def s'(1-3) by simp
qed

lemma send_frame:
  assumes "wc_send d m s = Inr s'"
  shows "wc_slots s' = wc_slots s" "wc_count s' = wc_count s" "wc_leader s' = wc_leader s" "wc_requests s' = wc_requests s"
    "wc_received s' = wc_received s" "wc_answered s' = wc_answered s" "wc_enqueued s' = wc_enqueued s @ [(d, m)]"
    "wc_outgoing s' = wc_outgoing s @ [(d, m)]" "wc_width s' = wc_width s" "wc_mask s' = wc_mask s" "wc_epochs s' = wc_epochs s"
    "wc_core s' = wc_core s" "wc_landings s' = wc_landings s" "wc_fetched s' = wc_fetched s" "wc_landed s' = wc_landed s" "wc_acked s' = wc_acked s"
    "wc_out s' = wc_out s" "wc_tag s' = wc_tag s"
  using assms by (auto simp: wc_send_def split: if_splits)

lemma send_inv:
  assumes "leader_inv host s" "wc_send d m s = Inr s'" "wm_kind m \<noteq> GemmWeightDelivery" "asks_ok m"
  shows "leader_inv host s'"
proof (rule leader_inv_frame [OF assms(1)])
  note f = send_frame [OF assms(2)]
  show "lead s' = lead s" using assms(3) by (simp add: lead_def f is_delivery_def)
  show "asks_ok (snd x)" if "x \<in> set (wc_outgoing s')" for x
    using that assms(4) leader_invD(6) [OF assms(1), of x] by (auto simp: f)
qed

lemma epoch_inv [simp]: "leader_inv host (upd_epoch k f s) = leader_inv host s"
  by (simp add: leader_inv_def waiting_def)

lemma begin_inv: "leader_inv host s \<Longrightarrow> wc_begin k s = Inr s' \<Longrightarrow> leader_inv host s'"
  by (auto simp: wc_begin_def new_wm_def asks_ok_def split: if_splits elim: send_inv [rotated])

lemma fetch_inv:
  assumes "leader_inv host s" "addressed a k" "wc_fetch k a d s = Inr s'"
  shows "leader_inv host s'"
proof -
  let ?s = "upd_epoch k (\<lambda>e. e\<lparr>we_requests := we_requests e + 1\<rparr>)
    (s\<lparr>wc_tag := wc_tag s + 1, wc_landings := wc_landings s @ [(wc_tag s + 1, \<lparr>wl_epoch = k, wl_destination = d, wl_offset = 0, wl_pending = False, wl_bytes = []\<rparr>)],
       wc_fetched := wc_fetched s @ [(wc_tag s + 1, d)]\<rparr>)"
  let ?m = "(new_wm GemmWeightRequest)\<lparr>wm_jobId := k, wm_tag := wc_tag s + 1, wm_ownerCore := wc_core s, wm_inputAddr := a, wm_outputAddr := d\<rparr>"
  have send: "wc_send (wc_leader s) ?m ?s = Inr s'" using assms(3) by (simp add: wc_fetch_def Let_def split: if_splits)
  have "leader_inv host ?s" using assms(1) by (simp add: leader_inv_def waiting_def)
  then show ?thesis by (rule send_inv [OF _ send]) (use assms(2) in \<open>simp_all add: new_wm_def asks_ok_def\<close>)
qed

lemma release_op_inv:
  assumes "leader_inv host s" "wc_release k s = Inr (b, s')"
  shows "leader_inv host s'"
proof -
  have "s' = upd_epoch k id s \<or> wc_send (wc_leader s) ((new_wm GemmWeightFinish)\<lparr>wm_jobId := k, wm_ownerCore := wc_core s\<rparr>)
      (upd_epoch k (\<lambda>e. e\<lparr>we_finishSent := True\<rparr>) s) = Inr s'"
    using assms(2) by (auto simp: wc_release_def Let_def bindE_def split: if_splits sum.splits)
  then show ?thesis
  proof
    assume "wc_send (wc_leader s) ((new_wm GemmWeightFinish)\<lparr>wm_jobId := k, wm_ownerCore := wc_core s\<rparr>)
      (upd_epoch k (\<lambda>e. e\<lparr>we_finishSent := True\<rparr>) s) = Inr s'"
    then show ?thesis by (rule send_inv [rotated]) (use assms(1) in \<open>simp_all add: new_wm_def asks_ok_def\<close>)
  qed (use assms(1) in simp)
qed

lemma receive_leader_inv:
  assumes inv: "leader_inv host s" and m: "asks_ok m" and step: "wc_receive m s = Inr s'"
  shows "leader_inv host s'"
proof (cases "wm_kind m = GemmWeightRequest")
  case True
  then have "s' = (upd_epoch (u32 (wm_jobId m)) (\<lambda>e. e\<lparr>we_serverRequests := we_serverRequests e + 1\<rparr>) (upd_epoch (u32 (wm_jobId m)) id s))
      \<lparr>wc_requests := wc_requests s @ [m], wc_received := wc_received s @ [m]\<rparr>"
    using step by (auto simp: wc_receive_def Let_def split: if_splits)
  then show ?thesis using inv m True by (auto simp: leader_inv_def waiting_def asks_ok_def)
next
  case False
  have "lead s' = lead s \<and> wc_outgoing s' = wc_outgoing s"
    using step False by (auto simp: wc_receive_def receive_delivery_def Let_def lead_def split: if_splits option.splits)
  then show ?thesis using leader_invD(6) [OF inv] by (intro leader_inv_frame [OF inv]) simp_all
qed

lemma pumpMessages_inv:
  assumes inv: "leader_inv host s" and step: "pumpMessages net s = Inr s'"
  shows "leader_inv host s'"
proof (cases "wc_outgoing s")
  case Nil
  then show ?thesis using step inv by (simp add: pumpMessages_def)
next
  case (Cons x rest)
  obtain d m where x: "x = (d, m)" by (cases x)
  have ok: "asks_ok m" "\<And>y. y \<in> set rest \<Longrightarrow> asks_ok (snd y)" using leader_invD(6) [OF inv] Cons x by force+
  have r: "leader_inv host (s\<lparr>wc_outgoing := rest\<rparr>)"
    by (rule leader_inv_frame [OF inv]) (use ok in \<open>simp_all add: lead_def\<close>)
  have r': "leader_inv host (s\<lparr>wc_outgoing := rest, wc_out := wc_out s @ [WcSend d m]\<rparr>)"
    by (rule leader_inv_frame [OF inv]) (use ok in \<open>simp_all add: lead_def\<close>)
  show ?thesis using step inv r' receive_leader_inv [OF r ok(1)] unfolding pumpMessages_def Cons x by (auto split: if_splits)
qed

lemma wslot_okD:
  assumes "wslot_ok host sl"
  shows "ws_source sl \<noteq> 0 \<or> ws_epoch sl \<noteq> 0 \<Longrightarrow> ws_dma sl \<or> ws_ready sl" "ws_waiters sl \<noteq> [] \<Longrightarrow> ws_source sl \<noteq> 0 \<or> ws_epoch sl \<noteq> 0"
    "ws_reading sl \<Longrightarrow> \<not> ws_dma sl" "ws_reading sl \<Longrightarrow> ws_waiters sl \<noteq> []" "ws_reading sl \<Longrightarrow> length (ws_bytes sl) = 8192"
    "ws_reading sl \<Longrightarrow> ws_offset sl < 8192" "ws_reading sl \<Longrightarrow> take (ws_offset sl) (ws_bytes sl) = take (ws_offset sl) (host (ws_source sl))"
    "ws_pending sl \<Longrightarrow> ws_reading sl" "m \<in> set (ws_waiters sl) \<Longrightarrow> wm_inputAddr m = ws_source sl"
  using assms by (auto simp: wslot_ok_def)

lemma oldest_free_Some:
  assumes "oldest_free s = Some i"
  shows "i < wc_count s \<and> slot_free (wc_slots s ! i)"
proof -
  define g where "g = (\<lambda>sel i. if \<not> slot_free (wc_slots s ! i) then sel
     else case sel of None \<Rightarrow> Some i | Some j \<Rightarrow> if ws_age (wc_slots s ! i) < ws_age (wc_slots s ! j) then Some i else sel)"
  have "foldl g sel is = Some i \<Longrightarrow> (i \<in> set is \<and> slot_free (wc_slots s ! i)) \<or> sel = Some i" for sel "is" i
  proof (induction "is" arbitrary: sel)
    case (Cons j js)
    then have "(i \<in> set js \<and> slot_free (wc_slots s ! i)) \<or> g sel j = Some i" by simp
    then show ?case by (auto simp: g_def split: if_splits option.splits)
  qed simp
  from this [of None "[0..<wc_count s]"] show ?thesis using assms by (auto simp: oldest_free_def g_def)
qed

lemma join_slot_ok:
  assumes "wslot_ok host sl" "slot_hit m sl" "addressed (wm_inputAddr m) (wm_jobId m)"
  shows "wslot_ok host (sl\<lparr>ws_age := a, ws_waiters := ws_waiters sl @ [m]\<rparr>)"
  using assms by (auto simp: wslot_ok_def slot_hit_def addressed_def)

text \<open>A request that is admitted leaves the queue for the waiters of a slot.\<close>

lemma join_inv:
  assumes inv: "leader_inv host (s\<lparr>wc_requests := m # q\<rparr>)" and i: "i < wc_count s" and hit: "slot_hit m (wc_slots s ! i)"
  shows "leader_inv host ((join_slot i m s)\<lparr>wc_requests := q\<rparr>)"
proof -
  let ?s = "s\<lparr>wc_requests := m # q\<rparr>"
  note d = leader_invD [OF inv, simplified]
  have ad: "addressed (wm_inputAddr m) (wm_jobId m)" using d(5) by simp
  have i8: "i < 8" using i d(2) by simp
  show ?thesis
  proof (rule leader_inv_slot [OF inv, of i "(wc_slots s ! i)\<lparr>ws_age := wc_age s + 1, ws_waiters := ws_waiters (wc_slots s ! i) @ [m]\<rparr>"])
    show "wslot_ok host ((wc_slots s ! i)\<lparr>ws_age := wc_age s + 1, ws_waiters := ws_waiters (wc_slots s ! i) @ [m]\<rparr>)"
      by (rule join_slot_ok [OF d(3) [OF i8] hit ad])
  qed (use i d in \<open>simp_all add: join_slot_def Let_def\<close>)
qed

lemma load_inv:
  assumes inv: "leader_inv host s" and i: "i < wc_count s" and free: "slot_free (wc_slots s ! i)"
  shows "leader_inv host (load_slot i m s)"
proof -
  note d = leader_invD [OF inv]
  show ?thesis
    by (rule leader_inv_slot [OF inv i, of "new_wslot\<lparr>ws_source := wm_inputAddr m, ws_epoch := u32 (wm_jobId m), ws_dma := True\<rparr>"])
      (use d free in \<open>simp_all add: load_slot_def Let_def wslot_ok_def new_wslot_def slot_free_def\<close>)
qed

lemma admit_one_inv:
  assumes inv: "leader_inv host (s\<lparr>wc_requests := m # q\<rparr>)" and step: "admit_one m s = Some s'"
  shows "leader_inv host (s'\<lparr>wc_requests := q\<rparr>)"
proof -
  let ?k = "u32 (wm_jobId m)"
  note d = leader_invD [OF inv, simplified]
  have ad: "addressed (wm_inputAddr m) (wm_jobId m)" using d(5) by simp
  then have k: "?k = wm_jobId m" by (simp add: addressed_def u32_def)
  have up: "(upd_epoch k f s)\<lparr>wc_requests := r\<rparr> = upd_epoch k f (s\<lparr>wc_requests := r\<rparr>)" for k f r and s :: cohort
    by (simp add: upd_epoch_def epoch_of_def)
  consider (hit) i where "find (\<lambda>i. slot_hit m (wc_slots s ! i)) [0..<wc_count s] = Some i"
      "s' = join_slot i m (upd_epoch ?k (\<lambda>e. e\<lparr>we_hits := we_hits e + 1\<rparr>) s)"
    | (miss) i where "oldest_free s = Some i" "s' = join_slot i m (load_slot i m s)"
    using step by (auto simp: admit_one_def Let_def split: if_splits option.splits)
  then show ?thesis
  proof cases
    case hit
    then have "i < wc_count s" "slot_hit m (wc_slots s ! i)" by (auto simp: find_Some_iff)
    then show ?thesis unfolding hit(2) by (intro join_inv) (use inv in \<open>simp_all add: up\<close>)
  next
    case miss
    have f: "i < wc_count s" "slot_free (wc_slots s ! i)" using oldest_free_Some [OF miss(1)] by simp_all
    have ls: "(load_slot i m s)\<lparr>wc_requests := r\<rparr> = load_slot i m (s\<lparr>wc_requests := r\<rparr>)" for r
      by (simp add: load_slot_def Let_def upd_epoch_def epoch_of_def upd_wslot_def)
    have "leader_inv host (load_slot i m (s\<lparr>wc_requests := m # q\<rparr>))" by (rule load_inv [OF inv]) (use f in simp_all)
    moreover have "i < wc_count (load_slot i m s)" "slot_hit m (wc_slots (load_slot i m s) ! i)"
      using f d(1,2) k by (simp_all add: load_slot_def Let_def slot_hit_def)
    ultimately show ?thesis unfolding miss(2) by (intro join_inv) (simp_all add: ls)
  qed
qed

lemma admit_loop_inv:
  "leader_inv host (s\<lparr>wc_requests := kept @ ms\<rparr>) \<Longrightarrow> leader_inv host (admit_loop kept ms s)"
proof (induction ms arbitrary: kept s)
  case (Cons m ms)
  have perm: "leader_inv host (t\<lparr>wc_requests := a @ m # b\<rparr>) = leader_inv host (t\<lparr>wc_requests := m # a @ b\<rparr>)" for t :: cohort and a b
    by (auto simp: leader_inv_def waiting_def)
  have up: "(upd_epoch k f s)\<lparr>wc_requests := r\<rparr> = upd_epoch k f (s\<lparr>wc_requests := r\<rparr>)" for k f r
    by (simp add: upd_epoch_def epoch_of_def)
  show ?case
  proof (cases "admit_one m s")
    case None
    then show ?thesis using Cons.prems by (simp, intro Cons.IH) (simp add: up)
  next
    case (Some s')
    have "leader_inv host (s'\<lparr>wc_requests := kept @ ms\<rparr>)" using admit_one_inv [OF _ Some] Cons.prems perm by blast
    then show ?thesis using Some by (simp add: Cons.IH)
  qed
qed simp

lemma admit_inv: "leader_inv host s \<Longrightarrow> leader_inv host (admit s)"
  unfolding admit_def by (rule admit_loop_inv) simp

lemma dmaDone_inv:
  assumes inv: "leader_inv host s" and i: "i < wc_count s" "ws_dma (wc_slots s ! i)" and step: "wc_dmaDone i ok s = Inr s'"
  shows "leader_inv host s'"
proof -
  note d = leader_invD [OF inv]
  have i8: "i < 8" using i d(2) by simp
  note w = wslot_okD [OF d(3) [OF i8]]
  have "wslot_ok host ((wc_slots s ! i)\<lparr>ws_dma := False, ws_ready := True\<rparr>)"
    using w i(2) unfolding wslot_ok_def by auto
  then show ?thesis
    using step d by (intro leader_inv_slot [OF inv i(1)]) (auto simp: wc_dmaDone_def split: if_splits)
qed

lemma pumpSlot_inv:
  assumes inv: "leader_inv host s" and i: "i < wc_count s"
  shows "leader_inv host (pumpSlot maxReq acc i s)"
proof (cases "ws_dma (wc_slots s ! i) \<or> ws_pending (wc_slots s ! i) \<or> ws_waiters (wc_slots s ! i) = []")
  case True
  then show ?thesis using inv by (simp add: pumpSlot_def Let_def)
next
  case False
  let ?sl = "wc_slots s ! i"
  let ?sl1 = "if ws_reading ?sl then ?sl else ?sl\<lparr>ws_reading := True, ws_offset := 0, ws_bytes := replicate 8192 0\<rparr>"
  note d = leader_invD [OF inv]
  have i8: "i < 8" using i d(2) by simp
  have ok: "wslot_ok host (?sl1\<lparr>ws_pending := b\<rparr>)" for b
    using d(3) [OF i8] False unfolding wslot_ok_def by auto
  have "pumpSlot maxReq acc i s = (upd_wslot i (?sl1\<lparr>ws_pending := acc (wc_tag s + 1)\<rparr>) s)
     \<lparr>wc_tag := wc_tag s + 1, wc_out := wc_out s @ [WcRead (wc_scratch s + i * 8192 + ws_offset ?sl1) (min maxReq (8192 - ws_offset ?sl1)) (wc_tag s + 1) i]\<rparr>"
    using False by (simp add: pumpSlot_def Let_def)
  then show ?thesis using d by (intro leader_inv_slot [OF inv i ok]) (simp_all split: if_splits)
qed

lemma pumpSlots_inv:
  "leader_inv host s \<Longrightarrow> list_all (\<lambda>i. i < wc_count s) is \<Longrightarrow> leader_inv host (fold (pumpSlot maxReq acc) is s)"
proof (induction "is" arbitrary: s)
  case (Cons i js)
  have "wc_count (pumpSlot maxReq acc i s) = wc_count s" by (simp add: pumpSlot_def Let_def)
  then show ?case using Cons pumpSlot_inv by simp
qed simp

lemma send_all_frame:
  assumes "send_all ms s = Inr s'"
  shows "wc_slots s' = wc_slots s" "wc_count s' = wc_count s" "wc_leader s' = wc_leader s" "wc_requests s' = wc_requests s"
    "wc_received s' = wc_received s" "wc_answered s' = wc_answered s" "wc_enqueued s' = wc_enqueued s @ ms"
    "wc_outgoing s' = wc_outgoing s @ ms" "wc_width s' = wc_width s" "wc_mask s' = wc_mask s" "wc_epochs s' = wc_epochs s"
    "wc_core s' = wc_core s" "wc_landings s' = wc_landings s" "wc_fetched s' = wc_fetched s" "wc_landed s' = wc_landed s" "wc_acked s' = wc_acked s"
    "wc_out s' = wc_out s" "wc_tag s' = wc_tag s"
  using assms by (induction ms arbitrary: s) (auto simp: send_frame dest!: bindE_InrD)

lemma prefix_extends:
  assumes "off + length b \<le> length xs" "take off xs = take off ys" "b = range_of ys off (length b)"
  shows "take (off + length b) (put_range off b xs) = take (off + length b) ys"
proof (rule nth_equalityI)
  have "length b \<le> length ys - off" by (subst assms(3)) simp
  moreover have "off \<le> length ys"
  proof -
    have "length (take off xs) = length (take off ys)" using assms(2) by simp
    then show ?thesis using assms(1) by (simp add: min_def split: if_splits)
  qed
  ultimately show len: "length (take (off + length b) (put_range off b xs)) = length (take (off + length b) ys)"
    using assms(1) by simp
  fix i assume "i < length (take (off + length b) (put_range off b xs))"
  then have i: "i < off + length b" "i < length xs" by simp_all
  have "b ! (i - off) = ys ! i" if "off \<le> i"
    using that i len \<open>off \<le> length ys\<close> by (subst assms(3)) (simp add: nth_range_of)
  moreover have "xs ! i = ys ! i" if "i < off" using that arg_cong [OF assms(2), of "\<lambda>l. l ! i"] by simp
  ultimately show "take (off + length b) (put_range off b xs) ! i = take (off + length b) ys ! i"
    using i by (simp add: nth_put_range)
qed

lemma slot_readDone_inv:
  assumes inv: "leader_inv host s" and c: "ready_read maxReq host i len ok b s" and host: "\<And>a. length (host a) = 8192"
    and step: "slot_readDone i len ok b s = Inr s'"
  shows "leader_inv host s'"
proof -
  let ?sl = "wc_slots s ! i"
  let ?src = "host (ws_source ?sl)"
  note d = leader_invD [OF inv]
  have i: "i < wc_count s" "i < 8" using c d(2) by (simp_all add: ready_read_def Let_def)
  note w = wslot_okD [OF d(3) [OF i(2)]]
  have pend: "ws_pending ?sl" and len: "len = min maxReq (8192 - ws_offset ?sl)" using c by (simp_all add: ready_read_def Let_def)
  note r = w(8) [OF pend]
  have ready: "ws_ready ?sl" using w(1) [OF w(2) [OF w(4) [OF r]]] w(3) [OF r] by simp
  have ok: "ok" "length b = len" using step by (auto simp: slot_readDone_def Let_def split: if_splits)
  have b: "b = range_of ?src (ws_offset ?sl) (length b)" using c ok ready by (simp add: ready_read_def Let_def)
  define bytes where "bytes = put_range (ws_offset ?sl) b (ws_bytes ?sl)"
  have le: "ws_offset ?sl + len \<le> 8192" using len w(6) [OF r] by simp
  have lb: "length bytes = 8192" using w(5) [OF r] by (simp add: bytes_def)
  have pre: "take (ws_offset ?sl + len) bytes = take (ws_offset ?sl + len) ?src"
    unfolding bytes_def ok(2) [symmetric] by (rule prefix_extends) (use le ok(2) w(5,7) [OF r] b in simp_all)
  let ?s1 = "upd_epoch (ws_epoch ?sl) (\<lambda>e. e\<lparr>we_read := we_read e + len\<rparr>) s"
  show ?thesis
  proof (cases "ws_offset ?sl + len = 8192")
    case False
    then have s': "s' = upd_wslot i (?sl\<lparr>ws_pending := False, ws_bytes := bytes, ws_offset := ws_offset ?sl + len\<rparr>) ?s1"
      using step ok by (simp add: slot_readDone_def Let_def bytes_def)
    have sl_ok: "wslot_ok host (?sl\<lparr>ws_pending := False, ws_bytes := bytes, ws_offset := ws_offset ?sl + len\<rparr>)"
      using d(3) [OF i(2)] pre lb le False r unfolding wslot_ok_def by auto
    show ?thesis using d by (intro leader_inv_slot [OF inv i(1) sl_ok]) (simp_all add: s')
  next
    case True
    let ?ms = "map (\<lambda>r. (wm_ownerCore r, delivery_for (wc_leader s) bytes r)) (ws_waiters ?sl)"
    from step True ok obtain s2 where s2: "send_all ?ms ?s1 = Inr s2"
      and s': "s' = (upd_wslot i (?sl\<lparr>ws_pending := False, ws_reading := False, ws_offset := 8192, ws_bytes := [], ws_waiters := []\<rparr>) s2)
        \<lparr>wc_answered := wc_answered s2 @ ws_waiters ?sl\<rparr>"
      by (auto simp: slot_readDone_def Let_def bytes_def dest!: bindE_InrD)
    note f = send_all_frame [OF s2]
    have src: "bytes = ?src" using pre True lb host by (metis take_all order_refl)
    have ans: "?ms = map (answer_to (wc_leader s) host) (ws_waiters ?sl)" using w(9) by (simp add: answer_to_def src)
    have all: "filter is_delivery ?ms = ?ms" by (simp add: filter_map comp_def is_delivery_def delivery_for_def new_wm_def)
    have "wc_enqueued s' = wc_enqueued s @ ?ms" "wc_answered s' = wc_answered s @ ws_waiters ?sl" by (simp_all add: s' f)
    then have enq: "filter is_delivery (wc_enqueued s') = map (answer_to (wc_leader s) host) (wc_answered s')"
      by (simp only: filter_append all [unfolded ans] d(8) ans map_append)
    have out: "asks_ok (snd x)" if "x \<in> set (wc_outgoing s')" for x
      using that d(6) [of x] by (auto simp: s' f asks_ok_def delivery_for_def new_wm_def)
    have sl_ok: "wslot_ok host (?sl\<lparr>ws_pending := False, ws_reading := False, ws_offset := 8192, ws_bytes := [], ws_waiters := []\<rparr>)"
      using d(3) [OF i(2)] unfolding wslot_ok_def by auto
    show ?thesis using enq out d(5) by (intro leader_inv_slot [OF inv i(1) sl_ok]) (simp_all add: s' f)
  qed
qed

lemma release_send_inv:
  assumes "leader_inv host s" "send_all (release_messages k s0) s = Inr s'"
  shows "leader_inv host s'"
proof (rule leader_inv_frame [OF assms(1)])
  note f = send_all_frame [OF assms(2)]
  have n: "filter is_delivery (release_messages k s0) = []" by (auto simp: release_messages_def is_delivery_def new_wm_def filter_empty_conv)
  show "lead s' = lead s" by (simp add: lead_def f n)
  show "asks_ok (snd x)" if "x \<in> set (wc_outgoing s')" for x
    using that leader_invD(6) [OF assms(1), of x] by (auto simp: f release_messages_def asks_ok_def new_wm_def)
qed

lemma release_epochs_inv: "leader_inv host s \<Longrightarrow> release_epochs ks s = Inr s' \<Longrightarrow> leader_inv host s'"
proof (induction ks arbitrary: s)
  case (Cons k ks)
  show ?case
  proof (cases "we_released (epoch_of k s) \<or> we_joined (epoch_of k s) \<noteq> wc_mask s \<or> we_finished (epoch_of k s) \<noteq> wc_mask s \<or> leader_busy s")
    case True
    then show ?thesis using Cons by (simp add: Let_def)
  next
    case False
    then obtain s1 where "send_all (release_messages k s) (upd_epoch k (\<lambda>e. e\<lparr>we_released := True\<rparr>) s) = Inr s1" "release_epochs ks s1 = Inr s'"
      using Cons.prems(2) by (auto simp: Let_def dest: bindE_InrD)
    moreover have "leader_inv host (upd_epoch k (\<lambda>e. e\<lparr>we_released := True\<rparr>) s)" using Cons.prems(1) by simp
    ultimately show ?thesis using Cons.IH release_send_inv by blast
  qed
qed simp

lemma pumpLanding_lead: "lead (pumpLanding maxReq acc t s) = lead s \<and> wc_outgoing (pumpLanding maxReq acc t s) = wc_outgoing s"
  by (simp add: pumpLanding_def Let_def lead_def split: option.splits)

lemma pumpLandings_inv: "leader_inv host s \<Longrightarrow> leader_inv host (fold (pumpLanding maxReq acc) ts s)"
proof (induction ts arbitrary: s)
  case (Cons t ts)
  have "leader_inv host (pumpLanding maxReq acc t s)"
    by (rule leader_inv_frame [OF Cons.prems]) (use pumpLanding_lead leader_invD(6) [OF Cons.prems] in simp_all)
  then show ?case using Cons.IH by simp
qed simp

lemma wc_tick_inv:
  assumes inv: "leader_inv host s" and step: "wc_tick net maxReq acc s = Inr s'"
  shows "leader_inv host s'"
proof -
  from step obtain s1 where s1: "pumpMessages net s = Inr s1"
    and r: "(let s2 = fold (pumpLanding maxReq acc) (map fst (wc_landings s1)) s1
      in if wc_core s2 \<noteq> wc_leader s2 then Inr s2
         else let s3 = fold (pumpSlot maxReq acc) [0..<wc_count s2] (admit s2) in release_epochs (map fst (wc_epochs s3)) s3) = Inr s'"
    unfolding wc_tick_def by (auto dest!: bindE_InrD)
  define s2 where "s2 = fold (pumpLanding maxReq acc) (map fst (wc_landings s1)) s1"
  have i2: "leader_inv host s2" unfolding s2_def by (rule pumpLandings_inv [OF pumpMessages_inv [OF inv s1]])
  have cnt: "wc_count (admit_loop kept ms t) = wc_count t" for kept ms t
    by (induction kept ms t rule: admit_loop.induct)
      (auto simp: admit_one_def join_slot_def load_slot_def Let_def split: option.splits if_splits)
  have i3: "leader_inv host (fold (pumpSlot maxReq acc) [0..<wc_count s2] (admit s2))"
    by (rule pumpSlots_inv [OF admit_inv [OF i2]]) (simp add: admit_def cnt list_all_iff)
  show ?thesis using r i2 release_epochs_inv [OF i3] unfolding s2_def [symmetric] Let_def by (auto split: if_splits)
qed

lemma writeDone_lead:
  "landing_writeDone t a b ok s = Inr s' \<Longrightarrow> lead s' = lead s \<and> wc_outgoing s' = wc_outgoing s"
  by (auto simp: landing_writeDone_def lead_def Let_def split: option.splits if_splits)

lemma wc_step_inv:
  assumes inv: "leader_inv host s" and c: "wc_contract maxReq host x s" and step: "wc_step maxReq acc x s = Inr s'"
    and host: "\<And>a. length (host a) = 8192"
  shows "leader_inv host s'"
proof (cases x)
  case (WcBegin k)
  then show ?thesis using step begin_inv [OF inv] by simp
next
  case (WcFetch k a d)
  then show ?thesis using step c fetch_inv [OF inv] by simp
next
  case (WcRelease k)
  then obtain r where "wc_release k s = Inr r" "s' = snd r" using step by (auto dest: bindE_InrD)
  then show ?thesis using release_op_inv [OF inv, of k "fst r" "snd r"] by simp
next
  case (WcReceive m)
  then show ?thesis using step c receive_leader_inv [OF inv, of m] by (simp add: asks_ok_def)
next
  case (WcDmaDone i ok)
  then show ?thesis using step c dmaDone_inv [OF inv, of i] by simp
next
  case (WcReadDone i len ok b)
  then show ?thesis using step c slot_readDone_inv [OF inv _ host] by simp
next
  case (WcWriteDone t a b ok)
  then have "lead s' = lead s \<and> wc_outgoing s' = wc_outgoing s" using step writeDone_lead by simp
  then show ?thesis using leader_invD(6) [OF inv] by (intro leader_inv_frame [OF inv]) simp_all
next
  case (WcTick net)
  then show ?thesis using step wc_tick_inv [OF inv] by simp
qed

lemma make_leader_inv:
  assumes "wc_make base gmSize c width n = Inr s"
  shows "leader_inv host s"
proof -
  have s: "wc_slots s = replicate 8 new_wslot" "wc_count s \<le> 8" "wc_requests s = []" "wc_outgoing s = []" "wc_received s = []" "wc_answered s = []" "wc_enqueued s = []"
    using assms by (auto simp: wc_make_def Let_def split: if_splits)
  have "wslot_ok host new_wslot" by (simp add: wslot_ok_def new_wslot_def)
  then show ?thesis using s by (simp add: leader_inv_def waiting_def new_wslot_def)
qed

lemma wc_run_leader_inv:
  assumes "wc_run maxReq acc host s0 xs s" "leader_inv host s0" "\<And>a. length (host a) = 8192"
  shows "leader_inv host s"
  using assms
proof (induction rule: wc_run.induct)
  case (wc_run_step xs s x s')
  then show ?case using wc_step_inv by blast
qed simp


section \<open>An epoch is released only when everything has been answered\<close>

lemma map_of_put_epoch: "map_of (put_epoch k e xs) = (map_of xs)(k \<mapsto> e)"
  by (induction k e xs rule: put_epoch.induct) auto

lemma epoch_of_upd: "epoch_of j (upd_epoch k f s) = (if j = k then f (epoch_of k s) else epoch_of j s)"
  by (simp add: epoch_of_def upd_epoch_def map_of_put_epoch)

definition closed_by :: "cohort \<Rightarrow> nat \<Rightarrow> bool" where
  "closed_by s k \<longleftrightarrow> we_joined (epoch_of k s) = wc_mask s \<and> we_finished (epoch_of k s) = wc_mask s"

definition same_service :: "cohort \<Rightarrow> cohort \<Rightarrow> bool" where
  "same_service s s' \<longleftrightarrow> wc_slots s' = wc_slots s \<and> wc_count s' = wc_count s \<and> wc_requests s' = wc_requests s \<and>
     wc_received s' = wc_received s \<and> wc_answered s' = wc_answered s \<and> wc_mask s' = wc_mask s \<and>
     (\<forall>k. we_joined (epoch_of k s') = we_joined (epoch_of k s) \<and> we_finished (epoch_of k s') = we_finished (epoch_of k s))"

lemma same_service_trans: "same_service s t \<Longrightarrow> same_service t u \<Longrightarrow> same_service s u"
  by (simp add: same_service_def)

lemma same_service_busy: "same_service s t \<Longrightarrow> leader_busy t = leader_busy s \<and> closed_by t k = closed_by s k"
  by (simp add: same_service_def leader_busy_def closed_by_def)

lemma release_epochs_spec:
  assumes "release_epochs ks s = Inr s'"
  shows "same_service s s' \<and> (\<exists>ms. wc_enqueued s' = wc_enqueued s @ ms \<and> (\<forall>x \<in> set ms. \<not> leader_busy s \<and> closed_by s (wm_jobId (snd x))))"
  using assms
proof (induction ks arbitrary: s)
  case Nil
  then show ?case by (simp add: same_service_def)
next
  case (Cons k ks)
  show ?case
  proof (cases "we_released (epoch_of k s) \<or> we_joined (epoch_of k s) \<noteq> wc_mask s \<or> we_finished (epoch_of k s) \<noteq> wc_mask s \<or> leader_busy s")
    case True
    then show ?thesis using Cons by (simp add: Let_def)
  next
    case False
    let ?s = "upd_epoch k (\<lambda>e. e\<lparr>we_released := True\<rparr>) s"
    from False obtain s1 where s1: "send_all (release_messages k s) ?s = Inr s1" "release_epochs ks s1 = Inr s'"
      using Cons.prems by (auto simp: Let_def dest: bindE_InrD)
    note f = send_all_frame [OF s1(1)]
    have ss: "same_service s s1" by (simp add: same_service_def f epoch_of_def [of _ s1]) (simp add: epoch_of_upd flip: epoch_of_def)
    obtain ms where ms: "same_service s1 s'" "wc_enqueued s' = wc_enqueued s1 @ ms" "\<forall>x \<in> set ms. \<not> leader_busy s1 \<and> closed_by s1 (wm_jobId (snd x))"
      using Cons.IH [OF s1(2)] by blast
    have "\<forall>x \<in> set (release_messages k s). \<not> leader_busy s \<and> closed_by s (wm_jobId (snd x))"
      using False by (simp add: release_messages_def closed_by_def)
    then have "\<forall>x \<in> set (release_messages k s @ ms). \<not> leader_busy s \<and> closed_by s (wm_jobId (snd x))"
      using ms(3) same_service_busy [OF ss] by auto
    moreover have "wc_enqueued s' = wc_enqueued s @ release_messages k s @ ms" using ms(2) by (simp add: f)
    ultimately show ?thesis using same_service_trans [OF ss ms(1)] by blast
  qed
qed

lemma idle_leader:
  assumes inv: "leader_inv host s" and idle: "\<not> leader_busy s"
  shows "mset (wc_received s) = mset (wc_answered s)"
proof -
  note d = leader_invD [OF inv]
  have "ws_waiters (wc_slots s ! i) = []" if "i < 8" for i
  proof (cases "i < wc_count s")
    case True
    then show ?thesis using idle by (auto simp: leader_busy_def list_ex_iff)
  next
    case False
    then show ?thesis using d(4) [OF that] by (simp add: new_wslot_def)
  qed
  then have "waiting s = []" using d(1) by (auto simp: waiting_def in_set_conv_nth)
  moreover have "wc_requests s = []" using idle by (simp add: leader_busy_def)
  ultimately show ?thesis using d(7) by simp
qed

lemma receive_enqueued: "wc_receive m s = Inr s' \<Longrightarrow> wc_enqueued s' = wc_enqueued s"
  by (auto simp: wc_receive_def receive_delivery_def Let_def split: if_splits option.splits)

lemma pumpMessages_enqueued: "pumpMessages net s = Inr s' \<Longrightarrow> wc_enqueued s' = wc_enqueued s"
  by (auto simp: pumpMessages_def dest!: receive_enqueued split: list.splits if_splits)

lemma pumpLandings_enqueued: "wc_enqueued (fold (pumpLanding maxReq acc) ts s) = wc_enqueued s"
  by (induction ts arbitrary: s) (simp_all add: pumpLanding_def Let_def split: option.splits)

lemma pumpSlots_enqueued: "wc_enqueued (fold (pumpSlot maxReq acc) is s) = wc_enqueued s"
  by (induction "is" arbitrary: s) (simp_all add: pumpSlot_def Let_def)

lemma admit_enqueued: "wc_enqueued (admit_loop kept ms s) = wc_enqueued s" "wc_count (admit_loop kept ms s) = wc_count s"
  by (induction kept ms s rule: admit_loop.induct)
    (auto simp: admit_one_def join_slot_def load_slot_def Let_def split: option.splits if_splits)

lemma tick_releases:
  assumes inv: "leader_inv host s" and step: "wc_tick net maxReq acc s = Inr s'"
  shows "\<exists>ms. wc_enqueued s' = wc_enqueued s @ ms \<and> (\<forall>x \<in> set ms. closed_by s' (wm_jobId (snd x)) \<and> mset (wc_received s') = mset (wc_answered s'))"
proof -
  from step obtain s1 where s1: "pumpMessages net s = Inr s1"
    and r: "(let s2 = fold (pumpLanding maxReq acc) (map fst (wc_landings s1)) s1
      in if wc_core s2 \<noteq> wc_leader s2 then Inr s2
         else let s3 = fold (pumpSlot maxReq acc) [0..<wc_count s2] (admit s2) in release_epochs (map fst (wc_epochs s3)) s3) = Inr s'"
    unfolding wc_tick_def by (auto dest!: bindE_InrD)
  define s2 where "s2 = fold (pumpLanding maxReq acc) (map fst (wc_landings s1)) s1"
  define s3 where "s3 = fold (pumpSlot maxReq acc) [0..<wc_count s2] (admit s2)"
  have e2: "wc_enqueued s2 = wc_enqueued s" unfolding s2_def pumpLandings_enqueued by (rule pumpMessages_enqueued [OF s1])
  have e3: "wc_enqueued s3 = wc_enqueued s" unfolding s3_def pumpSlots_enqueued admit_def admit_enqueued by (rule e2)
  show ?thesis
  proof (cases "wc_core s2 \<noteq> wc_leader s2")
    case True
    then show ?thesis using r e2 unfolding s2_def [symmetric] by (simp add: Let_def)
  next
    case False
    have rel: "release_epochs (map fst (wc_epochs s3)) s3 = Inr s'" using r False unfolding s2_def [symmetric] Let_def s3_def [symmetric] by simp
    have i2: "leader_inv host s2" unfolding s2_def by (rule pumpLandings_inv [OF pumpMessages_inv [OF inv s1]])
    have i3: "leader_inv host s3" unfolding s3_def
      by (rule pumpSlots_inv [OF admit_inv [OF i2]]) (simp add: admit_def admit_enqueued list_all_iff)
    obtain ms where ms: "same_service s3 s'" "wc_enqueued s' = wc_enqueued s3 @ ms"
      "\<forall>x \<in> set ms. \<not> leader_busy s3 \<and> closed_by s3 (wm_jobId (snd x))" using release_epochs_spec [OF rel] by blast
    have "closed_by s' (wm_jobId (snd x)) \<and> mset (wc_received s') = mset (wc_answered s')" if "x \<in> set ms" for x
      using ms(3) that same_service_busy [OF ms(1)] idle_leader [OF i3] ms(1) by (auto simp: same_service_def)
    then show ?thesis using ms(2) e3 by auto
  qed
qed

text \<open>C10: Release of a cohort epoch: a tick announces the release of an epoch only when every member of the
  cohort has joined and finished it and every request that the leader ever received has been
  answered.\<close>

theorem cohort_release_complete:
  assumes "wc_make base gmSize c width n = Inr s0" "wc_run maxReq acc host s0 xs s" "\<forall>a. length (host a) = 8192"
    and "wc_tick net maxReq acc s = Inr s'" "(d, m) \<in> set (drop (length (wc_enqueued s)) (wc_enqueued s'))"
  shows "we_joined (epoch_of (wm_jobId m) s') = wc_mask s' \<and> we_finished (epoch_of (wm_jobId m) s') = wc_mask s' \<and>
    mset (wc_received s') = mset (wc_answered s')"
proof -
  have inv: "leader_inv host s" using wc_run_leader_inv [OF assms(2) make_leader_inv [OF assms(1)]] assms(3) by blast
  obtain ms where ms: "wc_enqueued s' = wc_enqueued s @ ms"
    "\<forall>x \<in> set ms. closed_by s' (wm_jobId (snd x)) \<and> mset (wc_received s') = mset (wc_answered s')"
    using tick_releases [OF inv assms(4)] by blast
  then have "closed_by s' (wm_jobId (snd (d, m))) \<and> mset (wc_received s') = mset (wc_answered s')" using assms(5) by force
  then show ?thesis by (simp add: closed_by_def)
qed

section \<open>Landing\<close>

definition landing_ok :: "cohort \<Rightarrow> nat \<Rightarrow> wc_landing \<Rightarrow> bool" where
  "landing_ok s t l \<longleftrightarrow> t \<le> wc_tag s \<and> (t, wl_destination l) \<in> set (wc_fetched s) \<and>
     (wl_bytes l = [] \<longrightarrow> wl_offset l = 0 \<and> \<not> wl_pending l \<and> written (wc_acked s) t = []) \<and>
     (wl_bytes l \<noteq> [] \<longrightarrow> length (wl_bytes l) = 8192 \<and> wl_offset l < 8192 \<and>
        (\<exists>m \<in> set (wc_landed s). wm_tag m = t \<and> wm_tensorPayload m = wl_bytes l) \<and>
        written (wc_acked s) t = placed_at (wl_destination l) (take (wl_offset l) (wl_bytes l)))"

definition block_landed :: "cohort \<Rightarrow> nat \<Rightarrow> bool" where
  "block_landed s t \<longleftrightarrow> t \<le> wc_tag s \<and> (\<exists>dst. \<exists>m \<in> set (wc_landed s). (t, dst) \<in> set (wc_fetched s) \<and> wm_tag m = t \<and> length (wm_tensorPayload m) = 8192 \<and>
     written (wc_acked s) t = placed_at dst (wm_tensorPayload m))"

definition landing_inv :: "cohort \<Rightarrow> bool" where
  "landing_inv s \<longleftrightarrow> distinct (map fst (wc_landings s)) \<and> (\<forall>(t, l) \<in> set (wc_landings s). landing_ok s t l) \<and>
     (\<forall>t > wc_tag s. written (wc_acked s) t = [] \<and> WcDone t \<notin> set (wc_out s)) \<and>
     (\<forall>t. WcDone t \<in> set (wc_out s) \<longrightarrow> t \<notin> keys (wc_landings s) \<and> block_landed s t \<and> count_list (wc_out s) (WcDone t) = 1)"

text \<open>Operations that do not touch landings.\<close>

definition unlanded :: "cohort \<Rightarrow> cohort \<Rightarrow> bool" where
  "unlanded s s' \<longleftrightarrow> wc_landings s' = wc_landings s \<and> wc_fetched s' = wc_fetched s \<and> wc_landed s' = wc_landed s \<and> wc_acked s' = wc_acked s \<and>
     wc_tag s \<le> wc_tag s' \<and> (\<exists>es. wc_out s' = wc_out s @ es \<and> (\<forall>t. WcDone t \<notin> set es))"

lemma unlanded_refl [simp]: "unlanded s s"
  by (simp add: unlanded_def)

lemma unlanded_trans:
  assumes "unlanded s t" "unlanded t u"
  shows "unlanded s u"
proof -
  obtain es fs where "wc_out t = wc_out s @ es" "\<forall>i. WcDone i \<notin> set es" "wc_out u = wc_out t @ fs" "\<forall>i. WcDone i \<notin> set fs"
    using assms unfolding unlanded_def by blast
  then have "wc_out u = wc_out s @ (es @ fs)" "\<forall>i. WcDone i \<notin> set (es @ fs)" by simp_all
  then show ?thesis using assms unfolding unlanded_def by auto
qed

lemma landing_inv_unlanded:
  assumes inv: "landing_inv s" and u: "unlanded s s'"
  shows "landing_inv s'"
proof -
  obtain es where es: "wc_out s' = wc_out s @ es" "\<And>t. WcDone t \<notin> set es" using u unfolding unlanded_def by blast
  have f: "wc_landings s' = wc_landings s" "wc_fetched s' = wc_fetched s" "wc_landed s' = wc_landed s" "wc_acked s' = wc_acked s" "wc_tag s \<le> wc_tag s'"
    using u by (simp_all add: unlanded_def)
  have c: "count_list (wc_out s') (WcDone t) = count_list (wc_out s) (WcDone t)" for t
    using es(2) [of t] by (simp add: es(1) count_notin)
  have l: "landing_ok s t l \<Longrightarrow> landing_ok s' t l" "block_landed s t \<Longrightarrow> block_landed s' t" for t l
    using f unfolding landing_ok_def block_landed_def by auto
  show ?thesis using inv l es f(5) c unfolding landing_inv_def f(1,4) by auto
qed

lemma send_unlanded: "wc_send d m s = Inr s' \<Longrightarrow> unlanded s s'"
  by (simp add: unlanded_def send_frame)

lemma send_all_unlanded: "send_all ms s = Inr s' \<Longrightarrow> unlanded s s'"
  by (simp add: unlanded_def send_all_frame)

lemma epoch_unlanded [simp]: "unlanded s (upd_epoch k f s')  = unlanded s s'" "unlanded (upd_epoch k f s) s' = unlanded s s'"
  by (simp_all add: unlanded_def)

lemma leader_ops_unlanded:
  "wc_begin k s = Inr s' \<Longrightarrow> unlanded s s'" "wc_dmaDone i ok s = Inr s' \<Longrightarrow> unlanded s s'" "unlanded s (pumpSlot maxReq acc i s)"
  by (auto simp: wc_begin_def dest!: send_unlanded split: if_splits)
    (auto simp: wc_dmaDone_def pumpSlot_def Let_def unlanded_def split: if_splits)

lemma release_unlanded: "wc_release k s = Inr (b, s') \<Longrightarrow> unlanded s s'"
  by (auto simp: wc_release_def Let_def dest!: bindE_InrD send_unlanded split: if_splits)

lemma readDone_unlanded:
  assumes "slot_readDone i len ok b s = Inr s'"
  shows "unlanded s s'"
proof -
  have slot: "unlanded t ((upd_wslot i sl t)\<lparr>wc_answered := a\<rparr>)" "unlanded t (upd_wslot i sl t)" for t i sl a
    by (simp_all add: unlanded_def)
  show ?thesis using assms slot
    by (auto simp: slot_readDone_def Let_def split: if_splits dest!: bindE_InrD send_all_unlanded intro: unlanded_trans)
       (simp add: unlanded_def)
qed

lemma admit_one_unlanded: "admit_one m s = Some s' \<Longrightarrow> unlanded s s'"
  by (auto simp: admit_one_def join_slot_def load_slot_def Let_def unlanded_def split: option.splits if_splits)

lemma admit_loop_unlanded: "unlanded s (admit_loop kept ms s)"
proof (induction kept ms s rule: admit_loop.induct)
  case (2 kept m ms s)
  then show ?case by (auto split: option.splits intro: unlanded_trans admit_one_unlanded)
qed (simp add: unlanded_def)

lemma pumpSlots_unlanded: "unlanded s (fold (pumpSlot maxReq acc) is s)"
  by (induction "is" arbitrary: s) (auto intro: unlanded_trans leader_ops_unlanded(3))

lemma release_epochs_unlanded: "release_epochs ks s = Inr s' \<Longrightarrow> unlanded s s'"
  by (induction ks arbitrary: s) (auto simp: Let_def split: if_splits dest!: bindE_InrD send_all_unlanded intro: unlanded_trans)

lemma landing_invD:
  assumes "landing_inv s"
  shows "distinct (map fst (wc_landings s))" "(t, l) \<in> set (wc_landings s) \<Longrightarrow> landing_ok s t l"
    "wc_tag s < t \<Longrightarrow> written (wc_acked s) t = []" "wc_tag s < t \<Longrightarrow> WcDone t \<notin> set (wc_out s)"
    "WcDone t \<in> set (wc_out s) \<Longrightarrow> t \<notin> keys (wc_landings s)" "WcDone t \<in> set (wc_out s) \<Longrightarrow> block_landed s t"
    "WcDone t \<in> set (wc_out s) \<Longrightarrow> count_list (wc_out s) (WcDone t) = 1"
  using assms unfolding landing_inv_def by blast+

lemma landing_key_le: "landing_inv s \<Longrightarrow> t \<in> keys (wc_landings s) \<Longrightarrow> t \<le> wc_tag s"
  using landing_invD(2) by (fastforce simp: keys_def landing_ok_def)

lemma fetch_landing_inv:
  assumes inv: "landing_inv s" and step: "wc_fetch k a d s = Inr s'"
  shows "landing_inv s'"
proof -
  let ?t = "wc_tag s + 1"
  let ?l = "\<lparr>wl_epoch = k, wl_destination = d, wl_offset = 0, wl_pending = False, wl_bytes = []\<rparr>"
  let ?s = "s\<lparr>wc_tag := ?t, wc_landings := wc_landings s @ [(?t, ?l)], wc_fetched := wc_fetched s @ [(?t, d)]\<rparr>"
  note i = landing_invD [OF inv]
  have fresh: "?t \<notin> keys (wc_landings s)" using landing_key_le [OF inv, of ?t] by auto
  have old: "landing_ok ?s t l" if "(t, l) \<in> set (wc_landings s)" for t l using i(2) [OF that] by (auto simp: landing_ok_def)
  have "landing_ok ?s ?t ?l" using i(3) [of ?t] by (simp add: landing_ok_def)
  then have all: "\<forall>(t, l) \<in> set (wc_landings ?s). landing_ok ?s t l" using old by auto
  have "block_landed s t \<Longrightarrow> block_landed ?s t" for t unfolding block_landed_def by auto
  then have fin: "WcDone t \<in> set (wc_out s) \<Longrightarrow> t \<notin> keys (wc_landings ?s) \<and> block_landed ?s t \<and> count_list (wc_out s) (WcDone t) = 1" for t
    using i(4) [of t] i(5,6,7) [of t] by (auto simp: keys_def)
  have "distinct (map fst (wc_landings ?s))" using i(1) fresh by (simp add: keys_map)
  then have "landing_inv ?s" using all fin i(3,4) unfolding landing_inv_def by auto
  moreover have "unlanded ?s s'" using step by (auto simp: wc_fetch_def Let_def split: if_splits dest!: send_unlanded)
  ultimately show ?thesis by (rule landing_inv_unlanded)
qed

text \<open>A landing record is replaced; its block may just have arrived.\<close>

lemma landing_put:
  assumes inv: "landing_inv s" and t: "t \<in> keys (wc_landings s)"
    and s': "wc_landings s' = put_key t l (wc_landings s)" "wc_fetched s' = wc_fetched s" "set (wc_landed s) \<subseteq> set (wc_landed s')"
      "wc_tag s \<le> wc_tag s'" "wc_out s' = wc_out s @ es" "\<And>t. WcDone t \<notin> set es"
      "\<And>j. j \<noteq> t \<Longrightarrow> written (wc_acked s') j = written (wc_acked s) j"
    and ok: "landing_ok s' t l"
  shows "landing_inv s'"
proof -
  note i = landing_invD [OF inv]
  have "\<forall>(j, x) \<in> set (wc_landings s'). landing_ok s' j x"
  proof clarify
    fix j x assume "(j, x) \<in> set (wc_landings s')"
    then have "(j, x) = (t, l) \<or> (j, x) \<in> set (wc_landings s) \<and> j \<noteq> t" unfolding s'(1) by (auto dest: set_put)
    then show "landing_ok s' j x"
    proof
      assume "(j, x) \<in> set (wc_landings s) \<and> j \<noteq> t"
      then show ?thesis using i(2) [of j x] s'(2,3,4) s'(7) [of j] by (auto simp: landing_ok_def)
    qed (use ok in simp)
  qed
  moreover have "block_landed s' j" if "WcDone j \<in> set (wc_out s)" for j
  proof -
    have "j \<noteq> t" using i(5) [OF that] t by auto
    then show ?thesis using i(6) [OF that] s'(2,3,4) s'(7) [of j] unfolding block_landed_def by auto
  qed
  moreover have "t \<le> wc_tag s" by (rule landing_key_le [OF inv t])
  moreover have "count_list (wc_out s') (WcDone j) = count_list (wc_out s) (WcDone j)" for j using s'(6) [of j] by (simp add: s'(5) count_notin)
  ultimately show ?thesis using i(1,3-7) s'(4,6) s'(7) unfolding landing_inv_def s'(1,5) map_fst_put keys_put by auto
qed

lemma receive_landing_inv:
  assumes inv: "landing_inv s" and step: "wc_receive m s = Inr s'"
  shows "landing_inv s'"
proof (cases "wm_kind m = GemmWeightDelivery")
  case False
  then have "unlanded s s'" using step by (auto simp: wc_receive_def Let_def unlanded_def split: if_splits)
  then show ?thesis by (rule landing_inv_unlanded [OF inv])
next
  case True
  let ?s = "upd_epoch (u32 (wm_jobId m)) id s"
  have inv': "landing_inv ?s" by (rule landing_inv_unlanded [OF inv]) simp
  from step True have "receive_delivery m ?s = Inr s'" by (simp add: wc_receive_def Let_def split: if_splits)
  then obtain l where l: "map_of (wc_landings s) (wm_tag m) = Some l" "wl_bytes l = []" "length (wm_tensorPayload m) = 8192"
    and s': "s' = ?s\<lparr>wc_landings := put_key (wm_tag m) (l\<lparr>wl_bytes := wm_tensorPayload m\<rparr>) (wc_landings s), wc_landed := wc_landed s @ [m]\<rparr>"
    by (auto simp: receive_delivery_def split: option.splits if_splits)
  have ok: "landing_ok s (wm_tag m) l" using landing_invD(2) [OF inv map_of_SomeD [OF l(1)]] .
  show ?thesis
    by (rule landing_put [OF inv', where t = "wm_tag m" and l = "l\<lparr>wl_bytes := wm_tensorPayload m\<rparr>" and es = "[]"])
      (use map_of_keys(1) [OF l(1)] ok l(2,3) in \<open>auto simp: s' landing_ok_def placed_at_def\<close>)
qed

lemma pumpLanding_landing_inv:
  assumes inv: "landing_inv s"
  shows "landing_inv (pumpLanding maxReq acc t s)"
proof (cases "map_of (wc_landings s) t")
  case None
  then show ?thesis using inv by (simp add: pumpLanding_def)
next
  case (Some l)
  have ok: "landing_ok s t l" using landing_invD(2) [OF inv map_of_SomeD [OF Some]] .
  show ?thesis
  proof (cases "wl_pending l \<or> wl_bytes l = []")
    case True
    then show ?thesis using inv Some by (simp add: pumpLanding_def)
  next
    case False
    let ?e = "WcWrite (wl_destination l + wl_offset l) (range_of (wl_bytes l) (wl_offset l) (min maxReq (8192 - wl_offset l))) (wc_tag s + 1) t"
    have "pumpLanding maxReq acc t s = s\<lparr>wc_tag := wc_tag s + 1, wc_landings := put_key t (l\<lparr>wl_pending := acc (wc_tag s + 1)\<rparr>) (wc_landings s), wc_out := wc_out s @ [?e]\<rparr>"
      using Some False by (simp add: pumpLanding_def Let_def)
    then show ?thesis
      by (intro landing_put [OF inv map_of_keys(1) [OF Some], where l = "l\<lparr>wl_pending := acc (wc_tag s + 1)\<rparr>" and es = "[?e]"])
        (use ok False in \<open>auto simp: landing_ok_def\<close>)
  qed
qed

lemma chunk_placed:
  assumes "length xs = 8192" "off < 8192"
  shows "placed_at d (take (off + length (range_of xs off n)) xs) = placed_at d (take off xs) @ placed_at (d + off) (range_of xs off n)"
proof -
  have "take (off + length (range_of xs off n)) xs = take off xs @ range_of xs off n"
    by (simp add: range_of_def take_add min.commute flip: take_take)
  then show ?thesis using assms by (simp add: placed_at_append)
qed

lemma writeDone_landing_inv:
  assumes inv: "landing_inv s" and con: "wc_contract maxReq host (WcWriteDone t a b ok) s" and step: "landing_writeDone t a b ok s = Inr s'"
  shows "landing_inv s'"
proof -
  from con obtain l where l: "map_of (wc_landings s) t = Some l" "wl_pending l" "a = wl_destination l + wl_offset l"
    "b = range_of (wl_bytes l) (wl_offset l) (min maxReq (8192 - wl_offset l))" by (auto split: option.splits)
  note k = map_of_keys(1) [OF l(1)] and i = landing_invD [OF inv]
  have lo: "landing_ok s t l" using i(2) [OF map_of_SomeD [OF l(1)]] .
  then have bs: "wl_bytes l \<noteq> []" "length (wl_bytes l) = 8192" "wl_offset l < 8192" using l(2) by (auto simp: landing_ok_def)
  then have w: "written (wc_acked s) t = placed_at (wl_destination l) (take (wl_offset l) (wl_bytes l))"
    and m: "\<exists>m \<in> set (wc_landed s). wm_tag m = t \<and> wm_tensorPayload m = wl_bytes l" and tl: "t \<le> wc_tag s" "(t, wl_destination l) \<in> set (wc_fetched s)"
    using lo by (auto simp: landing_ok_def)
  let ?off = "wl_offset l + length b"
  let ?s = "upd_epoch (wl_epoch l) (\<lambda>e. e\<lparr>we_written := we_written e + length b\<rparr>) (s\<lparr>wc_acked := wc_acked s @ [(t, a, b)]\<rparr>)"
  have new: "written (wc_acked s @ [(t, a, b)]) t = placed_at (wl_destination l) (take ?off (wl_bytes l))"
    unfolding written_append w l(3) l(4) using chunk_placed [OF bs(2,3)] by simp
  have other: "written (wc_acked s @ [(t, a, b)]) j = written (wc_acked s) j" if "j \<noteq> t" for j using that by (simp add: written_append)
  have le: "?off \<le> 8192" using l(4) bs by simp
  show ?thesis
  proof (cases "?off = 8192")
    case False
    then have s': "s' = ?s\<lparr>wc_landings := put_key t (l\<lparr>wl_pending := False, wl_offset := ?off\<rparr>) (wc_landings s)\<rparr>"
      using step l(1) by (auto simp: landing_writeDone_def Let_def split: if_splits)
    have "landing_ok s' t (l\<lparr>wl_pending := False, wl_offset := ?off\<rparr>)" using False le bs m tl new by (simp add: landing_ok_def s')
    then show ?thesis by (intro landing_put [OF inv k, where es = "[]"]) (simp_all add: s' other)
  next
    case True
    then have s': "s' = ?s\<lparr>wc_landings := remove_key t (wc_landings s), wc_out := wc_out s @ [WcDone t]\<rparr>"
      using step l(1) by (auto simp: landing_writeDone_def Let_def split: if_splits)
    have all: "\<forall>(j, x) \<in> set (wc_landings s'). landing_ok s' j x"
      using i(2) other by (auto simp: s' set_remove landing_ok_def)
    have notdone: "WcDone t \<notin> set (wc_out s)" using i(5) k by blast
    obtain x where x: "x \<in> set (wc_landed s)" "wm_tag x = t" "wm_tensorPayload x = wl_bytes l" using m by blast
    have here: "block_landed s' t"
      unfolding block_landed_def using x tl new bs True
      by (intro conjI exI [of _ "wl_destination l"] bexI [of _ x]) (simp_all add: s')
    have fin: "j \<notin> keys (wc_landings s') \<and> block_landed s' j \<and> count_list (wc_out s') (WcDone j) = 1" if "WcDone j \<in> set (wc_out s')" for j
    proof (cases "j = t")
      case True
      then show ?thesis using here notdone by (simp add: s' count_notin)
    next
      case False
      then have j: "WcDone j \<in> set (wc_out s)" using that by (simp add: s')
      have "block_landed s' j" using i(6) [OF j] other [OF False] by (auto simp: block_landed_def s')
      then show ?thesis using i(5,7) [OF j] False by (simp add: s')
    qed
    have late: "written (wc_acked s') j = [] \<and> WcDone j \<notin> set (wc_out s')" if "wc_tag s' < j" for j
      using i(3,4) [of j] other [of j] tl(1) that by (auto simp: s')
    have "distinct (map fst (wc_landings s'))" using i(1) by (simp add: s' distinct_remove)
    then show ?thesis using all fin late unfolding landing_inv_def by blast
  qed
qed

lemma pumpLandings_landing_inv: "landing_inv s \<Longrightarrow> landing_inv (fold (pumpLanding maxReq acc) ts s)"
  by (induction ts arbitrary: s) (simp_all add: pumpLanding_landing_inv)

lemma pumpMessages_landing_inv:
  assumes inv: "landing_inv s" and step: "pumpMessages net s = Inr s'"
  shows "landing_inv s'"
proof (cases "wc_outgoing s")
  case Nil
  then show ?thesis using step inv by (simp add: pumpMessages_def)
next
  case (Cons x rest)
  obtain d m where x: "x = (d, m)" by (cases x)
  have r: "landing_inv (s\<lparr>wc_outgoing := rest\<rparr>)" "landing_inv (s\<lparr>wc_outgoing := rest, wc_out := wc_out s @ [WcSend d m]\<rparr>)"
    by (rule landing_inv_unlanded [OF inv], simp add: unlanded_def)+
  show ?thesis using step inv r(2) receive_landing_inv [OF r(1)] unfolding pumpMessages_def Cons x by (auto split: if_splits)
qed

lemma tick_landing_inv:
  assumes inv: "landing_inv s" and step: "wc_tick net maxReq acc s = Inr s'"
  shows "landing_inv s'"
proof -
  from step obtain s1 where s1: "pumpMessages net s = Inr s1"
    and r: "(let s2 = fold (pumpLanding maxReq acc) (map fst (wc_landings s1)) s1
      in if wc_core s2 \<noteq> wc_leader s2 then Inr s2
         else let s3 = fold (pumpSlot maxReq acc) [0..<wc_count s2] (admit s2) in release_epochs (map fst (wc_epochs s3)) s3) = Inr s'"
    unfolding wc_tick_def by (auto dest!: bindE_InrD)
  define s2 where "s2 = fold (pumpLanding maxReq acc) (map fst (wc_landings s1)) s1"
  have i2: "landing_inv s2" unfolding s2_def by (rule pumpLandings_landing_inv [OF pumpMessages_landing_inv [OF inv s1]])
  have "unlanded s2 (fold (pumpSlot maxReq acc) [0..<wc_count s2] (admit s2))"
    unfolding admit_def by (rule unlanded_trans [OF admit_loop_unlanded pumpSlots_unlanded])
  then have "unlanded s2 s'" using r unfolding s2_def [symmetric] Let_def
    by (auto split: if_splits dest!: release_epochs_unlanded intro: unlanded_trans)
  then show ?thesis by (rule landing_inv_unlanded [OF i2])
qed

lemma step_landing_inv:
  assumes inv: "landing_inv s" and c: "wc_contract maxReq host x s" and step: "wc_step maxReq acc x s = Inr s'"
  shows "landing_inv s'"
proof (cases x)
  case (WcFetch k a d)
  then show ?thesis using fetch_landing_inv [OF inv] step by simp
next
  case (WcReceive m)
  then show ?thesis using receive_landing_inv [OF inv] step by simp
next
  case (WcWriteDone t a b ok)
  then show ?thesis using writeDone_landing_inv [OF inv, of maxReq host t a b ok] step c by simp
next
  case (WcTick net)
  then show ?thesis using tick_landing_inv [OF inv] step by simp
next
  case (WcRelease k)
  then obtain r where "wc_release k s = Inr r" "s' = snd r" using step by (auto dest: bindE_InrD)
  then show ?thesis using release_unlanded [of k s "fst r" "snd r"] landing_inv_unlanded [OF inv] by simp
qed (use step landing_inv_unlanded [OF inv] in \<open>auto dest: leader_ops_unlanded(1,2) readDone_unlanded\<close>)

lemma make_landing_inv: "wc_make base gmSize c width n = Inr s \<Longrightarrow> landing_inv s"
  by (auto simp: wc_make_def Let_def landing_inv_def written_def split: if_splits)

lemma wc_run_landing_inv:
  assumes "wc_run maxReq acc host s0 xs s" "landing_inv s0"
  shows "landing_inv s"
  using assms
proof (induction rule: wc_run.induct)
  case (wc_run_step xs s x s')
  then show ?case using step_landing_inv by blast
qed simp


section \<open>Examples\<close>

fun wc_exec :: "nat \<Rightarrow> (nat \<Rightarrow> bool) \<Rightarrow> (addr \<Rightarrow> byte list) \<Rightarrow> wc_op list \<Rightarrow> cohort \<Rightarrow> cohort option" where
  "wc_exec maxReq acc host [] s = Some s"
| "wc_exec maxReq acc host (x # xs) s =
    (if \<not> wc_contract maxReq host x s then None
     else case wc_step maxReq acc x s of Inl _ \<Rightarrow> None | Inr s' \<Rightarrow> wc_exec maxReq acc host xs s')"

lemma wc_exec_run:
  assumes "wc_run maxReq acc host s0 ys s" "wc_exec maxReq acc host xs s = Some s'"
  shows "wc_run maxReq acc host s0 (ys @ xs) s'"
  using assms
proof (induction xs arbitrary: ys s)
  case (Cons x xs)
  then obtain t where t: "wc_contract maxReq host x s" "wc_step maxReq acc x s = Inr t" "wc_exec maxReq acc host xs t = Some s'"
    by (auto split: if_splits sum.splits)
  show ?case using Cons.IH [OF wc_run_step [OF Cons.prems(1) t(1,2)] t(3)] by simp
qed simp

definition demo_host :: "addr \<Rightarrow> byte list" where
  "demo_host a = replicate 8192 9"

definition demo_cohort :: "nat \<Rightarrow> cohort" where
  "demo_cohort c = \<lparr>wc_core = c, wc_width = 2, wc_count = 4, wc_leader = 4, wc_mask = 0x110, wc_scratch = decoder_shared_weight_gm, wc_tag = 0,
     wc_age = 0, wc_slots = [new_wslot, new_wslot, new_wslot, new_wslot, new_wslot, new_wslot, new_wslot, new_wslot], wc_epochs = [],
     wc_landings = [], wc_requests = [], wc_outgoing = [], wc_out = [], wc_received = [], wc_answered = [], wc_enqueued = [], wc_fetched = [],
     wc_landed = [], wc_acked = []\<rparr>"

lemma cohort_demo_make: "c = 4 \<or> c = 8 \<Longrightarrow> wc_make 0 0x200000 c 2 4 = Inr (demo_cohort c)"
proof -
  assume c: "c = 4 \<or> c = 8"
  have r: "replicate 8 new_wslot = [new_wslot, new_wslot, new_wslot, new_wslot, new_wslot, new_wslot, new_wslot, new_wslot]"
    by (simp add: numeral_eq_Suc)
  have m: "cohort_mask 4 2 = 0x110" by (simp add: cohort_mask_def upt_rec)
  have l: "cohort_leader c 2 = 4" using c by (auto simp: cohort_leader_def)
  show ?thesis using c by (auto simp: demo_cohort_def wc_make_def Let_def l m r gm_consts u64_def sub64_def)
qed

definition demo_fetch_ops :: "wc_op list" where
  "demo_fetch_ops = [WcFetch 1 0x1000 0x5000,
     WcReceive ((new_wm GemmWeightDelivery)\<lparr>wm_jobId := 1, wm_tag := 1, wm_ownerCore := 4, wm_tensorPayload := demo_host 0x1000\<rparr>),
     WcTick True, WcWriteDone 1 0x5000 (demo_host 0x1000) True]"

lemmas cohort_defs = wc_fetch_def wc_send_def wc_receive_def receive_delivery_def wc_tick_def pumpMessages_def pumpLanding_def
  landing_writeDone_def upd_epoch_def epoch_of_def put_key_def remove_key_def new_wm_def new_epoch_def addressed_def Let_def range_of_def

lemma demo_fetch_exec:
  "\<exists>s. wc_exec 8192 (\<lambda>_. True) demo_host demo_fetch_ops (demo_cohort 8) = Some s \<and> WcDone 1 \<in> set (wc_out s)"
  by (simp add: demo_fetch_ops_def demo_cohort_def demo_host_def cohort_defs)


text \<open>Two members join; one asks twice for the same block, which is loaded once and delivered twice; both finish.\<close>

definition demo_ask :: "nat \<Rightarrow> nat \<Rightarrow> wc_op" where
  "demo_ask t c = WcReceive ((new_wm GemmWeightRequest)\<lparr>wm_jobId := 1, wm_tag := t, wm_ownerCore := c, wm_inputAddr := 0x1000\<rparr>)"

definition demo_note :: "wc_kind \<Rightarrow> nat \<Rightarrow> wc_op" where
  "demo_note k c = WcReceive ((new_wm k)\<lparr>wm_jobId := 1, wm_ownerCore := c\<rparr>)"

definition demo_share_ops :: "wc_op list" where
  "demo_share_ops = [demo_note GemmWeightJoin 4, demo_note GemmWeightJoin 8, demo_ask 1 8, demo_ask 2 8, WcTick True, WcDmaDone 0 True, WcTick True,
     WcReadDone 0 8192 True (demo_host 0x1000), demo_note GemmWeightFinish 4, demo_note GemmWeightFinish 8]"

lemma put_range_whole: "length b = length xs \<Longrightarrow> put_range 0 b xs = b"
  by (rule nth_equalityI) (simp_all add: nth_put_range)

lemmas leader_defs = cohort_defs admit_def admit_one_def slot_hit_def slot_free_def oldest_free_def join_slot_def load_slot_def wc_dmaDone_def
  pumpSlot_def slot_readDone_def delivery_for_def leader_busy_def release_messages_def ready_read_def upd_wslot_def new_wslot_def
  demo_ask_def demo_note_def

lemma upt_4: "[0..<4] = [0, 1, 2, 3]" "[0..<2] = [0, 1]"
  by (simp_all add: upt_rec)

lemma demo_share_exec:
  "\<exists>s. wc_exec 8192 (\<lambda>_. True) demo_host demo_share_ops (demo_cohort 4) = Some s \<and> length (wc_answered s) = 2 \<and>
     count_if is_delivery (wc_enqueued s) = 2 \<and> length (filter (\<lambda>e. \<exists>a n b i. e = WcDma a n b i) (wc_out s)) = 1 \<and>
     (\<exists>s'. wc_tick True 8192 (\<lambda>_. True) s = Inr s' \<and>
        (\<exists>x \<in> set (drop (length (wc_enqueued s)) (wc_enqueued s')). wm_kind (snd x) = GemmWeightRelease \<and> wm_jobId (snd x) = 1))"
  by (simp add: demo_share_ops_def demo_cohort_def demo_host_def leader_defs upt_4 put_range_whole is_delivery_def count_if_def)

lemma demo_hosts: "\<forall>a. length (demo_host a) = 8192"
  by (simp add: demo_host_def)


theorem cohort_release_complete_witness:
  "\<exists>xs s s' x. wc_run 8192 (\<lambda>_. True) demo_host (demo_cohort 4) xs s \<and> wc_tick True 8192 (\<lambda>_. True) s = Inr s' \<and>
     x \<in> set (drop (length (wc_enqueued s)) (wc_enqueued s')) \<and> wm_kind (snd x) = GemmWeightRelease \<and>
     we_finished (epoch_of (wm_jobId (snd x)) s') = wc_mask s' \<and> mset (wc_received s') = mset (wc_answered s')"
proof -
  obtain s s' x where s: "wc_exec 8192 (\<lambda>_. True) demo_host demo_share_ops (demo_cohort 4) = Some s"
    "wc_tick True 8192 (\<lambda>_. True) s = Inr s'" "x \<in> set (drop (length (wc_enqueued s)) (wc_enqueued s'))"
    "wm_kind (snd x) = GemmWeightRelease"
    using demo_share_exec by blast
  have run: "wc_run 8192 (\<lambda>_. True) demo_host (demo_cohort 4) ([] @ demo_share_ops) s" by (rule wc_exec_run [OF wc_run_init s(1)])
  have mk: "wc_make 0 0x200000 4 2 4 = Inr (demo_cohort 4)" by (rule cohort_demo_make) simp
  have x: "(fst x, snd x) \<in> set (drop (length (wc_enqueued s)) (wc_enqueued s'))" using s(3) by simp
  show ?thesis using run s(2,3,4) cohort_release_complete [OF mk run demo_hosts s(2) x] by blast
qed

text \<open>
  Why the contract excludes address zero in epoch zero: an empty slot carries this key and matches the
  request, so that the leader reads the slot's memory back although no block was ever loaded
  into it.
\<close>

lemma cohort_zero_block:
  "\<exists>s1 s2 s3 s4. wc_receive ((new_wm GemmWeightJoin)\<lparr>wm_ownerCore := 4\<rparr>) (demo_cohort 4) = Inr s1 \<and>
     wc_receive ((new_wm GemmWeightJoin)\<lparr>wm_ownerCore := 8\<rparr>) s1 = Inr s2 \<and>
     wc_receive ((new_wm GemmWeightRequest)\<lparr>wm_tag := 1, wm_ownerCore := 8\<rparr>) s2 = Inr s3 \<and>
     wc_tick True 8192 (\<lambda>_. True) s3 = Inr s4 \<and> wc_out s4 = [WcRead decoder_shared_weight_gm 8192 1 0]"
  by (simp add: demo_cohort_def leader_defs upt_4)

end
