(* ===== verification/Spec2Isabelle.thy ===== *)
theory Spec2Isabelle
  imports O_Accumulator Score_Fifo Cluster_Base Busy_Intervals Cluster_State Decoder_Layout Gm_Bank_Scheduler Native_Isa
    Pv_Wo_Handoff Hw_Pipeline Group_Ctrl Fp16 Weight_Cohort
begin

text \<open>
  Verification of the Golem attention cluster (\<^verbatim>\<open>src/sst/elements/golem\<close>).
\<close>

end
